(* ===== verification/Prelude.thy ===== *)
theory Prelude
  imports Main "HOL-Library.Char_ord" "HOL-Library.List_Lexorder"
begin

text \<open>
  Shared vocabulary of the development: the outcome of a Rust computation (a value, an error
  of its \<open>Result\<close> type, or a panic), computations over a state threaded through calls (the
  \<open>?\<close> operator is \<open>andThen\<close>), sorted association lists standing for the standard library's
  map types, and the interface a finite map offers to its clients.
\<close>

section \<open>Outcomes and state-passing computations\<close>

text \<open>
  A call in the Rust code returns \<open>Ok\<close> or \<open>Err\<close>, or panics. The model has two more
  outcomes: \<open>OutOfFuel\<close>, for a recursion whose fuel was too small (shown unreachable where
  the fuel is computed from the input), and \<open>SourceLimit\<close>, for a \<open>source\<close> command nested
  deeper than the bound the caller chose (the code's recursion through \<open>source\<close> has no bound).
\<close>

datatype ('a, 'e) outcome = Ok 'a | Err 'e | Panic | OutOfFuel | SourceLimit

type_synonym ('s, 'a, 'e) act = "'s \<Rightarrow> ('a, 'e) outcome \<times> 's"

definition ret :: "'a \<Rightarrow> ('s, 'a, 'e) act" where
  "ret a = (\<lambda>s. (Ok a, s))"

definition fail :: "'e \<Rightarrow> ('s, 'a, 'e) act" where
  "fail e = (\<lambda>s. (Err e, s))"

definition panic :: "('s, 'a, 'e) act" where
  "panic = (\<lambda>s. (Panic, s))"

definition noFuel :: "('s, 'a, 'e) act" where
  "noFuel = (\<lambda>s. (OutOfFuel, s))"

definition andThen :: "('s, 'a, 'e) act \<Rightarrow> ('a \<Rightarrow> ('s, 'b, 'e) act) \<Rightarrow> ('s, 'b, 'e) act" where
  "andThen m f = (\<lambda>s. case m s of (r, s') \<Rightarrow>
     (case r of Ok a \<Rightarrow> f a s' | Err e \<Rightarrow> (Err e, s') | Panic \<Rightarrow> (Panic, s')
      | OutOfFuel \<Rightarrow> (OutOfFuel, s') | SourceLimit \<Rightarrow> (SourceLimit, s')))"

definition gets :: "('s \<Rightarrow> 'a) \<Rightarrow> ('s, 'a, 'e) act" where
  "gets f = (\<lambda>s. (Ok (f s), s))"

definition modify :: "('s \<Rightarrow> 's) \<Rightarrow> ('s, unit, 'e) act" where
  "modify f = (\<lambda>s. (Ok (), f s))"

definition lift_outcome :: "('a, 'e) outcome \<Rightarrow> ('s, 'a, 'e) act" where
  "lift_outcome r = (\<lambda>s. (r, s))"

named_theorems act_simps \<open>unfolding of the state-passing combinators\<close>

lemma ret_apply [act_simps, simp]: "ret a s = (Ok a, s)"
  by (simp add: ret_def)

lemma fail_apply [act_simps, simp]: "fail e s = (Err e, s)"
  by (simp add: fail_def)

lemma panic_apply [act_simps, simp]: "panic s = (Panic, s)"
  by (simp add: panic_def)

lemma noFuel_apply [act_simps, simp]: "noFuel s = (OutOfFuel, s)"
  by (simp add: noFuel_def)

lemma gets_apply [act_simps, simp]: "gets f s = (Ok (f s), s)"
  by (simp add: gets_def)

lemma modify_apply [act_simps, simp]: "modify f s = (Ok (), f s)"
  by (simp add: modify_def)

lemma lift_outcome_apply [act_simps, simp]: "lift_outcome r s = (r, s)"
  by (simp add: lift_outcome_def)

lemma andThen_Ok [act_simps]: "m s = (Ok a, s') \<Longrightarrow> andThen m f s = f a s'"
  by (simp add: andThen_def)

lemma andThen_Err [act_simps]: "m s = (Err e, s') \<Longrightarrow> andThen m f s = (Err e, s')"
  by (simp add: andThen_def)

lemma andThen_OkE:
  assumes "andThen m f s = (Ok b, s'')"
  obtains a s' where "m s = (Ok a, s')" "f a s' = (Ok b, s'')"
  using assms by (auto simp: andThen_def split: prod.splits outcome.splits)

lemma andThen_ret [simp]: "andThen (ret a) f = f a"
  by (simp add: andThen_def ret_def)

lemma andThen_assoc: "andThen (andThen m f) g = andThen m (\<lambda>a. andThen (f a) g)"
  by (rule ext) (simp add: andThen_def split: prod.splits outcome.splits)

text \<open>
  A state invariant kept by a computation whatever its outcome, the weakest-precondition style
  used for the type invariants of the components: it composes along \<open>andThen\<close>.
\<close>

definition keeps :: "('s \<Rightarrow> bool) \<Rightarrow> ('s, 'a, 'e) act \<Rightarrow> bool" where
  "keeps P m \<longleftrightarrow> (\<forall>s. P s \<longrightarrow> P (snd (m s)))"

named_theorems keeps_intros \<open>introduction rules for keeps\<close>

lemma keepsI: "(\<And>s r s'. P s \<Longrightarrow> m s = (r, s') \<Longrightarrow> P s') \<Longrightarrow> keeps P m"
  by (metis keeps_def prod.collapse)

lemma keepsD: "keeps P m \<Longrightarrow> P s \<Longrightarrow> m s = (r, s') \<Longrightarrow> P s'"
  by (metis keeps_def snd_conv)

lemma keeps_ret [keeps_intros]: "keeps P (ret a)"
  by (simp add: keeps_def)

lemma keeps_fail [keeps_intros]: "keeps P (fail e)"
  by (simp add: keeps_def)

lemma keeps_panic [keeps_intros]: "keeps P panic"
  by (simp add: keeps_def)

lemma keeps_noFuel [keeps_intros]: "keeps P noFuel"
  by (simp add: keeps_def)

lemma keeps_gets [keeps_intros]: "keeps P (gets f)"
  by (simp add: keeps_def)

lemma keeps_lift_outcome [keeps_intros]: "keeps P (lift_outcome r)"
  by (simp add: keeps_def)

lemma keeps_modify: "(\<And>s. P s \<Longrightarrow> P (f s)) \<Longrightarrow> keeps P (modify f)"
  by (simp add: keeps_def)

lemma keeps_andThen [keeps_intros]:
  "keeps P m \<Longrightarrow> (\<And>a. keeps P (f a)) \<Longrightarrow> keeps P (andThen m f)"
  by (fastforce simp: keeps_def andThen_def split: prod.splits outcome.splits)

text \<open>A computation that panics in no state.\<close>

definition never_panics :: "('s, 'a, 'e) act \<Rightarrow> bool" where
  "never_panics m \<longleftrightarrow> (\<forall>s. fst (m s) \<noteq> Panic)"

named_theorems np_intros \<open>introduction rules for never_panics\<close>

lemma never_panicsI: "(\<And>s. fst (m s) \<noteq> Panic) \<Longrightarrow> never_panics m"
  by (simp add: never_panics_def)

lemma never_panicsD: "never_panics m \<Longrightarrow> fst (m s) \<noteq> Panic"
  by (simp add: never_panics_def)

lemma never_panics_basic [np_intros]:
  "never_panics (ret a)" "never_panics (fail e)" "never_panics noFuel" "never_panics (gets f)"
  "never_panics (modify g)"
  by (simp_all add: never_panics_def)

lemma never_panics_lift [np_intros]: "r \<noteq> Panic \<Longrightarrow> never_panics (lift_outcome r)"
  by (simp add: never_panics_def)

lemma never_panics_andThen [np_intros]:
  "never_panics m \<Longrightarrow> (\<And>a. never_panics (f a)) \<Longrightarrow> never_panics (andThen m f)"
  by (auto simp: never_panics_def andThen_def split: prod.split outcome.split)
     (metis fst_conv)

section \<open>Fuel\<close>

text \<open>
  \<open>fuel_le m m'\<close>: \<open>m'\<close> does what \<open>m\<close> does wherever \<open>m\<close> does not run out of fuel. A function with
  a fuel argument is monotone in it, so any two amounts that are enough agree.
\<close>

definition fuel_le :: "('s, 'a, 'e) act \<Rightarrow> ('s, 'a, 'e) act \<Rightarrow> bool" where
  "fuel_le m m' \<longleftrightarrow> (\<forall>s. fst (m s) = OutOfFuel \<or> m s = m' s)"

named_theorems fuel_intros \<open>monotonicity in the fuel\<close>

lemma fuel_le_refl [fuel_intros]: "fuel_le m m"
  by (simp add: fuel_le_def)

lemma fuel_leI: "(\<And>s. fst (m s) \<noteq> OutOfFuel \<Longrightarrow> m s = m' s) \<Longrightarrow> fuel_le m m'"
  by (auto simp: fuel_le_def)

lemma fuel_leD: "fuel_le m m' \<Longrightarrow> fst (m s) \<noteq> OutOfFuel \<Longrightarrow> m' s = m s"
  by (auto simp: fuel_le_def)

lemma fuel_le_noFuel [fuel_intros]: "fuel_le noFuel m"
  by (simp add: fuel_le_def)

lemma fuel_le_trans: "fuel_le m m' \<Longrightarrow> fuel_le m' m'' \<Longrightarrow> fuel_le m m''"
  by (metis fuel_le_def)

lemma fuel_le_andThen [fuel_intros]:
  assumes "fuel_le m m'" "\<And>a. fuel_le (f a) (f' a)"
  shows "fuel_le (andThen m f) (andThen m' f')"
proof (rule fuel_leI)
  fix s
  assume nf: "fst (andThen m f s) \<noteq> OutOfFuel"
  then have "fst (m s) \<noteq> OutOfFuel" by (auto simp: andThen_def split: prod.splits)
  then have m: "m' s = m s" by (rule fuel_leD [OF assms(1)])
  obtain r s' where r: "m s = (r, s')" by fastforce
  show "andThen m f s = andThen m' f' s"
  proof (cases r)
    case (Ok a)
    then have "fst (f a s') \<noteq> OutOfFuel" using nf r by (simp add: andThen_def)
    then have "f' a s' = f a s'" by (rule fuel_leD [OF assms(2)])
    then show ?thesis using m r Ok by (simp add: andThen_def)
  qed (use m r in \<open>simp_all add: andThen_def\<close>)
qed

lemma fuel_le_steps:
  assumes "\<And>k. fuel_le (f k) (f (Suc k))" "k \<le> k'"
  shows "fuel_le (f k) (f k')"
  using assms(2) by (induction rule: dec_induct) (auto intro: fuel_le_refl fuel_le_trans assms(1))

lemma fuel_enough:
  assumes "\<And>k. fuel_le (f k) (f (Suc k))" "fst (f k s) \<noteq> OutOfFuel" "fst (f k' s) \<noteq> OutOfFuel"
  shows "f k s = f k' s"
proof -
  have le: "fuel_le (f i) (f j)" if "i \<le> j" for i j
    by (rule fuel_le_steps [of f, OF assms(1) that])
  show ?thesis
    using fuel_leD [OF le, of k k' s] fuel_leD [OF le, of k' k s] assms(2,3)
    by (cases "k \<le> k'") auto
qed

section \<open>Finite maps as sorted association lists\<close>

text \<open>
  \<open>BTreeMap\<close> and \<open>HashMap\<close> of the standard library. A map is kept as the list of its
  entries in ascending key order, which is the iteration order of \<open>BTreeMap\<close>; the code
  sorts what it iterates from a \<open>HashMap\<close>, so the same canonical form serves for both.
\<close>

type_synonym ('k, 'v) smap = "('k \<times> 'v) list"

abbreviation sm_get :: "('k, 'v) smap \<Rightarrow> 'k \<Rightarrow> 'v option" where
  "sm_get m k \<equiv> map_of m k"

fun sm_insert :: "'k::linorder \<Rightarrow> 'v \<Rightarrow> ('k, 'v) smap \<Rightarrow> ('k, 'v) smap" where
  "sm_insert k v [] = [(k, v)]"
| "sm_insert k v ((k', v') # m) =
     (if k < k' then (k, v) # (k', v') # m
      else if k = k' then (k, v) # m
      else (k', v') # sm_insert k v m)"

definition sm_remove :: "'k \<Rightarrow> ('k, 'v) smap \<Rightarrow> ('k, 'v) smap" where
  "sm_remove k m = filter (\<lambda>e. fst e \<noteq> k) m"

abbreviation sm_keys :: "('k, 'v) smap \<Rightarrow> 'k list" where
  "sm_keys m \<equiv> map fst m"

definition sm_wf :: "('k::linorder, 'v) smap \<Rightarrow> bool" where
  "sm_wf m = sorted_wrt (<) (sm_keys m)"

lemma sm_get_insert [simp]: "sm_get (sm_insert k v m) = (sm_get m)(k \<mapsto> v)"
  by (induction m) (auto simp: fun_eq_iff)

lemma sm_get_remove [simp]: "sm_get (sm_remove k m) = (sm_get m)(k := None)"
  by (induction m) (auto simp: sm_remove_def fun_eq_iff)

lemma sm_keys_insert [simp]: "fst ` set (sm_insert k v m) = insert k (fst ` set m)"
proof (induction m)
  case (Cons e m)
  then show ?case by (cases e) (simp add: insert_commute)
qed simp

lemma sm_wf_Nil [simp]: "sm_wf []"
  by (simp add: sm_wf_def)

lemma sm_wf_Cons: "sm_wf ((k, v) # m) \<longleftrightarrow> (\<forall>k' \<in> set (sm_keys m). k < k') \<and> sm_wf m"
  by (simp add: sm_wf_def)

lemma sm_wf_insert [simp, intro]: "sm_wf m \<Longrightarrow> sm_wf (sm_insert k v m)"
proof (induction m)
  case (Cons e m)
  obtain k' v' where e: "e = (k', v')" by fastforce
  have tail: "set (sm_keys (sm_insert k v m)) = insert k (set (sm_keys m))" by simp
  show ?case
    using Cons unfolding e by (auto simp: sm_wf_Cons tail simp del: set_map)
qed (simp add: sm_wf_def)

lemma sm_wf_remove [simp, intro]: "sm_wf m \<Longrightarrow> sm_wf (sm_remove k m)"
  by (induction m) (auto simp: sm_wf_def sm_remove_def)

lemma sm_wf_distinct: "sm_wf m \<Longrightarrow> distinct (sm_keys m)"
  by (simp add: sm_wf_def strict_sorted_iff)

text \<open>Two well-formed maps with the same lookups are the same list.\<close>

lemma sm_rebuild:
  "sm_wf m \<Longrightarrow> map (\<lambda>k. (k, the (sm_get m k))) (sm_keys m) = m"
proof (induction m)
  case (Cons e m)
  obtain k v where e: "e = (k, v)" by fastforce
  with Cons.prems have fresh: "\<forall>k' \<in> set (sm_keys m). k' \<noteq> k" and "sm_wf m"
    by (auto simp: sm_wf_Cons)
  have "map (\<lambda>k'. (k', the (sm_get (e # m) k'))) (sm_keys m)
      = map (\<lambda>k'. (k', the (sm_get m k'))) (sm_keys m)"
    using fresh by (intro map_cong) (auto simp: e)
  with Cons.IH \<open>sm_wf m\<close> show ?case by (simp add: e)
qed simp

lemma sm_ext:
  assumes "sm_wf m" "sm_wf m'" "sm_get m = sm_get m'"
  shows "m = m'"
proof -
  have "set (sm_keys m) = set (sm_keys m')"
    using assms(3) by (metis dom_map_of_conv_image_fst list.set_map)
  then have "sm_keys m = sm_keys m'"
    using assms(1,2) by (auto simp: sm_wf_def intro: strict_sorted_equal)
  then show ?thesis
    using assms sm_rebuild by metis
qed

text \<open>Saving an entry, overwriting it and putting the saved state back changes nothing.\<close>

definition sm_restore :: "'k::linorder \<Rightarrow> 'v option \<Rightarrow> ('k, 'v) smap \<Rightarrow> ('k, 'v) smap" where
  "sm_restore k old m = (case old of Some v \<Rightarrow> sm_insert k v m | None \<Rightarrow> sm_remove k m)"

lemma sm_get_restore [simp]: "sm_get (sm_restore k old m) = (sm_get m)(k := old)"
  by (cases old) (auto simp: sm_restore_def fun_upd_def)

lemma sm_wf_restore [simp, intro]: "sm_wf m \<Longrightarrow> sm_wf (sm_restore k old m)"
  by (cases old) (auto simp: sm_restore_def)

end
