(* ===== verification/Utf8.thy ===== *)
theory Utf8
  imports RustStr
begin

text \<open>
  UTF-8 as the code meets it through the standard library: \<open>String::from_utf8_lossy\<close>,
  \<open>str::from_utf8\<close>, \<open>chars()\<close>, character boundaries, Unicode white space, \<open>lines()\<close>.
  The first lemmas show that decoding is total, gives valid UTF-8 and is the identity on it.
\<close>

section \<open>Decoding\<close>

definition is_cont :: "char \<Rightarrow> bool" where
  "is_cont c = (128 \<le> byte c \<and> byte c \<le> 191)"

definition is_char_boundary :: "string \<Rightarrow> nat \<Rightarrow> bool" where
  "is_char_boundary s i = (i = 0 \<or> i = length s \<or> (i < length s \<and> \<not> is_cont (s ! i)))"

definition in_range :: "nat \<Rightarrow> nat \<Rightarrow> string \<Rightarrow> bool" where
  "in_range lo hi s = (case s of [] \<Rightarrow> False | c # _ \<Rightarrow> lo \<le> byte c \<and> byte c \<le> hi)"

text \<open>
  One step of the decoder at the head of a non-empty list of bytes: whether a well-formed
  sequence starts there, and how many bytes it has or, if ill-formed, how many are replaced.
\<close>

definition utf8_step :: "string \<Rightarrow> bool \<times> nat" where
  "utf8_step s =
     (let b = byte (hd s); r1 = tl s; r2 = tl r1; r3 = tl r2;
          c1 = in_range 128 191; second = (\<lambda>lo hi. in_range lo hi r1) in
      if b < 128 then (True, 1)
      else if 194 \<le> b \<and> b \<le> 223 then (if second 128 191 then (True, 2) else (False, 1))
      else if 224 \<le> b \<and> b \<le> 239 then
        (if second (if b = 224 then 160 else 128) (if b = 237 then 159 else 191)
         then (if c1 r2 then (True, 3) else (False, 2)) else (False, 1))
      else if 240 \<le> b \<and> b \<le> 244 then
        (if second (if b = 240 then 144 else 128) (if b = 244 then 143 else 191)
         then (if c1 r2 then (if c1 r3 then (True, 4) else (False, 3)) else (False, 2))
         else (False, 1))
      else (False, 1))"

lemma utf8_step_pos: "utf8_step s = (ok, n) \<Longrightarrow> 0 < n"
  by (auto simp: utf8_step_def Let_def split: if_split_asm)

lemma utf8_step_shorter: "(ok, n) = utf8_step s \<Longrightarrow> s \<noteq> [] \<Longrightarrow> length s - n < length s"
  using utf8_step_pos [of s ok n] by simp

text \<open>The replacement character U+FFFD.\<close>

definition REPLACEMENT :: string where
  "REPLACEMENT = [CHR 0xEF, CHR 0xBF, CHR 0xBD]"

function utf8_chunks :: "string \<Rightarrow> (bool \<times> string) list" where
  "utf8_chunks s =
     (if s = [] then []
      else (let (ok, n) = utf8_step s in (ok, take n s) # utf8_chunks (drop n s)))"
  by pat_completeness auto
termination
  by (relation "measure length") (auto dest: utf8_step_shorter)

declare utf8_chunks.simps [simp del]

definition from_utf8_lossy :: "string \<Rightarrow> string" where
  "from_utf8_lossy s =
     concat (map (\<lambda>(ok, t). if ok then t else REPLACEMENT) (utf8_chunks s))"

definition valid_utf8 :: "string \<Rightarrow> bool" where
  "valid_utf8 s = list_all fst (utf8_chunks s)"

text \<open>\<open>chars()\<close>: the characters of a string, each as its bytes.\<close>

definition utf8_chars :: "string \<Rightarrow> string list" where
  "utf8_chars s = map snd (utf8_chunks s)"

lemma concat_chunks: "concat (map snd (utf8_chunks s)) = s"
proof (induction s rule: utf8_chunks.induct)
  case (1 s)
  show ?case
  proof (cases "s = []")
    case False
    obtain ok n where st: "utf8_step s = (ok, n)" by fastforce
    with 1 False have "concat (map snd (utf8_chunks (drop n s))) = drop n s" by simp
    with False st show ?thesis by (subst utf8_chunks.simps) simp
  qed (simp add: utf8_chunks.simps)
qed

lemma concat_chars [simp]: "concat (utf8_chars s) = s"
  by (simp add: utf8_chars_def concat_chunks)

lemma lossy_valid: "valid_utf8 s \<Longrightarrow> from_utf8_lossy s = s"
proof -
  assume "valid_utf8 s"
  then have eq: "map (\<lambda>(ok, t). if ok then t else REPLACEMENT) (utf8_chunks s)
      = map snd (utf8_chunks s)"
    by (intro map_cong refl) (auto simp: valid_utf8_def list_all_iff)
  show ?thesis unfolding from_utf8_lossy_def eq by (rule concat_chunks)
qed

lemma lossy_Nil [simp]: "from_utf8_lossy [] = []"
  by (simp add: from_utf8_lossy_def utf8_chunks.simps)

lemma utf8_chunks_ascii:
  "list_all (\<lambda>c. byte c < 128) s \<Longrightarrow> utf8_chunks s = map (\<lambda>c. (True, [c])) s"
  by (induction s) (subst utf8_chunks.simps, simp add: utf8_step_def)+

lemma valid_utf8_ascii: "list_all (\<lambda>c. byte c < 128) s \<Longrightarrow> valid_utf8 s"
  by (simp add: valid_utf8_def utf8_chunks_ascii list_all_iff)

lemma utf8_chars_ascii:
  "list_all (\<lambda>c. byte c < 128) s \<Longrightarrow> utf8_chars s = map (\<lambda>c. [c]) s"
  by (simp add: utf8_chars_def utf8_chunks_ascii)

text \<open>
  Appending bytes after a complete well-formed sequence does not change how it is decoded, so
  well-formed strings are closed under concatenation.
\<close>

lemma in_range_append: "s \<noteq> [] \<Longrightarrow> in_range lo hi (s @ t) = in_range lo hi s"
  by (cases s) (auto simp: in_range_def)

lemma in_range_nonempty: "in_range lo hi s \<Longrightarrow> s \<noteq> []"
  by (auto simp: in_range_def)

text \<open>When the step succeeds, said without nesting: the four lengths of a well-formed sequence.\<close>

definition wf_seq :: "string \<Rightarrow> nat \<Rightarrow> bool" where
  "wf_seq s n =
     (let b = byte (hd s); r = tl s in
      n = 1 \<and> b < 128
      \<or> n = 2 \<and> 194 \<le> b \<and> b \<le> 223 \<and> in_range 128 191 r
      \<or> n = 3 \<and> 224 \<le> b \<and> b \<le> 239
          \<and> in_range (if b = 224 then 160 else 128) (if b = 237 then 159 else 191) r
          \<and> in_range 128 191 (tl r)
      \<or> n = 4 \<and> 240 \<le> b \<and> b \<le> 244
          \<and> in_range (if b = 240 then 144 else 128) (if b = 244 then 143 else 191) r
          \<and> in_range 128 191 (tl r) \<and> in_range 128 191 (tl (tl r)))"

lemma utf8_step_True: "utf8_step s = (True, n) \<longleftrightarrow> wf_seq s n"
proof -
  define b where "b = byte (hd s)"
  consider "b < 128" | "128 \<le> b" "b < 194" | "194 \<le> b" "b \<le> 223" | "224 \<le> b" "b \<le> 239"
    | "240 \<le> b" "b \<le> 244" | "245 \<le> b"
    by linarith
  then show ?thesis
    by cases (auto simp: utf8_step_def wf_seq_def Let_def b_def [symmetric])
qed

lemma in_range_prefix:
  "in_range lo hi r \<Longrightarrow> in_range lo hi (r @ t)"
  "in_range lo hi (tl r) \<Longrightarrow> in_range lo hi (tl (r @ t))"
  "in_range lo hi (tl (tl r)) \<Longrightarrow> in_range lo hi (tl (tl (r @ t)))"
  by (cases r; cases "tl r"; cases "tl (tl r)"; auto simp: in_range_def)+

lemma in_range_take:
  "in_range lo hi (take (Suc 0) r) = in_range lo hi r"
  "in_range lo hi (take 2 r) = in_range lo hi r"
  "in_range lo hi (take 3 r) = in_range lo hi r"
  "in_range lo hi (tl (take 2 r)) = in_range lo hi (tl r)"
  "in_range lo hi (tl (take 3 r)) = in_range lo hi (tl r)"
  "in_range lo hi (tl (tl (take 3 r))) = in_range lo hi (tl (tl r))"
  by (cases r; cases "tl r"; cases "tl (tl r)"; auto simp: in_range_def)+

lemma in_range_length:
  "in_range lo hi r \<Longrightarrow> 1 \<le> length r"
  "in_range lo hi (tl r) \<Longrightarrow> 2 \<le> length r"
  "in_range lo hi (tl (tl r)) \<Longrightarrow> 3 \<le> length r"
  by (cases r; cases "tl r"; cases "tl (tl r)"; auto simp: in_range_def)+

lemma utf8_step_append:
  assumes "utf8_step s = (True, n)" "s \<noteq> []"
  shows "utf8_step (s @ t) = (True, n)"
proof -
  obtain c r where s: "s = c # r" using assms(2) by (cases s) auto
  from assms(1) show ?thesis
    by (simp add: s utf8_step_True wf_seq_def Let_def split del: if_split)
       (elim disjE conjE; simp add: in_range_prefix split del: if_split)
qed

lemma utf8_step_length: "utf8_step s = (True, n) \<Longrightarrow> s \<noteq> [] \<Longrightarrow> n \<le> length s"
proof -
  assume st: "utf8_step s = (True, n)" and ne: "s \<noteq> []"
  obtain c r where s: "s = c # r" using ne by (cases s) auto
  from st show ?thesis
    by (simp add: s utf8_step_True wf_seq_def Let_def) (elim disjE conjE; auto dest: in_range_length)
qed

lemma utf8_step_take:
  assumes "utf8_step s = (True, n)" "s \<noteq> []"
  shows "utf8_step (take n s) = (True, n)"
proof -
  obtain c r where s: "s = c # r" using assms(2) by (cases s) auto
  from assms(1) show ?thesis
    by (simp add: s utf8_step_True wf_seq_def Let_def split del: if_split)
       (elim disjE conjE; simp add: in_range_take split del: if_split)
qed

lemma utf8_chunks_append:
  "valid_utf8 s \<Longrightarrow> utf8_chunks (s @ t) = utf8_chunks s @ utf8_chunks t"
proof (induction s rule: utf8_chunks.induct)
  case (1 s)
  show ?case
  proof (cases "s = []")
    case False
    obtain ok n where st: "utf8_step s = (ok, n)" by fastforce
    have unf: "utf8_chunks s = (ok, take n s) # utf8_chunks (drop n s)"
      using False st by (subst utf8_chunks.simps) simp
    with 1(2) have ok: ok and v: "valid_utf8 (drop n s)"
      by (simp_all add: valid_utf8_def)
    have n: "n \<le> length s" using utf8_step_length st ok False by simp
    have "utf8_chunks (s @ t) = (ok, take n (s @ t)) # utf8_chunks (drop n (s @ t))"
      using False st ok utf8_step_append [of s n t] by (subst utf8_chunks.simps) simp
    also have "\<dots> = (ok, take n s) # utf8_chunks (drop n s @ t)"
      using n by simp
    finally show ?thesis
      using 1(1) [OF False st [symmetric] refl v] unf by simp
  qed (simp add: utf8_chunks.simps)
qed

lemma valid_utf8_append: "valid_utf8 s \<Longrightarrow> valid_utf8 t \<Longrightarrow> valid_utf8 (s @ t)"
  using utf8_chunks_append [of s t] by (simp add: valid_utf8_def)

lemma valid_utf8_Nil [simp]: "valid_utf8 []"
  by (simp add: valid_utf8_def utf8_chunks.simps)

lemma valid_utf8_concat: "list_all valid_utf8 ss \<Longrightarrow> valid_utf8 (concat ss)"
  by (induction ss) (auto simp: valid_utf8_append)

lemma valid_utf8_chunk:
  assumes "(True, t) \<in> set (utf8_chunks s)"
  shows "valid_utf8 t"
  using assms
proof (induction s rule: utf8_chunks.induct)
  case (1 s)
  have ne: "s \<noteq> []" using 1(2) by (auto simp: utf8_chunks.simps)
  obtain ok n where st: "utf8_step s = (ok, n)" by fastforce
  have unf: "utf8_chunks s = (ok, take n s) # utf8_chunks (drop n s)"
    using ne st by (subst utf8_chunks.simps) simp
  show ?case
  proof (cases "(True, t) \<in> set (utf8_chunks (drop n s))")
    case True
    with 1(1) [OF ne st [symmetric] refl] show ?thesis by simp
  next
    case False
    with 1(2) unf have ok and t: "t = take n s" by auto
    then have "utf8_step t = (True, n)" using utf8_step_take st ne by simp
    moreover have "t \<noteq> []" "length t = n"
      using t st ne \<open>ok\<close> utf8_step_pos [of s] utf8_step_length [of s n] by fastforce+
    ultimately have "utf8_chunks t = [(True, t)]"
      by (subst utf8_chunks.simps) (simp add: utf8_chunks.simps)
    then show ?thesis by (simp add: valid_utf8_def)
  qed
qed

lemma valid_REPLACEMENT: "valid_utf8 REPLACEMENT"
  by code_simp

lemma valid_lossy: "valid_utf8 (from_utf8_lossy s)"
  unfolding from_utf8_lossy_def
  by (rule valid_utf8_concat)
     (auto simp: list_all_iff valid_REPLACEMENT intro: valid_utf8_chunk split: prod.splits)

section \<open>White space and lines\<close>

definition is_ascii_whitespace :: "char \<Rightarrow> bool" where
  "is_ascii_whitespace c = (byte c \<in> {9, 10, 12, 13, 32})"

text \<open>\<open>char::is_whitespace\<close> on a character given as its bytes: the Unicode White-Space class.\<close>

definition is_whitespace :: "string \<Rightarrow> bool" where
  "is_whitespace ch =
     (case map byte ch of
        [a] \<Rightarrow> 9 \<le> a \<and> a \<le> 13 \<or> a = 32
      | [a, b] \<Rightarrow> a = 194 \<and> (b = 133 \<or> b = 160)
      | [a, b, c] \<Rightarrow> a = 225 \<and> b = 154 \<and> c = 128
                  \<or> a = 226 \<and> b = 128 \<and> (128 \<le> c \<and> c \<le> 138 \<or> c \<in> {168, 169, 175})
                  \<or> a = 226 \<and> b = 129 \<and> c = 159
                  \<or> a = 227 \<and> b = 128 \<and> c = 128
      | _ \<Rightarrow> False)"

definition trim :: "string \<Rightarrow> string" where
  "trim s = concat (rev (dropWhile is_whitespace (rev (dropWhile is_whitespace (utf8_chars s)))))"

text \<open>The maximal runs of elements that do not satisfy the separator predicate.\<close>

fun runs :: "('a \<Rightarrow> bool) \<Rightarrow> 'a list \<Rightarrow> 'a list \<Rightarrow> 'a list list" where
  "runs P acc [] = (if acc = [] then [] else [rev acc])"
| "runs P acc (x # xs) =
     (if P x then (if acc = [] then runs P [] xs else rev acc # runs P [] xs)
      else runs P (x # acc) xs)"

definition split_whitespace :: "string \<Rightarrow> string list" where
  "split_whitespace s = map concat (runs is_whitespace [] (utf8_chars s))"

definition split_ascii_whitespace :: "string \<Rightarrow> string list" where
  "split_ascii_whitespace s = runs is_ascii_whitespace [] s"

lemma runs_nonempty: "x \<in> set (runs P acc xs) \<Longrightarrow> x \<noteq> []"
  by (induction P acc xs rule: runs.induct) (auto split: if_splits)

lemma runs_no_sep:
  "\<forall>y \<in> set acc. \<not> P y \<Longrightarrow> x \<in> set (runs P acc xs) \<Longrightarrow> y \<in> set x \<Longrightarrow> \<not> P y"
proof (induction xs arbitrary: acc)
  case Nil
  then show ?case by (simp split: if_split_asm)
next
  case (Cons z zs)
  show ?case
  proof (cases "P z")
    case True
    then have "x = rev acc \<or> x \<in> set (runs P [] zs)" using Cons.prems(2) by (simp split: if_split_asm)
    then show ?thesis using Cons.IH [of "[]"] Cons.prems(1,3) by auto
  next
    case False
    then have "x \<in> set (runs P (z # acc) zs)" using Cons.prems(2) by simp
    then show ?thesis using Cons.IH [of "z # acc"] Cons.prems(1,3) False by auto
  qed
qed

lemma split_whitespace_Nil [simp]: "split_whitespace [] = []"
  by (simp add: split_whitespace_def utf8_chars_def utf8_chunks.simps)

text \<open>
  \<open>lines()\<close>: the pieces ended by a newline, without it and without a carriage return
  before it, and a last piece that has no newline if it is not empty (kept whole).
\<close>

definition strip_cr :: "string \<Rightarrow> string" where
  "strip_cr s = (if s \<noteq> [] \<and> last s = CR then butlast s else s)"

fun lines :: "string \<Rightarrow> string list" where
  "lines s =
     (case split_once NL s of
        Some (l, rest) \<Rightarrow> strip_cr l # (if length rest < length s then lines rest else [])
      | None \<Rightarrow> (if s = [] then [] else [s]))"

declare lines.simps [simp del]

lemma lines_Nil [simp]: "lines [] = []"
  by (simp add: lines.simps)

lemma lines_newline: "NL \<notin> set l \<Longrightarrow> lines (l @ NL # rest) = strip_cr l # lines rest"
proof -
  assume "NL \<notin> set l"
  then have "split_once NL (l @ NL # rest) = Some (l, rest)" by (simp add: split_once_iff)
  then show ?thesis by (subst lines.simps) simp
qed

lemma lines_last: "NL \<notin> set l \<Longrightarrow> l \<noteq> [] \<Longrightarrow> lines l = [l]"
proof -
  assume a: "NL \<notin> set l" "l \<noteq> []"
  then have "split_once NL l = None"
    using split_once_iff [of NL l] by (metis in_set_conv_decomp not_None_eq prod.collapse)
  with a show ?thesis by (subst lines.simps) simp
qed

text \<open>Lines written one per line read back, unless one holds a newline or ends with a return.\<close>

definition unlines :: "string list \<Rightarrow> string" where
  "unlines ls = concat (map (\<lambda>l. l @ [NL]) ls)"

lemma lines_unlines:
  "\<forall>l \<in> set ls. NL \<notin> set l \<and> strip_cr l = l \<Longrightarrow> lines (unlines ls) = ls"
  by (induction ls) (auto simp: unlines_def lines_newline)

end
