(* ===== verification/Paths.thy ===== *)
theory Paths
  imports Utf8
begin

text \<open>
  The path utilities of \<open>vfs.rs\<close>: normalisation, resolution against a working directory,
  components and parent. A canonical path is \<open>path_of\<close> of a list of proper segments; the
  lemmas show that normalisation yields canonical paths only, that it computes the walk of the
  segments (\<open>..\<close> pops, and stops at the root), and that the other helpers are its inverses.
\<close>

abbreviation SLASH :: char where "SLASH \<equiv> CHR ''/''"

datatype VfsError =
    NotFound string | NotADir string | NotAFile string | AlreadyExists string
  | PermissionDenied string | IsADir string | NotEmpty string | InvalidPath string
  | MountErr string

text \<open>The \<open>Display\<close> text of an error, as the commands print it.\<close>

fun show_vfs_error :: "VfsError \<Rightarrow> string" where
  "show_vfs_error (NotFound p) = ''not found: '' @ p"
| "show_vfs_error (NotADir p) = ''not a directory: '' @ p"
| "show_vfs_error (NotAFile p) = ''not a file: '' @ p"
| "show_vfs_error (AlreadyExists p) = ''already exists: '' @ p"
| "show_vfs_error (PermissionDenied p) = ''permission denied: '' @ p"
| "show_vfs_error (IsADir p) = ''is a directory: '' @ p"
| "show_vfs_error (NotEmpty p) = ''directory not empty: '' @ p"
| "show_vfs_error (InvalidPath p) = ''invalid path: '' @ p"
| "show_vfs_error (MountErr p) = ''mount error: '' @ p"

section \<open>The operations\<close>

definition norm_step :: "string list \<Rightarrow> string \<Rightarrow> string list" where
  "norm_step parts seg =
     (if seg = '''' \<or> seg = ''.'' then parts
      else if seg = ''..'' then butlast parts
      else parts @ [seg])"

definition normalize_path :: "string \<Rightarrow> string" where
  "normalize_path path =
     (let parts = foldl norm_step [] (split_on SLASH path) in
      if parts = [] then ''/'' else SLASH # join ''/'' parts)"

definition resolve_path :: "string \<Rightarrow> string \<Rightarrow> string" where
  "resolve_path cwd path =
     (if starts_with path ''/'' then normalize_path path
      else normalize_path (cwd @ ''/'' @ path))"

definition path_components :: "string \<Rightarrow> string list" where
  "path_components path =
     filter (\<lambda>s. s \<noteq> '''') (split_on SLASH (trim_start_matches SLASH path))"

text \<open>The \<open>unwrap\<close> of \<open>rsplit_once\<close> panics on a path without a slash.\<close>

definition split_parent :: "string \<Rightarrow> (string \<times> string, VfsError) outcome" where
  "split_parent path =
     (if path = ''/'' then Err (InvalidPath ''no parent of root'')
      else (case rsplit_once SLASH path of
              None \<Rightarrow> Panic
            | Some (parent, name) \<Rightarrow> Ok (if parent = '''' then ''/'' else parent, name)))"

section \<open>Canonical paths\<close>

definition good_seg :: "string \<Rightarrow> bool" where
  "good_seg s = (s \<noteq> '''' \<and> s \<noteq> ''.'' \<and> s \<noteq> ''..'' \<and> SLASH \<notin> set s)"

definition path_of :: "string list \<Rightarrow> string" where
  "path_of parts = (if parts = [] then ''/'' else SLASH # join ''/'' parts)"

definition canonical :: "string \<Rightarrow> bool" where
  "canonical p = (\<exists>parts. list_all good_seg parts \<and> p = path_of parts)"

text \<open>The parts a path denotes: the walk of its segments from the root.\<close>

definition parts_of :: "string \<Rightarrow> string list" where
  "parts_of path = foldl norm_step [] (split_on SLASH path)"

lemma normalize_path_parts: "normalize_path p = path_of (parts_of p)"
  by (simp add: normalize_path_def path_of_def parts_of_def Let_def)

lemma norm_step_good:
  "list_all good_seg parts \<Longrightarrow> SLASH \<notin> set seg \<Longrightarrow> list_all good_seg (norm_step parts seg)"
  by (auto simp: norm_step_def good_seg_def list_all_iff dest: in_set_butlastD)

lemma foldl_norm_good:
  "list_all good_seg parts \<Longrightarrow> \<forall>s \<in> set segs. SLASH \<notin> set s
   \<Longrightarrow> list_all good_seg (foldl norm_step parts segs)"
  by (induction segs arbitrary: parts) (auto intro!: norm_step_good)

lemma parts_of_good [simp, intro]: "list_all good_seg (parts_of p)"
  unfolding parts_of_def by (rule foldl_norm_good) (auto dest: split_on_pieces)

lemma norm_step_snoc: "good_seg s \<Longrightarrow> norm_step parts s = parts @ [s]"
  by (simp add: norm_step_def good_seg_def)

lemma foldl_norm_id:
  "list_all good_seg segs \<Longrightarrow> foldl norm_step parts segs = parts @ segs"
  by (induction segs arbitrary: parts) (auto simp: norm_step_snoc)

lemma norm_step_empty [simp]: "norm_step parts [] = parts"
  by (simp add: norm_step_def)

lemma split_path_of:
  "list_all good_seg parts \<Longrightarrow> parts \<noteq> [] \<Longrightarrow> split_on SLASH (path_of parts) = [] # parts"
  by (simp add: path_of_def split_join good_seg_def list_all_iff)

lemma parts_of_path_of [simp]: "list_all good_seg parts \<Longrightarrow> parts_of (path_of parts) = parts"
proof (cases "parts = []")
  case True
  then show ?thesis by (simp add: path_of_def parts_of_def)
next
  case False
  assume "list_all good_seg parts"
  with False show ?thesis
    by (simp add: parts_of_def split_path_of foldl_norm_id)
qed

lemma path_of_inj:
  "list_all good_seg p \<Longrightarrow> list_all good_seg q \<Longrightarrow> path_of p = path_of q \<longleftrightarrow> p = q"
  by (metis parts_of_path_of)

lemma normalize_path_of [simp]:
  "list_all good_seg parts \<Longrightarrow> normalize_path (path_of parts) = path_of parts"
  by (simp add: normalize_path_parts)

lemma canonical_normalize [simp, intro]: "canonical (normalize_path p)"
  unfolding canonical_def normalize_path_parts by (intro exI [of _ "parts_of p"]) simp

lemma normalize_canonical: "canonical p \<Longrightarrow> normalize_path p = p"
  by (auto simp: canonical_def)

lemma normalize_idem [simp]: "normalize_path (normalize_path p) = normalize_path p"
  by (simp add: normalize_canonical)

lemma canonical_resolve [simp, intro]: "canonical (resolve_path cwd p)"
  by (simp add: resolve_path_def)

lemma split_on_join_slash: "split_on d (s @ d # t) = split_on d s @ split_on d t"
proof (induction s)
  case (Cons c s)
  then show ?case by (cases "split_on d s") auto
qed simp

lemma foldl_norm_append:
  "foldl norm_step [] (split_on SLASH (p @ ''/'' @ q))
   = foldl norm_step (parts_of p) (split_on SLASH q)"
  by (simp add: split_on_join_slash parts_of_def)

lemma resolve_relative:
  "\<not> starts_with p ''/'' \<Longrightarrow>
   resolve_path cwd p = path_of (foldl norm_step (parts_of cwd) (split_on SLASH p))"
  by (simp add: resolve_path_def normalize_path_parts parts_of_def split_on_join_slash)

lemma trim_path_of:
  "list_all good_seg parts \<Longrightarrow> parts \<noteq> [] \<Longrightarrow>
   trim_start_matches SLASH (path_of parts) = join ''/'' parts"
proof -
  assume g: "list_all good_seg parts" "parts \<noteq> []"
  then obtain c s ps where "parts = (c # s) # ps" "c \<noteq> SLASH"
    by (cases parts; cases "hd parts") (auto simp: good_seg_def)
  then show ?thesis
    by (simp add: trim_start_matches_def path_of_def join_Cons_cons)
qed

lemma path_components_path_of [simp]:
  "list_all good_seg parts \<Longrightarrow> path_components (path_of parts) = parts"
proof (cases "parts = []")
  case True
  then show ?thesis by (simp add: path_of_def path_components_def trim_start_matches_def)
next
  case False
  assume g: "list_all good_seg parts"
  then have "split_on SLASH (join ''/'' parts) = parts"
    using False by (simp add: split_join good_seg_def list_all_iff)
  moreover have "filter (\<lambda>s. s \<noteq> '''') parts = parts"
    using g by (simp add: good_seg_def list_all_iff filter_id_conv)
  ultimately show ?thesis
    using g False by (simp add: path_components_def trim_path_of)
qed

lemma path_components_normalize [simp]: "path_components (normalize_path p) = parts_of p"
  by (simp add: normalize_path_parts)

lemma join_snoc: "ps \<noteq> [] \<Longrightarrow> join sep (ps @ [p]) = join sep ps @ sep @ p"
proof (induction ps rule: induct_list012)
  case (3 q r ps)
  then show ?case by (cases ps) auto
qed auto

lemma split_parent_path_of [simp]:
  assumes "list_all good_seg (parts @ [name])"
  shows "split_parent (path_of (parts @ [name])) = Ok (path_of parts, name)"
proof -
  have n: "SLASH \<notin> set name" "name \<noteq> ''''" using assms by (auto simp: good_seg_def)
  have nr: "path_of (parts @ [name]) \<noteq> ''/''"
    using n by (cases "parts = []") (auto simp: path_of_def join_snoc)
  show ?thesis
  proof (cases "parts = []")
    case True
    then show ?thesis
      using n nr rsplit_once_append [of SLASH name "[]"]
      by (simp add: split_parent_def path_of_def)
  next
    case False
    have "path_of (parts @ [name]) = path_of parts @ SLASH # name"
      using False by (simp add: path_of_def join_snoc)
    moreover have "path_of parts \<noteq> ''''" by (simp add: path_of_def)
    ultimately show ?thesis
      using n nr rsplit_once_append [of SLASH name "path_of parts"]
      by (simp add: split_parent_def)
  qed
qed

lemma split_parent_root [simp]: "split_parent (path_of []) = Err (InvalidPath ''no parent of root'')"
  by (simp add: split_parent_def path_of_def)

lemma path_of_eq_root [simp]: "list_all good_seg parts \<Longrightarrow> path_of parts = ''/'' \<longleftrightarrow> parts = []"
  using path_of_inj [of parts "[]"] by (simp add: path_of_def)

text \<open>No canonical path makes \<open>split_parent\<close> panic.\<close>

lemma split_parent_no_panic: "canonical p \<Longrightarrow> split_parent p \<noteq> Panic"
proof -
  assume "canonical p"
  then obtain parts where g: "list_all good_seg parts" and p: "p = path_of parts"
    by (auto simp: canonical_def)
  show ?thesis
  proof (cases parts rule: rev_cases)
    case Nil
    then show ?thesis by (simp only: p split_parent_root) simp
  next
    case (snoc ps n)
    then show ?thesis using split_parent_path_of [of ps n] g by (simp add: p)
  qed
qed

section \<open>Properties\<close>

text \<open>
  C36: normalisation returns a canonical absolute path for every input: a leading slash, no
  empty, \<open>.\<close> or \<open>..\<close> segment, no trailing slash but for the root; and a second normalisation
  changes nothing.
\<close>

theorem normalize_path_canonical:
  "(\<exists>parts. list_all good_seg parts \<and> normalize_path p = path_of parts)
   \<and> normalize_path (normalize_path p) = normalize_path p"
  using canonical_normalize [of p] by (simp add: canonical_def)

text \<open>
  A walk through a tree of directories: from a directory, given by the names on the way to it from
  the root, along the segments of a path, to the place it ends at.
\<close>

inductive walks :: "string list \<Rightarrow> string list \<Rightarrow> string list \<Rightarrow> bool" where
  arrive: "walks dir [] dir"
| stay: "seg = '''' \<or> seg = ''.'' \<Longrightarrow> walks dir segs place \<Longrightarrow> walks dir (seg # segs) place"
| at_root: "walks [] segs place \<Longrightarrow> walks [] (''..'' # segs) place"
| up: "walks dir segs place \<Longrightarrow> walks (dir @ [name]) (''..'' # segs) place"
| down: "seg \<notin> {'''', ''.'', ''..''} \<Longrightarrow> walks (dir @ [seg]) segs place \<Longrightarrow> walks dir (seg # segs) place"

inductive_simps walks_nil: "walks dir [] place"
inductive_simps walks_cons: "walks dir (seg # segs) place"

lemma walks_norm: "walks dir segs place \<longleftrightarrow> place = foldl norm_step dir segs"
proof (induction segs arbitrary: dir)
  case (Cons seg segs)
  then show ?case by (cases dir rule: rev_cases) (auto simp: walks_cons norm_step_def)
qed (auto simp: walks_nil)

text \<open>
  C37: a path is resolved by walking it. Take any working directory, and any segments without a
  slash. Their walk from the directory, or from the root when the path starts with a slash, ends at
  exactly one place, and the resolved path is the canonical path of this place: an empty segment and
  \<open>.\<close> stay, \<open>..\<close> leaves the last directory and at the root stays at the root, any other name goes
  down. A relative path is one whose first segment is not empty.
\<close>

theorem resolve_path_walks:
  assumes "list_all good_seg dir" "segs \<noteq> []" "\<forall>s \<in> set segs. SLASH \<notin> set s"
    and "absolute \<or> hd segs \<noteq> ''''"
  shows "(\<exists>!place. walks (if absolute then [] else dir) segs place)
    \<and> (\<forall>place. walks (if absolute then [] else dir) segs place \<longrightarrow>
         list_all good_seg place
         \<and> resolve_path (path_of dir) ((if absolute then ''/'' else '''') @ join ''/'' segs) = path_of place)"
proof -
  have sp: "split_on SLASH (join ''/'' segs) = segs" using assms(2,3) by (simp add: split_join)
  have abs: "split_on SLASH (SLASH # join ''/'' segs) = [] # segs" using sp by simp
  have rel: "\<not> starts_with (join ''/'' segs) ''/''" if "hd segs \<noteq> ''''"
    using that assms(2,3) by (cases segs; cases "hd segs") (auto simp: join_Cons_cons)
  have "list_all good_seg (foldl norm_step (if absolute then [] else dir) segs)"
    using assms(1,3) by (intro foldl_norm_good) auto
  moreover have "resolve_path (path_of dir) ((if absolute then ''/'' else '''') @ join ''/'' segs)
      = path_of (foldl norm_step (if absolute then [] else dir) segs)"
    using assms(1,4) sp abs rel
    by (auto simp: resolve_relative resolve_path_def [of _ "SLASH # _"] normalize_path_parts parts_of_def [of "SLASH # _"])
  ultimately show ?thesis by (simp add: walks_norm)
qed

theorem resolve_path_walks_witness:
  "resolve_path ''/home/agent'' ''../../../etc/./motd'' = ''/etc/motd''"
proof -
  have w: "walks [''home'', ''agent''] [''..'', ''..'', ''..'', ''etc'', ''.'', ''motd''] [''etc'', ''motd'']"
    by (simp add: walks_norm norm_step_def)
  have "list_all good_seg [''home'', ''agent'']" by (simp add: good_seg_def)
  then have "resolve_path (path_of [''home'', ''agent'']) (join ''/'' [''..'', ''..'', ''..'', ''etc'', ''.'', ''motd''])
      = path_of [''etc'', ''motd'']"
    using resolve_path_walks [of "[''home'', ''agent'']" "[''..'', ''..'', ''..'', ''etc'', ''.'', ''motd'']" False] w
    by simp
  then show ?thesis by (simp add: path_of_def)
qed

end
