(* ===== verification/Vfs.thy ===== *)
theory Vfs
  imports Paths "HOL-Library.Sublist"
begin

text \<open>
  The virtual filesystem of \<open>vfs.rs\<close>: the in-memory tree with its lookup and update, the mount
  table, and the public operations. A mount point is code of the host: its callbacks are the
  fields of a record, acting on a host state of any type that the model threads along. The
  laws of the tree are in \<open>VfsTree\<close>, and the contract of the operations in \<open>VfsSpec\<close>.
\<close>

section \<open>Data\<close>

record Stat =
  is_file :: bool
  is_dir :: bool
  is_device :: bool
  st_size :: nat

datatype DeviceKind = DevNull | DevStdin | DevStdout | DevStderr

datatype VfsNode =
    File string
  | Dir "(string, VfsNode) smap"
  | Device DeviceKind

type_synonym 'a vres = "('a, VfsError) outcome"

record 'h MountPoint =
  mp_read :: "string \<Rightarrow> ('h, string, VfsError) act"
  mp_write :: "string \<Rightarrow> string \<Rightarrow> ('h, unit, VfsError) act"
  mp_list :: "string \<Rightarrow> ('h, string list, VfsError) act"
  mp_stat :: "string \<Rightarrow> ('h, Stat, VfsError) act"
  mp_remove :: "string \<Rightarrow> ('h, unit, VfsError) act"

record 'h MountEntry =
  me_vpath :: string
  me_point :: "'h MountPoint"

record 'h Vfs =
  vfs_root :: VfsNode
  vfs_mounts :: "'h MountEntry list"
  vfs_host :: 'h

type_synonym ('h, 'a) vact = "('h Vfs, 'a, VfsError) act"

section \<open>Tree traversal\<close>

fun node_at :: "VfsNode \<Rightarrow> string list \<Rightarrow> string \<Rightarrow> VfsNode vres" where
  "node_at root [] orig = Ok root"
| "node_at (Dir m) (c # cs) orig =
     (case sm_get m c of None \<Rightarrow> Err (NotFound orig) | Some child \<Rightarrow> node_at child cs orig)"
| "node_at _ (c # cs) orig = Err (NotADir orig)"

text \<open>
  \<open>node_at_mut\<close> hands out a mutable reference; the model passes what the caller does with it
  and puts the changed node back where it was found.
\<close>

fun node_at_mut :: "VfsNode \<Rightarrow> string list \<Rightarrow> string \<Rightarrow> (VfsNode, 'a, VfsError) act
    \<Rightarrow> 'a vres \<times> VfsNode" where
  "node_at_mut root [] orig f = f root"
| "node_at_mut (Dir m) (c # cs) orig f =
     (case sm_get m c of
        None \<Rightarrow> (Err (NotFound orig), Dir m)
      | Some child \<Rightarrow> (case node_at_mut child cs orig f of
                        (r, child') \<Rightarrow> (r, Dir (sm_insert c child' m))))"
| "node_at_mut n (c # cs) orig f = (Err (NotADir orig), n)"

section \<open>The in-memory operations\<close>

definition mem_set_node :: "string \<Rightarrow> VfsNode \<Rightarrow> (VfsNode, unit, VfsError) act" where
  "mem_set_node path0 node =
     (let path = normalize_path path0 in
      if path = ''/'' then fail (InvalidPath ''cannot overwrite root'')
      else andThen (lift_outcome (split_parent path)) (\<lambda>(parent_str, name).
        (\<lambda>root. node_at_mut root (path_components parent_str) parent_str
          (\<lambda>parent. case parent of
              Dir m \<Rightarrow> (Ok (), Dir (sm_insert name node m))
            | _ \<Rightarrow> (Err (NotADir parent_str), parent)))))"

definition mem_mkdir :: "string \<Rightarrow> (VfsNode, unit, VfsError) act" where
  "mem_mkdir path0 =
     (let path = normalize_path path0 in
      if path = ''/'' then ret ()
      else andThen (lift_outcome (split_parent path)) (\<lambda>(parent_str, name).
        (\<lambda>root. node_at_mut root (path_components parent_str) parent_str
          (\<lambda>parent. case parent of
              Dir m \<Rightarrow> (case sm_get m name of
                  Some _ \<Rightarrow> (Err (AlreadyExists path), parent)
                | None \<Rightarrow> (Ok (), Dir (sm_insert name (Dir []) m)))
            | _ \<Rightarrow> (Err (NotADir parent_str), parent)))))"

definition mem_read :: "string \<Rightarrow> VfsNode \<Rightarrow> string vres" where
  "mem_read path root =
     (case node_at root (path_components path) path of
        Ok (File data) \<Rightarrow> Ok data
      | Ok (Device DevNull) \<Rightarrow> Ok []
      | Ok (Dir _) \<Rightarrow> Err (IsADir path)
      | Ok (Device _) \<Rightarrow> Err (PermissionDenied path)
      | Err e \<Rightarrow> Err e | Panic \<Rightarrow> Panic | OutOfFuel \<Rightarrow> OutOfFuel | SourceLimit \<Rightarrow> SourceLimit)"

definition mem_list :: "string \<Rightarrow> VfsNode \<Rightarrow> string list vres" where
  "mem_list path root =
     (case node_at root (path_components path) path of
        Ok (Dir m) \<Rightarrow> Ok (sm_keys m)
      | Ok _ \<Rightarrow> Err (NotADir path)
      | Err e \<Rightarrow> Err e | Panic \<Rightarrow> Panic | OutOfFuel \<Rightarrow> OutOfFuel | SourceLimit \<Rightarrow> SourceLimit)"

definition node_stat :: "VfsNode \<Rightarrow> Stat" where
  "node_stat n =
     (case n of
        File data \<Rightarrow> \<lparr>is_file = True, is_dir = False, is_device = False, st_size = length data\<rparr>
      | Dir _ \<Rightarrow> \<lparr>is_file = False, is_dir = True, is_device = False, st_size = 0\<rparr>
      | Device _ \<Rightarrow> \<lparr>is_file = False, is_dir = False, is_device = True, st_size = 0\<rparr>)"

definition mem_stat :: "string \<Rightarrow> VfsNode \<Rightarrow> Stat vres" where
  "mem_stat path root =
     (case node_at root (path_components path) path of
        Ok n \<Rightarrow> Ok (node_stat n)
      | Err e \<Rightarrow> Err e | Panic \<Rightarrow> Panic | OutOfFuel \<Rightarrow> OutOfFuel | SourceLimit \<Rightarrow> SourceLimit)"

text \<open>The loop of \<open>mem_mkdir_parents\<close> over the components, with the path built so far.\<close>

fun mkdir_parents_loop :: "string list \<Rightarrow> string \<Rightarrow> (VfsNode, unit, VfsError) act" where
  "mkdir_parents_loop [] cur = ret ()"
| "mkdir_parents_loop (seg # segs) cur =
     (let next = (if cur = ''/'' then ''/'' @ seg else cur @ ''/'' @ seg) in
      (\<lambda>root. case mem_stat next root of
          Ok s \<Rightarrow> if is_dir s then mkdir_parents_loop segs next root
                  else (Err (NotADir next), root)
        | Err (NotFound _) \<Rightarrow> andThen (mem_mkdir next) (\<lambda>_. mkdir_parents_loop segs next) root
        | Err e \<Rightarrow> (Err e, root)
        | Panic \<Rightarrow> (Panic, root) | OutOfFuel \<Rightarrow> (OutOfFuel, root)
        | SourceLimit \<Rightarrow> (SourceLimit, root)))"

definition mem_mkdir_parents :: "string \<Rightarrow> (VfsNode, unit, VfsError) act" where
  "mem_mkdir_parents path = mkdir_parents_loop (path_components path) ''/''"

definition mem_remove_node :: "string \<Rightarrow> (VfsNode, VfsNode, VfsError) act" where
  "mem_remove_node path =
     andThen (lift_outcome (split_parent path)) (\<lambda>(parent_str, name).
       (\<lambda>root. node_at_mut root (path_components parent_str) parent_str
         (\<lambda>parent. case parent of
             Dir m \<Rightarrow> (case sm_get m name of
                 Some n \<Rightarrow> (Ok n, Dir (sm_remove name m))
               | None \<Rightarrow> (Err (NotFound path), parent))
           | _ \<Rightarrow> (Err (NotADir parent_str), parent))))"

definition mem_remove :: "string \<Rightarrow> bool \<Rightarrow> (VfsNode, unit, VfsError) act" where
  "mem_remove path recursive =
     (\<lambda>root.
       if \<not> recursive \<and> (case mem_list path root of Ok es \<Rightarrow> es \<noteq> [] | _ \<Rightarrow> False)
       then (Err (NotEmpty path), root)
       else andThen (mem_remove_node path) (\<lambda>_. ret ()) root)"

section \<open>Mounts\<close>

text \<open>
  \<open>find_mount\<close>: the first entry whose virtual path is the path or a prefix of it ending at a
  slash of the path, with the rest of the path.
\<close>

fun find_mount :: "'h MountEntry list \<Rightarrow> string \<Rightarrow> ('h MountEntry \<times> string) option" where
  "find_mount [] path = None"
| "find_mount (e # es) path =
     (let vp = me_vpath e in
      if path = vp then Some (e, [])
      else if starts_with path vp \<and> length vp < length path \<and> path ! length vp = SLASH
           then Some (e, drop (length vp) path)
      else find_mount es path)"

definition add_mount :: "string \<Rightarrow> 'h MountPoint \<Rightarrow> 'h Vfs \<Rightarrow> 'h Vfs" where
  "add_mount virtual_path point v =
     (let vpath = normalize_path virtual_path;
          kept = filter (\<lambda>m. me_vpath m \<noteq> vpath) (vfs_mounts v)
      in v\<lparr>vfs_mounts := sort_key (\<lambda>m. - int (length (me_vpath m)))
              (kept @ [\<lparr>me_vpath = vpath, me_point = point\<rparr>])\<rparr>)"

text \<open>Running a callback of the host, or an operation of the tree, inside the filesystem.\<close>

definition on_host :: "('h, 'a, VfsError) act \<Rightarrow> ('h, 'a) vact" where
  "on_host m = (\<lambda>v. case m (vfs_host v) of (r, h) \<Rightarrow> (r, v\<lparr>vfs_host := h\<rparr>))"

definition on_root :: "(VfsNode, 'a, VfsError) act \<Rightarrow> ('h, 'a) vact" where
  "on_root m = (\<lambda>v. case m (vfs_root v) of (r, n) \<Rightarrow> (r, v\<lparr>vfs_root := n\<rparr>))"

section \<open>The public operations\<close>

definition read_file :: "string \<Rightarrow> ('h, string) vact" where
  "read_file path0 =
     (let path = normalize_path path0 in
      (\<lambda>v. case find_mount (vfs_mounts v) path of
          Some (e, rel) \<Rightarrow> on_host (mp_read (me_point e) rel) v
        | None \<Rightarrow> (mem_read path (vfs_root v), v)))"

definition write_file :: "string \<Rightarrow> string \<Rightarrow> ('h, unit) vact" where
  "write_file path0 data =
     (let path = normalize_path path0 in
      (\<lambda>v. case find_mount (vfs_mounts v) path of
          Some (e, rel) \<Rightarrow> on_host (mp_write (me_point e) rel data) v
        | None \<Rightarrow>
            (case node_at (vfs_root v) (path_components path) path of
               Ok (Device _) \<Rightarrow> (Ok (), v)
             | Ok (Dir _) \<Rightarrow> (Err (IsADir path), v)
             | Ok (File _) \<Rightarrow> on_root (mem_set_node path (File data)) v
             | Err (NotFound _) \<Rightarrow> on_root (mem_set_node path (File data)) v
             | Err e \<Rightarrow> (Err e, v)
             | Panic \<Rightarrow> (Panic, v) | OutOfFuel \<Rightarrow> (OutOfFuel, v)
             | SourceLimit \<Rightarrow> (SourceLimit, v))))"

definition list_dir :: "string \<Rightarrow> ('h, string list) vact" where
  "list_dir path0 =
     (let path = normalize_path path0 in
      (\<lambda>v. case find_mount (vfs_mounts v) path of
          Some (e, rel) \<Rightarrow> on_host (mp_list (me_point e) rel) v
        | None \<Rightarrow> (mem_list path (vfs_root v), v)))"

definition stat :: "string \<Rightarrow> ('h, Stat) vact" where
  "stat path0 =
     (let path = normalize_path path0 in
      (\<lambda>v. case find_mount (vfs_mounts v) path of
          Some (e, rel) \<Rightarrow> on_host (mp_stat (me_point e) rel) v
        | None \<Rightarrow> (mem_stat path (vfs_root v), v)))"

definition mkdir :: "string \<Rightarrow> bool \<Rightarrow> ('h, unit) vact" where
  "mkdir path0 parents =
     (let path = normalize_path path0 in
      on_root (if parents then mem_mkdir_parents path else mem_mkdir path))"

definition remove :: "string \<Rightarrow> bool \<Rightarrow> ('h, unit) vact" where
  "remove path0 recursive =
     (let path = normalize_path path0 in
      (\<lambda>v. case find_mount (vfs_mounts v) path of
          Some (e, rel) \<Rightarrow> on_host (mp_remove (me_point e) rel) v
        | None \<Rightarrow> on_root (mem_remove path recursive) v))"

definition rename :: "string \<Rightarrow> string \<Rightarrow> ('h, unit) vact" where
  "rename from0 to0 =
     (let from = normalize_path from0; to = normalize_path to0 in
      (\<lambda>v. if find_mount (vfs_mounts v) from \<noteq> None \<or> find_mount (vfs_mounts v) to \<noteq> None
           then (Err (MountErr ''rename across mount points not supported''), v)
           else andThen (on_root (mem_remove_node from))
                  (\<lambda>node. on_root (mem_set_node to node)) v))"

definition copy :: "string \<Rightarrow> string \<Rightarrow> ('h, unit) vact" where
  "copy from0 to0 =
     (let from = normalize_path from0; to = normalize_path to0 in
      andThen (read_file from) (\<lambda>data. write_file to data))"

section \<open>The initial filesystem\<close>

text \<open>\<open>expect\<close> panics on an error.\<close>

definition expect :: "('s, 'a, 'e) act \<Rightarrow> ('s, 'a, 'f) act" where
  "expect m = (\<lambda>s. case m s of (Ok a, s') \<Rightarrow> (Ok a, s') | (OutOfFuel, s') \<Rightarrow> (OutOfFuel, s')
      | (SourceLimit, s') \<Rightarrow> (SourceLimit, s') | (_, s') \<Rightarrow> (Panic, s'))"

fun for_each :: "('x \<Rightarrow> ('s, unit, 'e) act) \<Rightarrow> 'x list \<Rightarrow> ('s, unit, 'e) act" where
  "for_each f [] = ret ()"
| "for_each f (x # xs) = andThen (f x) (\<lambda>_. for_each f xs)"

definition init_dirs :: "string list" where
  "init_dirs = [''/usr'', ''/usr/bin'', ''/usr/local'', ''/usr/local/bin'', ''/bin'', ''/etc'',
     ''/home'', ''/tmp'', ''/dev'']"

definition init_devices :: "(string \<times> DeviceKind) list" where
  "init_devices = [(''/dev/null'', DevNull), (''/dev/stdin'', DevStdin),
     (''/dev/stdout'', DevStdout), (''/dev/stderr'', DevStderr)]"

definition vfs_init :: "(VfsNode, unit, VfsError) act" where
  "vfs_init =
     andThen (for_each (\<lambda>d. expect (mem_mkdir d)) init_dirs)
       (\<lambda>_. for_each (\<lambda>(p, dev). expect (mem_set_node p (Device dev))) init_devices)"

definition vfs_new :: "'h \<Rightarrow> (unit, VfsError) outcome \<times> 'h Vfs" where
  "vfs_new h = on_root vfs_init \<lparr>vfs_root = Dir [], vfs_mounts = [], vfs_host = h\<rparr>"

end
