(* ===== verification/VfsTree.thy ===== *)
theory VfsTree
  imports Vfs
begin

text \<open>
  The laws of the in-memory tree. \<open>look\<close> is the lookup without error values and \<open>put\<close> the
  replacement of a node; \<open>view\<close> forgets the tree and keeps what each segment list denotes. The
  traversals of \<open>vfs.rs\<close> are expressed by them, and the view after an update is computed.
\<close>

section \<open>Lookup, replacement, well-formedness\<close>

fun look :: "VfsNode \<Rightarrow> string list \<Rightarrow> VfsNode option" where
  "look n [] = Some n"
| "look (Dir m) (c # cs) = (case sm_get m c of None \<Rightarrow> None | Some ch \<Rightarrow> look ch cs)"
| "look _ (c # cs) = None"

text \<open>The error of a failed lookup.\<close>

fun miss :: "VfsNode \<Rightarrow> string list \<Rightarrow> string \<Rightarrow> VfsError" where
  "miss (Dir m) (c # cs) orig =
     (case sm_get m c of None \<Rightarrow> NotFound orig | Some ch \<Rightarrow> miss ch cs orig)"
| "miss _ _ orig = NotADir orig"

fun put :: "VfsNode \<Rightarrow> string list \<Rightarrow> VfsNode \<Rightarrow> VfsNode" where
  "put n [] x = x"
| "put (Dir m) (c # cs) x =
     (case sm_get m c of None \<Rightarrow> Dir m | Some ch \<Rightarrow> Dir (sm_insert c (put ch cs x) m))"
| "put n (c # cs) x = n"

fun wf_node :: "VfsNode \<Rightarrow> bool" where
  "wf_node (Dir m) = (sm_wf m \<and> (\<forall>e \<in> set m. good_seg (fst e) \<and> wf_node (snd e)))"
| "wf_node _ = True"

lemma sm_insert_id: "sm_wf m \<Longrightarrow> sm_get m k = Some v \<Longrightarrow> sm_insert k v m = m"
  by (rule sm_ext) (auto simp: fun_upd_idem)

lemma sm_get_wf_entry:
  "\<forall>e \<in> set m. good_seg (fst e) \<and> wf_node (snd e) \<Longrightarrow> sm_get m k = Some ch \<Longrightarrow>
   good_seg k \<and> wf_node ch"
  by (drule map_of_SomeD, drule (1) bspec) simp

lemma sm_get_wf_node: "wf_node (Dir m) \<Longrightarrow> sm_get m k = Some ch \<Longrightarrow> good_seg k \<and> wf_node ch"
  unfolding wf_node.simps by (erule conjE) (rule sm_get_wf_entry)

lemma in_set_sm_insert: "e \<in> set (sm_insert k v m) \<Longrightarrow> e = (k, v) \<or> e \<in> set m"
  by (induction m) (auto split: if_split_asm)

lemma wf_node_insert:
  "wf_node (Dir m) \<Longrightarrow> good_seg k \<Longrightarrow> wf_node x \<Longrightarrow> wf_node (Dir (sm_insert k x m))"
  by (auto dest: in_set_sm_insert)

lemma wf_node_remove: "wf_node (Dir m) \<Longrightarrow> wf_node (Dir (sm_remove k m))"
  by (auto simp: sm_remove_def [symmetric]) (auto simp: sm_remove_def)

lemma wf_node_look: "wf_node n \<Longrightarrow> look n cs = Some x \<Longrightarrow> wf_node x"
  by (induction n cs rule: look.induct) (auto split: option.splits dest: sm_get_wf_entry)

lemma wf_node_put: "wf_node n \<Longrightarrow> wf_node x \<Longrightarrow> wf_node (put n cs x)"
proof (induction n cs x rule: put.induct)
  case (2 m c cs x)
  show ?case
  proof (cases "sm_get m c")
    case None
    with 2 show ?thesis by simp
  next
    case (Some ch)
    then have c: "good_seg c" "wf_node ch" using sm_get_wf_node 2(2) by blast+
    then have "wf_node (put ch cs x)" using 2(1,3) Some by simp
    with 2(2) Some c show ?thesis by (simp only: put.simps option.case wf_node_insert)
  qed
qed auto

lemma put_look_id: "wf_node n \<Longrightarrow> look n cs = Some x \<Longrightarrow> put n cs x = n"
proof (induction n cs rule: look.induct)
  case (2 m c cs)
  then obtain ch where ch: "sm_get m c = Some ch" "look ch cs = Some x"
    by (auto split: option.splits)
  have "wf_node ch" using sm_get_wf_node [OF 2(2) ch(1)] by simp
  then show ?case using 2 ch by (auto simp: sm_insert_id)
qed auto

lemma node_at_look:
  "node_at n cs orig = (case look n cs of Some x \<Rightarrow> Ok x | None \<Rightarrow> Err (miss n cs orig))"
  by (induction n cs orig rule: node_at.induct) (auto split: option.splits)

lemma node_at_mut_look:
  "wf_node n \<Longrightarrow> node_at_mut n cs orig f =
     (case look n cs of
        Some x \<Rightarrow> (case f x of (r, x') \<Rightarrow> (r, put n cs x'))
      | None \<Rightarrow> (Err (miss n cs orig), n))"
proof (induction n cs orig f rule: node_at_mut.induct)
  case (2 m c cs orig f)
  show ?case
  proof (cases "sm_get m c")
    case (Some ch)
    have "wf_node ch" using 2(2) Some by (rule conjunct2 [OF sm_get_wf_node])
    then have IH: "node_at_mut ch cs orig f = (case look ch cs of
        Some x \<Rightarrow> (case f x of (r, x') \<Rightarrow> (r, put ch cs x'))
      | None \<Rightarrow> (Err (miss ch cs orig), ch))" using 2(1) Some by simp
    show ?thesis
      using 2(2) Some IH by (auto simp: sm_insert_id split: option.splits prod.splits)
  qed simp
qed (auto split: prod.splits)

section \<open>The view of a tree\<close>

datatype entry = EFile string | EDir | EDev DeviceKind

fun kind :: "VfsNode \<Rightarrow> entry" where
  "kind (File d) = EFile d"
| "kind (Dir m) = EDir"
| "kind (Device k) = EDev k"

type_synonym afs = "string list \<Rightarrow> entry option"

definition view :: "VfsNode \<Rightarrow> afs" where
  "view n = (\<lambda>cs. map_option kind (look n cs))"

lemma view_Nil [simp]: "view n [] = Some (kind n)"
  by (simp add: view_def)

lemma view_Dir_Cons [simp]:
  "view (Dir m) (c # cs) = (case sm_get m c of None \<Rightarrow> None | Some ch \<Rightarrow> view ch cs)"
  by (simp add: view_def split: option.split)

lemma view_leaf [simp]: "view (File d) (c # cs) = None" "view (Device k) (c # cs) = None"
  by (simp_all add: view_def)

lemma look_append:
  "look n (cs @ ds) = (case look n cs of None \<Rightarrow> None | Some x \<Rightarrow> look x ds)"
  by (induction n cs rule: look.induct) (auto split: option.splits)

lemma kind_EDir: "kind n = EDir \<longleftrightarrow> (\<exists>m. n = Dir m)"
  by (cases n) auto

lemma view_EDir: "view n cs = Some EDir \<longleftrightarrow> (\<exists>m. look n cs = Some (Dir m))"
  by (auto simp: view_def kind_EDir)

lemma view_prefix_dir:
  assumes "view n (cs @ c # ds) = Some e"
  shows "view n cs = Some EDir"
proof -
  from assms obtain x where x: "look n (cs @ c # ds) = Some x" by (auto simp: view_def)
  then obtain y where y: "look n cs = Some y" "look y (c # ds) = Some x"
    by (auto simp: look_append split: option.splits)
  then show ?thesis by (cases y) (auto simp: view_def)
qed

lemma view_below_leaf: "view n cs = Some e \<Longrightarrow> e \<noteq> EDir \<Longrightarrow> view n (cs @ c # ds) = None"
  using view_prefix_dir by (metis not_None_eq option.inject)

lemma view_below_none: "view n cs = None \<Longrightarrow> view n (cs @ ds) = None"
  using view_prefix_dir by (cases ds) (auto, metis not_None_eq option.distinct(1))

lemma view_insert:
  "view (Dir (sm_insert k y m)) qs =
     (case qs of [] \<Rightarrow> Some EDir | q # qs' \<Rightarrow> if q = k then view y qs' else view (Dir m) qs)"
  by (cases qs) auto

lemma view_remove:
  "view (Dir (sm_remove k m)) qs =
     (case qs of [] \<Rightarrow> Some EDir | q # qs' \<Rightarrow> if q = k then None else view (Dir m) qs)"
  by (cases qs) auto

text \<open>Replacing a directory by a directory changes the view below it only.\<close>

lemma view_put:
  "look n cs = Some (Dir m) \<Longrightarrow>
   view (put n cs (Dir m')) qs =
     (if prefix cs qs then view (Dir m') (drop (length cs) qs) else view n qs)"
proof (induction n cs arbitrary: qs rule: look.induct)
  case (2 m0 c cs)
  then obtain ch where ch: "sm_get m0 c = Some ch" "look ch cs = Some (Dir m)"
    by (auto split: option.splits)
  show ?case
  proof (cases qs)
    case Nil
    then show ?thesis using ch by simp
  next
    case (Cons q qs')
    then show ?thesis using ch 2(1) [OF ch] by auto
  qed
qed auto

text \<open>Setting and clearing the entry \<open>name\<close> of the directory at \<open>ps\<close>.\<close>

definition overlay :: "afs \<Rightarrow> string list \<Rightarrow> afs \<Rightarrow> afs" where
  "overlay a ps b = (\<lambda>qs. if prefix ps qs then b (drop (length ps) qs) else a qs)"

lemma prefix_snoc_drop:
  "prefix (ps @ [nm]) qs \<longleftrightarrow> prefix ps qs \<and> (\<exists>qs'. drop (length ps) qs = nm # qs')"
  by (auto simp: prefix_def)

lemma view_put_insert:
  assumes "look n ps = Some (Dir m)"
  shows "view (put n ps (Dir (sm_insert nm y m))) = overlay (view n) (ps @ [nm]) (view y)"
proof
  fix qs
  show "view (put n ps (Dir (sm_insert nm y m))) qs = overlay (view n) (ps @ [nm]) (view y) qs"
  proof (cases "prefix ps qs")
    case False
    then show ?thesis using assms by (auto simp: view_put overlay_def dest: append_prefixD)
  next
    case True
    then obtain rs where rs: "qs = ps @ rs" by (auto simp: prefix_def)
    have "view n (ps @ rs) = view (Dir m) rs"
      using assms by (simp add: view_def look_append)
    then show ?thesis
      using assms rs by (cases rs) (auto simp: view_put overlay_def view_insert prefix_def)
  qed
qed

lemma view_put_remove:
  assumes "look n ps = Some (Dir m)"
  shows "view (put n ps (Dir (sm_remove nm m))) = overlay (view n) (ps @ [nm]) (\<lambda>_. None)"
proof
  fix qs
  show "view (put n ps (Dir (sm_remove nm m))) qs = overlay (view n) (ps @ [nm]) (\<lambda>_. None) qs"
  proof (cases "prefix ps qs")
    case False
    then show ?thesis using assms by (auto simp: view_put overlay_def dest: append_prefixD)
  next
    case True
    then obtain rs where rs: "qs = ps @ rs" by (auto simp: prefix_def)
    have "view n (ps @ rs) = view (Dir m) rs"
      using assms by (simp add: view_def look_append)
    then show ?thesis
      using assms rs by (cases rs) (auto simp: view_put overlay_def view_remove prefix_def)
  qed
qed

text \<open>Over a path with nothing below it, an overlay of a leaf is a plain update.\<close>

lemma overlay_leaf:
  assumes "\<And>c ds. a (ps @ c # ds) = None" "b [] = Some e" "\<And>c ds. b (c # ds) = None"
  shows "overlay a ps b = a(ps \<mapsto> e)"
proof
  fix qs
  show "overlay a ps b qs = (a(ps \<mapsto> e)) qs"
  proof (cases "prefix ps qs")
    case True
    then obtain rs where "qs = ps @ rs" by (auto simp: prefix_def)
    then show ?thesis using assms by (cases rs) (auto simp: overlay_def)
  qed (auto simp: overlay_def)
qed

section \<open>The in-memory operations on the view\<close>

lemma mem_set_node_root: "mem_set_node (path_of []) y n = (Err (InvalidPath ''cannot overwrite root''), n)"
  by (simp add: mem_set_node_def Let_def path_of_eq_root [of "[]", simplified])

lemma mem_set_node_dir:
  assumes g: "list_all good_seg (ps @ [nm])" and w: "wf_node n"
    and l: "look n ps = Some (Dir m)"
  shows "mem_set_node (path_of (ps @ [nm])) y n = (Ok (), put n ps (Dir (sm_insert nm y m)))"
  using g w l
  by (simp add: mem_set_node_def Let_def andThen_def node_at_mut_look del: path_of_eq_root)
     (simp add: path_of_eq_root [OF g])

lemma mem_set_node_nodir:
  assumes g: "list_all good_seg (ps @ [nm])" and w: "wf_node n"
    and l: "view n ps \<noteq> Some EDir"
  shows "\<exists>e. mem_set_node (path_of (ps @ [nm])) y n = (Err e, n)"
proof -
  have nr: "path_of (ps @ [nm]) \<noteq> ''/''" using path_of_eq_root [OF g] by simp
  show ?thesis
    using g w l nr put_look_id [OF w]
    by (auto simp: mem_set_node_def Let_def andThen_def node_at_mut_look view_EDir view_def
        kind_EDir split: option.splits VfsNode.splits)
qed

end
