(* ===== verification/VfsSpec.thy ===== *)
theory VfsSpec
  imports VfsTree
begin

text \<open>
  The contract of \<open>vfs.rs\<close>: an abstract filesystem is a map from segment lists to entries, and
  \<open>spec_vop\<close> says what each public operation returns and how it changes the map, on every branch.
  The operations of the code are shown to implement it on paths outside the mounts, for every
  sequence of operations, and to keep the invariant \<open>vfs_ok\<close>; paths below a mount are shown to go
  to the mount with the longest matching prefix.
\<close>

section \<open>The abstract filesystem\<close>

datatype vop =
    ReadOp string | ListOp string | StatOp string
  | WriteOp string string | MkdirOp string bool | RemoveOp string bool
  | RenameOp string string | CopyOp string string

datatype reply = RUnit | RBytes string | RNames "string list" | RStat Stat

text \<open>The error when \<open>ps\<close> should name an entry, or a directory, and does not.\<close>

definition access_err :: "afs \<Rightarrow> string list \<Rightarrow> VfsError" where
  "access_err a ps =
     (if \<exists>k \<le> length ps. \<exists>e. a (take k ps) = Some e \<and> e \<noteq> EDir
      then NotADir (path_of ps) else NotFound (path_of ps))"

definition spec_read :: "string list \<Rightarrow> afs \<Rightarrow> string vres" where
  "spec_read ps a =
     (case a ps of
        Some (EFile d) \<Rightarrow> Ok d
      | Some EDir \<Rightarrow> Err (IsADir (path_of ps))
      | Some (EDev DevNull) \<Rightarrow> Ok []
      | Some (EDev _) \<Rightarrow> Err (PermissionDenied (path_of ps))
      | None \<Rightarrow> Err (access_err a ps))"

definition spec_list :: "string list \<Rightarrow> afs \<Rightarrow> string list vres" where
  "spec_list ps a =
     (case a ps of
        Some EDir \<Rightarrow> Ok (sorted_list_of_set {c. a (ps @ [c]) \<noteq> None})
      | Some _ \<Rightarrow> Err (NotADir (path_of ps))
      | None \<Rightarrow> Err (access_err a ps))"

definition entry_stat :: "entry \<Rightarrow> Stat" where
  "entry_stat e = \<lparr>is_file = (\<exists>d. e = EFile d), is_dir = (e = EDir), is_device = (\<exists>k. e = EDev k),
     st_size = (case e of EFile d \<Rightarrow> length d | _ \<Rightarrow> 0)\<rparr>"

definition spec_stat :: "string list \<Rightarrow> afs \<Rightarrow> Stat vres" where
  "spec_stat ps a =
     (case a ps of Some e \<Rightarrow> Ok (entry_stat e) | None \<Rightarrow> Err (access_err a ps))"

text \<open>Putting a whole subtree \<open>b\<close> at \<open>ps\<close>: the parent must be a directory.\<close>

definition spec_place :: "string list \<Rightarrow> afs \<Rightarrow> afs \<Rightarrow> unit vres \<times> afs" where
  "spec_place ps b a =
     (if ps = [] then (Err (InvalidPath ''cannot overwrite root''), a)
      else if a (butlast ps) = Some EDir then (Ok (), overlay a ps b)
      else (Err (access_err a (butlast ps)), a))"

definition spec_write :: "string list \<Rightarrow> string \<Rightarrow> afs \<Rightarrow> unit vres \<times> afs" where
  "spec_write ps d a =
     (case a ps of
        Some (EDev _) \<Rightarrow> (Ok (), a)
      | Some EDir \<Rightarrow> (Err (IsADir (path_of ps)), a)
      | Some (EFile _) \<Rightarrow> (Ok (), a(ps \<mapsto> EFile d))
      | None \<Rightarrow>
          if a (butlast ps) = Some EDir then (Ok (), a(ps \<mapsto> EFile d))
          else (case access_err a ps of
                  NotFound _ \<Rightarrow> (Err (access_err a (butlast ps)), a)
                | e \<Rightarrow> (Err e, a)))"

definition spec_mkdir :: "string list \<Rightarrow> afs \<Rightarrow> unit vres \<times> afs" where
  "spec_mkdir ps a =
     (if ps = [] then (Ok (), a)
      else if a (butlast ps) = Some EDir
           then (if a ps = None then (Ok (), a(ps \<mapsto> EDir))
                 else (Err (AlreadyExists (path_of ps)), a))
      else (Err (access_err a (butlast ps)), a))"

text \<open>
  \<open>mkdir -p\<close>: either some prefix is not a directory, and the shortest such is reported and
  nothing changes, or every prefix is a directory afterwards.
\<close>

definition spec_mkdirs :: "string list \<Rightarrow> afs \<Rightarrow> unit vres \<times> afs" where
  "spec_mkdirs ps a =
     (case find (\<lambda>k. a (take k ps) \<noteq> None \<and> a (take k ps) \<noteq> Some EDir) [0..<Suc (length ps)] of
        Some k \<Rightarrow> (Err (NotADir (path_of (take k ps))), a)
      | None \<Rightarrow> (Ok (), \<lambda>qs. if prefix qs ps then Some EDir else a qs))"

definition spec_take :: "string list \<Rightarrow> afs \<Rightarrow> unit vres \<times> afs" where
  "spec_take ps a =
     (if ps = [] then (Err (InvalidPath ''no parent of root''), a)
      else if a (butlast ps) = Some EDir
           then (if a ps = None then (Err (NotFound (path_of ps)), a)
                 else (Ok (), overlay a ps (\<lambda>_. None)))
      else (Err (access_err a (butlast ps)), a))"

definition spec_remove :: "string list \<Rightarrow> bool \<Rightarrow> afs \<Rightarrow> unit vres \<times> afs" where
  "spec_remove ps recursive a =
     (if \<not> recursive \<and> a ps = Some EDir \<and> (\<exists>c. a (ps @ [c]) \<noteq> None)
      then (Err (NotEmpty (path_of ps)), a)
      else spec_take ps a)"

text \<open>
  A rename removes the source first and then places it: when the second step fails the source
  is gone, as in the code.
\<close>

definition spec_rename :: "string list \<Rightarrow> string list \<Rightarrow> afs \<Rightarrow> unit vres \<times> afs" where
  "spec_rename fs ts a =
     (case spec_take fs a of
        (Ok _, a') \<Rightarrow> spec_place ts (\<lambda>qs. a (fs @ qs)) a'
      | (r, a') \<Rightarrow> (r, a'))"

definition spec_copy :: "string list \<Rightarrow> string list \<Rightarrow> afs \<Rightarrow> unit vres \<times> afs" where
  "spec_copy fs ts a =
     (case spec_read fs a of
        Ok d \<Rightarrow> spec_write ts d a
      | Err e \<Rightarrow> (Err e, a) | Panic \<Rightarrow> (Panic, a) | OutOfFuel \<Rightarrow> (OutOfFuel, a)
      | SourceLimit \<Rightarrow> (SourceLimit, a))"

definition map_ok :: "('a \<Rightarrow> 'b) \<Rightarrow> ('a, 'e) outcome \<Rightarrow> ('b, 'e) outcome" where
  "map_ok f r = (case r of Ok a \<Rightarrow> Ok (f a) | Err e \<Rightarrow> Err e | Panic \<Rightarrow> Panic
     | OutOfFuel \<Rightarrow> OutOfFuel | SourceLimit \<Rightarrow> SourceLimit)"

fun spec_vop :: "vop \<Rightarrow> afs \<Rightarrow> reply vres \<times> afs" where
  "spec_vop (ReadOp p) a = (map_ok RBytes (spec_read (parts_of p) a), a)"
| "spec_vop (ListOp p) a = (map_ok RNames (spec_list (parts_of p) a), a)"
| "spec_vop (StatOp p) a = (map_ok RStat (spec_stat (parts_of p) a), a)"
| "spec_vop (WriteOp p d) a = apfst (map_ok (\<lambda>_. RUnit)) (spec_write (parts_of p) d a)"
| "spec_vop (MkdirOp p ps) a = apfst (map_ok (\<lambda>_. RUnit))
     (if ps then spec_mkdirs (parts_of p) a else spec_mkdir (parts_of p) a)"
| "spec_vop (RemoveOp p r) a = apfst (map_ok (\<lambda>_. RUnit)) (spec_remove (parts_of p) r a)"
| "spec_vop (RenameOp p q) a = apfst (map_ok (\<lambda>_. RUnit)) (spec_rename (parts_of p) (parts_of q) a)"
| "spec_vop (CopyOp p q) a = apfst (map_ok (\<lambda>_. RUnit)) (spec_copy (parts_of p) (parts_of q) a)"

text \<open>The calls of the code.\<close>

fun run_vop :: "vop \<Rightarrow> ('h, reply) vact" where
  "run_vop (ReadOp p) = (\<lambda>v. apfst (map_ok RBytes) (read_file p v))"
| "run_vop (ListOp p) = (\<lambda>v. apfst (map_ok RNames) (list_dir p v))"
| "run_vop (StatOp p) = (\<lambda>v. apfst (map_ok RStat) (stat p v))"
| "run_vop (WriteOp p d) = (\<lambda>v. apfst (map_ok (\<lambda>_. RUnit)) (write_file p d v))"
| "run_vop (MkdirOp p ps) = (\<lambda>v. apfst (map_ok (\<lambda>_. RUnit)) (mkdir p ps v))"
| "run_vop (RemoveOp p r) = (\<lambda>v. apfst (map_ok (\<lambda>_. RUnit)) (remove p r v))"
| "run_vop (RenameOp p q) = (\<lambda>v. apfst (map_ok (\<lambda>_. RUnit)) (rename p q v))"
| "run_vop (CopyOp p q) = (\<lambda>v. apfst (map_ok (\<lambda>_. RUnit)) (copy p q v))"

fun vop_paths :: "vop \<Rightarrow> string list" where
  "vop_paths (ReadOp p) = [p]"
| "vop_paths (ListOp p) = [p]"
| "vop_paths (StatOp p) = [p]"
| "vop_paths (WriteOp p d) = [p]"
| "vop_paths (MkdirOp p b) = []"
| "vop_paths (RemoveOp p b) = [p]"
| "vop_paths (RenameOp p q) = [p, q]"
| "vop_paths (CopyOp p q) = [p, q]"

definition unmounted :: "'h Vfs \<Rightarrow> string \<Rightarrow> bool" where
  "unmounted v p \<longleftrightarrow> find_mount (vfs_mounts v) (normalize_path p) = None"

definition vfs_ok :: "'h Vfs \<Rightarrow> bool" where
  "vfs_ok v \<longleftrightarrow> (\<exists>m. vfs_root v = Dir m) \<and> wf_node (vfs_root v)"


section \<open>The tree operations implement the abstract ones\<close>

lemma ex_le_Suc_shift: "(\<exists>k \<le> Suc n. P k) \<longleftrightarrow> P 0 \<or> (\<exists>k \<le> n. P (Suc k))"
  by (metis Suc_le_mono le0 not0_implies_Suc)

lemma miss_view:
  "look n ps = None \<Longrightarrow> miss n ps orig =
     (if \<exists>k \<le> length ps. \<exists>e. view n (take k ps) = Some e \<and> e \<noteq> EDir
      then NotADir orig else NotFound orig)"
proof (induction n ps orig rule: miss.induct)
  case (1 m c cs orig)
  then show ?case by (auto simp: ex_le_Suc_shift split: option.splits)
qed (auto intro!: exI [of _ 0])

lemma node_at_access:
  "node_at n ps (path_of ps) =
     (case look n ps of Some x \<Rightarrow> Ok x | None \<Rightarrow> Err (access_err (view n) ps))"
  by (simp add: node_at_look miss_view access_err_def split: option.split)

lemma view_Some_look: "view n ps = Some e \<Longrightarrow> \<exists>x. look n ps = Some x \<and> kind x = e"
  by (auto simp: view_def)

lemma access_err_leaf: "view n ps = Some e \<Longrightarrow> e \<noteq> EDir \<Longrightarrow> access_err (view n) ps = NotADir (path_of ps)"
  by (auto simp: access_err_def intro!: exI [of _ "length ps"])

text \<open>Running a function that expects a directory at \<open>ps\<close>.\<close>

lemma at_dir:
  assumes "wf_node n"
  shows "node_at_mut n ps (path_of ps) (\<lambda>parent. case parent of Dir m \<Rightarrow> f parent m
            | _ \<Rightarrow> (Err (NotADir (path_of ps)), parent)) =
     (case look n ps of
        Some (Dir m) \<Rightarrow> (case f (Dir m) m of (r, x') \<Rightarrow> (r, put n ps x'))
      | _ \<Rightarrow> (Err (access_err (view n) ps), n))"
proof (cases "look n ps")
  case None
  then show ?thesis using assms by (simp add: node_at_mut_look miss_view access_err_def)
next
  case (Some x)
  then show ?thesis
    using assms put_look_id [OF assms Some] access_err_leaf [of n ps "kind x"]
    by (auto simp: node_at_mut_look view_def split: VfsNode.splits)
qed

lemma snoc_cases:
  assumes "list_all good_seg ps"
  obtains "ps = []" | qs nm where "ps = qs @ [nm]" "list_all good_seg qs" "good_seg nm"
    "list_all good_seg (qs @ [nm])"
  using assms by (cases ps rule: rev_cases) auto

lemma not_dir_view: "(\<forall>m. look n ps \<noteq> Some (Dir m)) \<longleftrightarrow> view n ps \<noteq> Some EDir"
  by (simp add: view_EDir)

text \<open>The three updates of the code at a path with a parent, and the well-formedness they keep.\<close>

lemma mem_set_node_snoc:
  assumes w: "wf_node n" and g: "list_all good_seg (qs @ [nm])"
  shows "mem_set_node (path_of (qs @ [nm])) y n =
      (case look n qs of
         Some (Dir m) \<Rightarrow> (Ok (), put n qs (Dir (sm_insert nm y m)))
       | _ \<Rightarrow> (Err (access_err (view n) qs), n))"
  using g by (simp add: mem_set_node_def andThen_def at_dir [OF w] split: option.split VfsNode.split)

lemma mem_mkdir_snoc:
  assumes w: "wf_node n" and g: "list_all good_seg (qs @ [nm])"
  shows "mem_mkdir (path_of (qs @ [nm])) n =
      (case look n qs of
         Some (Dir m) \<Rightarrow> (case sm_get m nm of
             Some _ \<Rightarrow> (Err (AlreadyExists (path_of (qs @ [nm]))), n)
           | None \<Rightarrow> (Ok (), put n qs (Dir (sm_insert nm (Dir []) m))))
       | _ \<Rightarrow> (Err (access_err (view n) qs), n))"
  using g by (simp add: mem_mkdir_def andThen_def at_dir [OF w] put_look_id [OF w]
      split: option.split VfsNode.split)

lemma mem_remove_node_snoc:
  assumes w: "wf_node n" and g: "list_all good_seg (qs @ [nm])"
  shows "mem_remove_node (path_of (qs @ [nm])) n =
      (case look n qs of
         Some (Dir m) \<Rightarrow> (case sm_get m nm of
             Some x \<Rightarrow> (Ok x, put n qs (Dir (sm_remove nm m)))
           | None \<Rightarrow> (Err (NotFound (path_of (qs @ [nm]))), n))
       | _ \<Rightarrow> (Err (access_err (view n) qs), n))"
  using g by (simp add: mem_remove_node_def andThen_def at_dir [OF w] put_look_id [OF w]
      split: option.split VfsNode.split)

lemma mem_mkdir_root: "mem_mkdir (path_of []) n = (Ok (), n)"
  using normalize_path_of [of "[]"] by (simp add: mem_mkdir_def path_of_def)

lemma mem_remove_node_root:
  "mem_remove_node (path_of []) n = (Err (InvalidPath ''no parent of root''), n)"
  by (simp add: mem_remove_node_def andThen_def)

lemmas mem_snoc = mem_set_node_snoc mem_mkdir_snoc mem_remove_node_snoc
lemmas mem_root = mem_set_node_root mem_mkdir_root mem_remove_node_root

lemma wf_node_look_insert:
  "wf_node n \<Longrightarrow> look n qs = Some (Dir m) \<Longrightarrow> good_seg nm \<Longrightarrow> wf_node y
   \<Longrightarrow> wf_node (put n qs (Dir (sm_insert nm y m)))"
  by (rule wf_node_put, assumption, rule wf_node_insert) (auto dest: wf_node_look simp del: wf_node.simps)

lemma wf_node_look_remove:
  "wf_node n \<Longrightarrow> look n qs = Some (Dir m) \<Longrightarrow> wf_node (put n qs (Dir (sm_remove nm m)))"
  by (rule wf_node_put, assumption, rule wf_node_remove) (auto dest: wf_node_look simp del: wf_node.simps)

lemma wf_mem_set_node:
  assumes "list_all good_seg ps" "wf_node n" "wf_node y"
  shows "wf_node (snd (mem_set_node (path_of ps) y n))"
  using assms(1)
  by (cases rule: snoc_cases)
     (use assms in \<open>auto simp: mem_snoc mem_root wf_node_look_insert split: option.split VfsNode.split\<close>)

lemma wf_mem_mkdir:
  assumes "list_all good_seg ps" "wf_node n"
  shows "wf_node (snd (mem_mkdir (path_of ps) n))"
  using assms(1)
  by (cases rule: snoc_cases)
     (use assms in \<open>auto simp: mem_snoc mem_root wf_node_look_insert split: option.split VfsNode.split\<close>)

lemma wf_mem_remove_node:
  assumes "list_all good_seg ps" "wf_node n" "mem_remove_node (path_of ps) n = (r, n')"
  shows "wf_node n' \<and> (\<forall>x. r = Ok x \<longrightarrow> wf_node x)"
  using assms(1)
proof (cases rule: snoc_cases)
  case (2 qs nm)
  have x: "wf_node x" if "look n qs = Some (Dir m)" "sm_get m nm = Some x" for m x
    using wf_node_look [OF assms(2) that(1)] sm_get_wf_node [OF _ that(2)] by blast
  show ?thesis
    using 2 assms x
    by (auto simp: mem_snoc wf_node_look_remove split: option.splits VfsNode.splits)
qed (use assms in \<open>auto simp: mem_root\<close>)

lemma view_absent:
  "wf_node n \<Longrightarrow> look n qs = Some (Dir m) \<Longrightarrow> view n (qs @ [nm]) = map_option kind (sm_get m nm)"
  by (simp add: view_def look_append split: option.split)

lemma overlay_absent_dir:
  "view n ps = None \<Longrightarrow> overlay (view n) ps (view (Dir [])) = (view n)(ps \<mapsto> EDir)"
  by (rule overlay_leaf) (use view_below_none in auto)

lemma mem_set_node_spec:
  assumes g: "list_all good_seg ps" and w: "wf_node n"
  shows "apsnd view (mem_set_node (path_of ps) y n) = spec_place ps (view y) (view n)"
  using g
  by (cases rule: snoc_cases)
     (use g w in \<open>auto simp: mem_snoc mem_root spec_place_def view_put_insert view_EDir
        split: option.split VfsNode.split\<close>)

lemma mem_mkdir_spec:
  assumes g: "list_all good_seg ps" and w: "wf_node n"
  shows "apsnd view (mem_mkdir (path_of ps) n) = spec_mkdir ps (view n)"
  using g
  by (cases rule: snoc_cases)
     (use g w overlay_absent_dir [of n ps] in \<open>auto simp: mem_snoc mem_root spec_mkdir_def
        view_put_insert view_EDir view_absent split: option.split VfsNode.split\<close>)

lemma mem_remove_node_spec:
  assumes g: "list_all good_seg ps" and w: "wf_node n"
  shows "case mem_remove_node (path_of ps) n of (r, n') \<Rightarrow>
      spec_take ps (view n) = (map_ok (\<lambda>_. ()) r, view n')
      \<and> (\<forall>x. r = Ok x \<longrightarrow> view x = (\<lambda>qs. view n (ps @ qs)))"
  using g
proof (cases rule: snoc_cases)
  case 1
  then show ?thesis by (simp add: mem_root spec_take_def map_ok_def)
next
  case (2 qs nm)
  then show ?thesis
    using g w
    by (auto simp: mem_snoc spec_take_def view_put_remove view_EDir view_absent map_ok_def
        split: option.split VfsNode.split) (auto simp: view_def look_append)
qed

lemma view_look [simp]: "look n ps = Some x \<Longrightarrow> view n ps = Some (kind x)"
  by (simp add: view_def)

lemma view_look_None [simp]: "look n ps = None \<Longrightarrow> view n ps = None"
  by (simp add: view_def)

lemma mem_read_spec:
  "list_all good_seg ps \<Longrightarrow> mem_read (path_of ps) n = spec_read ps (view n)"
  by (auto simp: mem_read_def spec_read_def node_at_access
      split: option.split VfsNode.split DeviceKind.split)

lemma node_stat_kind: "node_stat x = entry_stat (kind x)"
  by (cases x) (auto simp: node_stat_def entry_stat_def)

lemma mem_stat_spec:
  "list_all good_seg ps \<Longrightarrow> mem_stat (path_of ps) n = spec_stat ps (view n)"
  by (simp add: mem_stat_def spec_stat_def node_at_access node_stat_kind split: option.split)

lemma sm_keys_sorted: "sm_wf m \<Longrightarrow> sm_keys m = sorted_list_of_set (fst ` set m)"
  unfolding sm_wf_def
  by (metis list.set_map sorted_list_of_set.idem_if_sorted_distinct strict_sorted_iff)

lemma view_children:
  "look n ps = Some (Dir m) \<Longrightarrow> {c. \<exists>y. view n (ps @ [c]) = Some y} = fst ` set m"
  by (force simp: view_def look_append map_of_eq_None_iff split: option.splits)

lemma mem_list_spec:
  "list_all good_seg ps \<Longrightarrow> wf_node n \<Longrightarrow> mem_list (path_of ps) n = spec_list ps (view n)"
  using wf_node_look [of n ps]
  by (auto simp: mem_list_def spec_list_def node_at_access view_children
      sm_keys_sorted split: option.split VfsNode.split)

lemma mem_remove_spec:
  assumes g: "list_all good_seg ps" and w: "wf_node n"
  shows "apsnd view (mem_remove (path_of ps) recursive n) = spec_remove ps recursive (view n)"
proof -
  have ne: "(case mem_list (path_of ps) n of Ok es \<Rightarrow> es \<noteq> [] | _ \<Rightarrow> False)
      \<longleftrightarrow> view n ps = Some EDir \<and> (\<exists>c. view n (ps @ [c]) \<noteq> None)"
  proof (cases "\<exists>m. look n ps = Some (Dir m)")
    case True
    then obtain m where m: "look n ps = Some (Dir m)" by blast
    have "(m = []) \<longleftrightarrow> {c. \<exists>y. view n (ps @ [c]) = Some y} = {}"
      unfolding view_children [OF m] by simp
    then show ?thesis using m g by (simp add: mem_list_def node_at_access)
  next
    case False
    then show ?thesis using g
      by (auto simp: mem_list_def node_at_access view_EDir split: option.split VfsNode.split)
  qed
  show ?thesis
    unfolding mem_remove_def spec_remove_def ne
    using mem_remove_node_spec [OF g w]
    by (auto simp: andThen_def map_ok_def split: prod.splits outcome.splits)
qed

text \<open>\<open>mkdir -p\<close>: the loop has made every prefix up to the current one.\<close>

lemma path_of_snoc:
  "path_of (cur @ [seg]) = (if path_of cur = ''/'' then ''/'' @ seg else path_of cur @ ''/'' @ seg)"
  if "list_all good_seg cur"
  using that path_of_eq_root [OF that] by (cases "cur = []") (auto simp: path_of_def join_snoc)

lemma access_err_child:
  assumes "view n cur = Some EDir" "view n (cur @ [seg]) = None"
  shows "access_err (view n) (cur @ [seg]) = NotFound (path_of (cur @ [seg]))"
proof -
  have "view n (take k (cur @ [seg])) = Some EDir" if "k \<le> length cur" for k
  proof (cases "k = length cur")
    case False
    then have "take k cur @ cur ! k # drop (Suc k) cur = cur"
      using that by (simp add: id_take_nth_drop [symmetric])
    then show ?thesis using assms that view_prefix_dir [of n "take k cur" "cur ! k" "drop (Suc k) cur"]
      by simp
  qed (use assms in simp)
  then have "\<not> (\<exists>k \<le> length (cur @ [seg]). \<exists>e. view n (take k (cur @ [seg])) = Some e \<and> e \<noteq> EDir)"
    using assms(2) by (auto simp: le_Suc_eq)
  then show ?thesis by (auto simp: access_err_def)
qed

lemma spec_stat_child:
  "view n cur = Some EDir \<Longrightarrow> spec_stat (cur @ [seg]) (view n) =
     (case view n (cur @ [seg]) of Some e \<Rightarrow> Ok (entry_stat e)
      | None \<Rightarrow> Err (NotFound (path_of (cur @ [seg]))))"
  by (simp add: spec_stat_def access_err_child split: option.split)

definition leaf_at :: "afs \<Rightarrow> string list \<Rightarrow> bool" where
  "leaf_at a ps \<longleftrightarrow> a ps \<noteq> None \<and> a ps \<noteq> Some EDir"

lemma mkdir_parents_loop_spec:
  assumes "list_all good_seg (cur @ segs)" "wf_node n" "view n cur = Some EDir"
  shows "(case mkdir_parents_loop segs (path_of cur) n of (r, n') \<Rightarrow>
      wf_node n' \<and> (r, view n') =
     (case find (\<lambda>k. leaf_at (view n) (take k (cur @ segs)))
              [Suc (length cur)..<Suc (length (cur @ segs))] of
        Some k \<Rightarrow> (Err (NotADir (path_of (take k (cur @ segs)))), view n)
      | None \<Rightarrow> (Ok (), \<lambda>qs. if prefix qs (cur @ segs) \<and> \<not> prefix qs cur then Some EDir
                          else view n qs)))"
  using assms
proof (induction segs arbitrary: cur n)
  case Nil
  then show ?case by (auto simp: fun_eq_iff)
next
  case (Cons seg segs)
  let ?cur = "cur @ [seg]"
  let ?full = "cur @ seg # segs"
  let ?find = "\<lambda>n k0. find (\<lambda>k. leaf_at (view n) (take k ?full)) [k0..<Suc (length ?full)]"
  have g: "list_all good_seg cur" "list_all good_seg ?cur" "list_all good_seg (?cur @ segs)"
    using Cons.prems(1) by auto
  have split: "[Suc (length cur)..<Suc (length ?full)]
      = Suc (length cur) # [Suc (length ?cur)..<Suc (length ?full)]"
    by (simp add: upt_rec)
  have eqf: "?cur @ segs = ?full" by simp
  have first: "take (Suc (length cur)) ?full = ?cur" by simp
  have pre: "prefix qs ?cur \<longleftrightarrow> prefix qs cur \<or> qs = ?cur" for qs by auto
  have full: "prefix ?cur ?full" "\<not> prefix ?cur cur" by (auto simp: prefix_def)
  have stat: "mem_stat (path_of ?cur) n = (case view n ?cur of Some e \<Rightarrow> Ok (entry_stat e)
      | None \<Rightarrow> Err (NotFound (path_of ?cur)))"
    using mem_stat_spec [OF g(2)] spec_stat_child [OF Cons.prems(3)] by simp
  note step = mkdir_parents_loop.simps(2) Let_def path_of_snoc [OF g(1), symmetric] stat
  show ?case
  proof (cases "view n ?cur")
    case None
    obtain n' where n': "mem_mkdir (path_of ?cur) n = (Ok (), n')"
      and v': "view n' = (view n)(?cur \<mapsto> EDir)"
      using mem_mkdir_spec [OF g(2) Cons.prems(2)] Cons.prems(3) None
      by (cases "mem_mkdir (path_of ?cur) n") (auto simp: spec_mkdir_def)
    have w': "wf_node n'" using wf_mem_mkdir [OF g(2) Cons.prems(2)] n' by simp
    have below: "\<not> leaf_at (view n) (take k ?full)" "\<not> leaf_at (view n') (take k ?full)"
      if "k \<ge> Suc (length ?cur)" for k
    proof -
      have "take k ?full = ?cur @ take (k - length ?cur) segs" using that
        by (simp add: take_Cons')
      then show "\<not> leaf_at (view n) (take k ?full)" "\<not> leaf_at (view n') (take k ?full)"
        using view_below_none [OF None] v' by (auto simp: leaf_at_def)
    qed
    have fnd: "?find n (Suc (length ?cur)) = None" "?find n' (Suc (length ?cur)) = None"
      using below by (auto simp only: find_None_iff set_upt atLeastLessThan_iff)
    have fnd0: "?find n (Suc (length cur)) = ?find n (Suc (length ?cur))"
      unfolding split using None by (simp add: leaf_at_def first)
    have loop: "mkdir_parents_loop (seg # segs) (path_of cur) n
        = mkdir_parents_loop segs (path_of ?cur) n'"
      using None n' by (simp add: step andThen_def)
    have vw: "(\<lambda>qs. if prefix qs ?full \<and> \<not> prefix qs ?cur then Some EDir else view n' qs)
        = (\<lambda>qs. if prefix qs ?full \<and> \<not> prefix qs cur then Some EDir else view n qs)"
      unfolding v' pre using full by (auto simp: fun_eq_iff)
    have d': "view n' ?cur = Some EDir" unfolding v' by simp
    from Cons.IH [OF g(3) w' d'] show ?thesis
      unfolding eqf fnd fnd0 loop option.case vw .
  next
    case (Some e)
    show ?thesis
    proof (cases "e = EDir")
      case True
      have fnd0: "?find n (Suc (length cur)) = ?find n (Suc (length ?cur))"
        unfolding split using Some True by (simp add: leaf_at_def first)
      have loop: "mkdir_parents_loop (seg # segs) (path_of cur) n
          = mkdir_parents_loop segs (path_of ?cur) n"
        using Some True by (simp add: step entry_stat_def)
      have vw: "(\<lambda>qs. if prefix qs ?full \<and> \<not> prefix qs ?cur then Some EDir else view n qs)
          = (\<lambda>qs. if prefix qs ?full \<and> \<not> prefix qs cur then Some EDir else view n qs)"
        unfolding pre using full Some True by (auto simp: fun_eq_iff)
      from Cons.IH [OF g(3) Cons.prems(2) Some [unfolded True]] show ?thesis
        unfolding eqf fnd0 loop vw .
    next
      case False
      then have "?find n (Suc (length cur)) = Some (Suc (length cur))"
        unfolding split using Some by (simp add: leaf_at_def first)
      moreover have "mkdir_parents_loop (seg # segs) (path_of cur) n
          = (Err (NotADir (path_of ?cur)), n)"
        using Some False by (simp add: step entry_stat_def)
      ultimately show ?thesis using Cons.prems(2) first by simp
    qed
  qed
qed

lemma mem_mkdir_parents_spec:
  assumes g: "list_all good_seg ps" and w: "wf_node n" and d: "view n [] = Some EDir"
  shows "(case mem_mkdir_parents (path_of ps) n of (r, n') \<Rightarrow>
      wf_node n' \<and> (r, view n') = spec_mkdirs ps (view n))"
proof -
  have p0: "path_of [] = ''/''" by (simp add: path_of_def)
  have pred: "find (\<lambda>k. view n (take k ps) \<noteq> None \<and> view n (take k ps) \<noteq> Some EDir)
        [0..<Suc (length ps)]
      = find (\<lambda>k. leaf_at (view n) (take k ps)) [Suc (length ([] :: string list))..<Suc (length ps)]"
    using d by (subst upt_conv_Cons) (auto simp: leaf_at_def)
  have fn: "(\<lambda>qs. if prefix qs ps \<and> \<not> prefix qs [] then Some EDir else view n qs)
      = (\<lambda>qs. if prefix qs ps then Some EDir else view n qs)"
    using d by (auto simp: fun_eq_iff)
  from mkdir_parents_loop_spec [of "[]" ps n, unfolded append_Nil, OF g w d] show ?thesis
    unfolding mem_mkdir_parents_def spec_mkdirs_def path_components_path_of [OF g] p0 pred fn .
qed

lemma mem_set_file_spec:
  assumes g: "list_all good_seg ps" and w: "wf_node n" and a: "view n ps \<noteq> Some EDir" "ps \<noteq> []"
  shows "apsnd view (mem_set_node (path_of ps) (File d) n)
     = (if view n (butlast ps) = Some EDir then (Ok (), (view n)(ps \<mapsto> EFile d))
        else (Err (access_err (view n) (butlast ps)), view n))"
proof -
  have below: "view n (ps @ c # ds) = None" for c ds
    using a(1) view_prefix_dir [of n ps c ds] by (cases "view n (ps @ c # ds)") auto
  show ?thesis
    unfolding mem_set_node_spec [OF g w] spec_place_def
    using a(2) overlay_leaf [of "view n" ps "view (File d)" "EFile d"] below by simp
qed

section \<open>The public operations\<close>

lemma vfs_ok_root: "vfs_ok v \<longleftrightarrow> wf_node (vfs_root v) \<and> view (vfs_root v) [] = Some EDir"
  by (auto simp: vfs_ok_def kind_EDir)

lemma on_root_eq: "on_root f v = (fst (f (vfs_root v)), v\<lparr>vfs_root := snd (f (vfs_root v))\<rparr>)"
  by (simp add: on_root_def split: prod.split)

text \<open>A tree operation that implements an abstract one, in the form the sequences need.\<close>

definition implements ::
  "('h, 'a) vact \<Rightarrow> (afs \<Rightarrow> 'a vres \<times> afs) \<Rightarrow> 'h Vfs \<Rightarrow> bool" where
  "implements c sp v \<longleftrightarrow> (case c v of (r, v') \<Rightarrow>
     sp (view (vfs_root v)) = (r, view (vfs_root v')) \<and> wf_node (vfs_root v')
     \<and> vfs_mounts v' = vfs_mounts v \<and> vfs_host v' = vfs_host v)"

lemma implements_on_root:
  assumes "apsnd view (f (vfs_root v)) = sp (view (vfs_root v))" "wf_node (snd (f (vfs_root v)))"
  shows "implements (on_root f) sp v"
  using assms by (cases "f (vfs_root v)") (auto simp: implements_def on_root_eq)

lemma implements_query:
  assumes "c v = (r, v)" "sp (view (vfs_root v)) = (r, view (vfs_root v))" "wf_node (vfs_root v)"
  shows "implements c sp v"
  using assms by (auto simp: implements_def)

lemma norm_parts: "normalize_path p = path_of (parts_of p)"
  by (rule normalize_path_parts)

lemma read_file_spec:
  "vfs_ok v \<Longrightarrow> unmounted v p \<Longrightarrow> read_file p v = (spec_read (parts_of p) (view (vfs_root v)), v)"
  by (simp add: read_file_def Let_def unmounted_def mem_read_spec norm_parts)

lemma list_dir_spec:
  "vfs_ok v \<Longrightarrow> unmounted v p \<Longrightarrow> list_dir p v = (spec_list (parts_of p) (view (vfs_root v)), v)"
  by (simp add: list_dir_def Let_def unmounted_def mem_list_spec norm_parts vfs_ok_def)

lemma stat_spec:
  "vfs_ok v \<Longrightarrow> unmounted v p \<Longrightarrow> stat p v = (spec_stat (parts_of p) (view (vfs_root v)), v)"
  by (simp add: stat_def Let_def unmounted_def mem_stat_spec norm_parts)

lemma write_file_impl:
  assumes v: "vfs_ok v" and u: "unmounted v p"
  shows "implements (write_file p d) (spec_write (parts_of p) d) v"
proof -
  let ?n = "vfs_root v" and ?ps = "parts_of p"
  have w: "wf_node ?n" and root: "view ?n [] = Some EDir" using v by (auto simp: vfs_ok_root)
  have wset: "wf_node (snd (mem_set_node (path_of ?ps) (File d) ?n))"
    by (rule wf_mem_set_node) (use w in auto)
  have code: "write_file p d v =
      (case look ?n ?ps of
         Some (Device _) \<Rightarrow> (Ok (), v)
       | Some (Dir _) \<Rightarrow> (Err (IsADir (path_of ?ps)), v)
       | Some (File _) \<Rightarrow> on_root (mem_set_node (path_of ?ps) (File d)) v
       | None \<Rightarrow> (case access_err (view ?n) ?ps of
            NotFound _ \<Rightarrow> on_root (mem_set_node (path_of ?ps) (File d)) v
          | e \<Rightarrow> (Err e, v)))"
    using u by (simp add: write_file_def Let_def unmounted_def norm_parts node_at_access
        split: option.split VfsNode.split VfsError.split)
  show ?thesis
  proof (cases "view ?n ?ps")
    case None
    then have ne: "?ps \<noteq> []" using root by auto
    have child: "view ?n (butlast ?ps) = Some EDir \<Longrightarrow> access_err (view ?n) ?ps = NotFound (path_of ?ps)"
      using access_err_child [of ?n "butlast ?ps" "last ?ps"] None ne by simp
    have lk: "look ?n ?ps = None" using None by (simp add: view_def)
    show ?thesis
      using None ne w wset lk child mem_set_file_spec [of ?ps ?n d]
      by (cases "mem_set_node (path_of ?ps) (File d) ?n"; cases "access_err (view ?n) ?ps")
         (auto simp: implements_def code spec_write_def on_root_eq)
  next
    case (Some e)
    then obtain x where x: "look ?n ?ps = Some x" "kind x = e" using view_Some_look by blast
    show ?thesis
    proof (cases x)
      case (File d')
      then have ne: "?ps \<noteq> []" using root x by auto
      then have "view ?n (butlast ?ps) = Some EDir"
        using Some view_prefix_dir [of ?n "butlast ?ps" "last ?ps" "[]"] by simp
      then show ?thesis
        using x File ne w wset Some mem_set_file_spec [of ?ps ?n d]
        by (cases "mem_set_node (path_of ?ps) (File d) ?n")
           (auto simp: implements_def code spec_write_def on_root_eq)
    qed (use x Some w in \<open>auto simp: implements_def code spec_write_def\<close>)
  qed
qed

lemma mkdir_impl:
  assumes v: "vfs_ok v"
  shows "implements (mkdir p parents)
     (if parents then spec_mkdirs (parts_of p) else spec_mkdir (parts_of p)) v"
proof -
  have w: "wf_node (vfs_root v)" and d: "view (vfs_root v) [] = Some EDir"
    using v by (auto simp: vfs_ok_root)
  obtain r n' where m: "mem_mkdir_parents (path_of (parts_of p)) (vfs_root v) = (r, n')" by fastforce
  have "implements (on_root (mem_mkdir_parents (path_of (parts_of p)))) (spec_mkdirs (parts_of p)) v"
    using mem_mkdir_parents_spec [OF parts_of_good w d, of p] m
    by (intro implements_on_root) simp_all
  moreover have "implements (on_root (mem_mkdir (path_of (parts_of p)))) (spec_mkdir (parts_of p)) v"
    using mem_mkdir_spec [OF parts_of_good w, of p] wf_mem_mkdir [OF parts_of_good w, of p]
    by (intro implements_on_root) simp_all
  ultimately show ?thesis by (simp add: mkdir_def norm_parts Let_def)
qed

lemma remove_impl:
  assumes v: "vfs_ok v" and u: "unmounted v p"
  shows "implements (remove p recursive) (spec_remove (parts_of p) recursive) v"
proof -
  have w: "wf_node (vfs_root v)" using v by (simp add: vfs_ok_root)
  obtain r n' where m: "mem_remove_node (path_of (parts_of p)) (vfs_root v) = (r, n')" by fastforce
  have "wf_node (snd (mem_remove (path_of (parts_of p)) recursive (vfs_root v)))"
    using wf_mem_remove_node [OF parts_of_good w m] w m
    by (auto simp: mem_remove_def andThen_def split: outcome.split)
  then have "implements (on_root (mem_remove (path_of (parts_of p)) recursive))
      (spec_remove (parts_of p) recursive) v"
    using mem_remove_spec [OF parts_of_good w] by (intro implements_on_root) auto
  then show ?thesis
    using u by (simp add: implements_def remove_def Let_def norm_parts unmounted_def)
qed

lemma rename_impl:
  assumes v: "vfs_ok v" and u: "unmounted v p" "unmounted v q"
  shows "implements (rename p q) (spec_rename (parts_of p) (parts_of q)) v"
proof -
  let ?n = "vfs_root v"
  have w: "wf_node ?n" using v by (simp add: vfs_ok_root)
  obtain r n' where m: "mem_remove_node (path_of (parts_of p)) ?n = (r, n')" by fastforce
  note take = mem_remove_node_spec [OF parts_of_good w, of p, unfolded m]
  note wf = wf_mem_remove_node [OF parts_of_good w m]
  have code: "rename p q v =
      andThen (on_root (mem_remove_node (path_of (parts_of p))))
        (\<lambda>node. on_root (mem_set_node (path_of (parts_of q)) node)) v"
    using u by (simp add: rename_def Let_def norm_parts unmounted_def)
  show ?thesis
  proof (cases r)
    case (Ok x)
    then have "wf_node n'" "wf_node x" using wf by auto
    then have "wf_node (snd (mem_set_node (path_of (parts_of q)) x n'))"
      "apsnd view (mem_set_node (path_of (parts_of q)) x n') = spec_place (parts_of q) (view x) (view n')"
      using mem_set_node_spec [OF parts_of_good] wf_mem_set_node [OF parts_of_good] by auto
    then show ?thesis using take Ok m
      by (cases "mem_set_node (path_of (parts_of q)) x n'")
         (auto simp: implements_def code andThen_def on_root_eq spec_rename_def map_ok_def)
  qed (use take wf m in \<open>auto simp: implements_def code andThen_def on_root_eq spec_rename_def
         map_ok_def\<close>)
qed

lemma copy_impl:
  assumes v: "vfs_ok v" and u: "unmounted v p" "unmounted v q"
  shows "implements (copy p q) (spec_copy (parts_of p) (parts_of q)) v"
proof -
  have u': "unmounted v (normalize_path p)" "unmounted v (normalize_path q)"
    using u by (simp_all add: unmounted_def)
  have pq: "parts_of (normalize_path p) = parts_of p" "parts_of (normalize_path q) = parts_of q"
    by (simp_all add: norm_parts)
  have w: "wf_node (vfs_root v)" using v by (simp add: vfs_ok_root)
  show ?thesis
    using write_file_impl [OF v u'(2)] w
    by (auto simp: implements_def copy_def Let_def andThen_def read_file_spec [OF v u'(1)] pq spec_copy_def
        split: outcome.splits)
qed

lemma run_vop_impl:
  assumes v: "vfs_ok v" and u: "\<forall>p \<in> set (vop_paths c). unmounted v p"
  shows "implements (run_vop c) (spec_vop c) v"
proof -
  have lift: "implements (\<lambda>v. apfst f (c' v)) sp' v"
    if "implements c' sp v" "sp' (view (vfs_root v)) = apfst f (sp (view (vfs_root v)))"
    for f :: "'x vres \<Rightarrow> reply vres" and c' sp sp'
    using that by (auto simp: implements_def split: prod.splits)
  have w: "wf_node (vfs_root v)" using v by (simp add: vfs_ok_root)
  show ?thesis
  proof (cases c)
    case (WriteOp p d)
    then show ?thesis using u v by (simp, intro lift [OF write_file_impl]) auto
  next
    case (MkdirOp p b)
    then show ?thesis by (simp, intro lift [OF mkdir_impl [OF v]]) auto
  next
    case (RemoveOp p b)
    then show ?thesis using u v by (simp, intro lift [OF remove_impl]) auto
  next
    case (RenameOp p q)
    then show ?thesis using u v by (simp, intro lift [OF rename_impl]) auto
  next
    case (CopyOp p q)
    then show ?thesis using u v by (simp, intro lift [OF copy_impl]) auto
  qed (use u w v in \<open>simp_all add: implements_query read_file_spec list_dir_spec stat_spec\<close>)
qed

lemma spec_vop_root: "a [] = Some EDir \<Longrightarrow> snd (spec_vop c a) [] = Some EDir"
  by (cases c) (auto simp: spec_write_def spec_mkdir_def spec_mkdirs_def spec_remove_def
      spec_take_def spec_rename_def spec_place_def spec_copy_def overlay_def spec_read_def Let_def
      split: option.splits entry.splits DeviceKind.splits VfsError.splits if_splits prod.splits)

lemma run_vop_ok:
  assumes "vfs_ok v" "\<forall>p \<in> set (vop_paths c). unmounted v p" "run_vop c v = (r, v')"
  shows "vfs_ok v'"
  using run_vop_impl [OF assms(1,2)] spec_vop_root [of "view (vfs_root v)" c] assms(1,3)
  by (simp add: vfs_ok_root implements_def)

section \<open>Sequences of operations\<close>

fun run_vops :: "vop list \<Rightarrow> 'h Vfs \<Rightarrow> reply vres list \<times> 'h Vfs" where
  "run_vops [] v = ([], v)"
| "run_vops (c # cs) v = (case run_vop c v of (r, v') \<Rightarrow> apfst (Cons r) (run_vops cs v'))"

fun spec_vops :: "vop list \<Rightarrow> afs \<Rightarrow> reply vres list \<times> afs" where
  "spec_vops [] a = ([], a)"
| "spec_vops (c # cs) a = (case spec_vop c a of (r, a') \<Rightarrow> apfst (Cons r) (spec_vops cs a'))"

lemma run_vops_impl:
  assumes "vfs_ok v" "vfs_mounts v = []"
  shows "spec_vops cs (view (vfs_root v)) = apsnd (\<lambda>v'. view (vfs_root v')) (run_vops cs v)
     \<and> vfs_ok (snd (run_vops cs v))"
  using assms
proof (induction cs arbitrary: v)
  case (Cons c cs)
  have u: "\<forall>p \<in> set (vop_paths c). unmounted v p" using Cons.prems(2) by (simp add: unmounted_def)
  obtain r v' where c: "run_vop c v = (r, v')" by fastforce
  have "vfs_ok v'" by (rule run_vop_ok [OF Cons.prems(1) u c])
  moreover have "vfs_mounts v' = []" "spec_vop c (view (vfs_root v)) = (r, view (vfs_root v'))"
    using run_vop_impl [OF Cons.prems(1) u] c Cons.prems(2) by (auto simp: implements_def)
  ultimately show ?case
    using Cons.IH [of v'] c by (cases "run_vops cs v'") simp
qed simp

text \<open>No abstract operation panics, so none of the code's does on a filesystem that is well formed.\<close>

definition returns :: "('a, 'e) outcome \<Rightarrow> bool" where
  "returns r \<longleftrightarrow> (\<exists>a. r = Ok a) \<or> (\<exists>e. r = Err e)"

lemma returns_simps [simp]:
  "returns (Ok a)" "returns (Err e)" "\<not> returns Panic" "\<not> returns OutOfFuel" "\<not> returns SourceLimit"
  by (simp_all add: returns_def)

lemma spec_vop_returns: "returns (fst (spec_vop c a))"
  by (cases c) (auto simp: spec_write_def spec_mkdir_def spec_mkdirs_def spec_remove_def
      spec_take_def spec_rename_def spec_place_def spec_copy_def spec_read_def spec_list_def
      spec_stat_def map_ok_def
      split: option.splits entry.splits DeviceKind.splits VfsError.splits prod.splits)

lemma spec_vops_returns: "\<forall>r \<in> set (fst (spec_vops cs a)). returns r"
  by (induction cs arbitrary: a)
     (auto split: prod.splits, metis fst_conv spec_vop_returns)

text \<open>The filesystem a new shell starts with.\<close>

definition init_tree :: VfsNode where
  "init_tree = Dir [
     (''bin'', Dir []),
     (''dev'', Dir [(''null'', Device DevNull), (''stderr'', Device DevStderr),
        (''stdin'', Device DevStdin), (''stdout'', Device DevStdout)]),
     (''etc'', Dir []), (''home'', Dir []), (''tmp'', Dir []),
     (''usr'', Dir [(''bin'', Dir []), (''local'', Dir [(''bin'', Dir [])])])]"

lemma vfs_init_eval: "vfs_init (Dir []) = (Ok (), init_tree)"
  by code_simp

lemma init_tree_wf: "wf_node init_tree"
  by code_simp

lemma vfs_new_eval: "vfs_new h = (Ok (), \<lparr>vfs_root = init_tree, vfs_mounts = [], vfs_host = h\<rparr>)"
  by (simp add: vfs_new_def on_root_def vfs_init_eval)

lemma vfs_new_ok: "vfs_ok (snd (vfs_new h))" "vfs_mounts (snd (vfs_new h)) = []"
  by (simp_all add: vfs_new_eval vfs_ok_root init_tree_wf) (simp add: init_tree_def)

section \<open>Operations with mounts\<close>

definition mount_returns :: "'h MountPoint \<Rightarrow> bool" where
  "mount_returns m \<longleftrightarrow> (\<forall>p d h. returns (fst (mp_read m p h)) \<and> returns (fst (mp_write m p d h))
     \<and> returns (fst (mp_list m p h)) \<and> returns (fst (mp_stat m p h)) \<and> returns (fst (mp_remove m p h)))"

lemma find_mount_in: "find_mount ms p = Some (e, rel) \<Longrightarrow> e \<in> set ms"
  by (induction ms p rule: find_mount.induct) (auto simp: Let_def split: if_splits)

lemma on_host_eq: "on_host f v = (fst (f (vfs_host v)), v\<lparr>vfs_host := snd (f (vfs_host v))\<rparr>)"
  by (simp add: on_host_def split: prod.split)

lemma vfs_ok_host [simp]: "vfs_ok (v\<lparr>vfs_host := h\<rparr>) = vfs_ok v"
  by (simp add: vfs_ok_def)

text \<open>What holds of every operation: it returns, and it keeps the tree and the mount table.\<close>

definition total_op :: "('h, 'a) vact \<Rightarrow> 'h Vfs \<Rightarrow> bool" where
  "total_op c v \<longleftrightarrow> returns (fst (c v)) \<and> vfs_ok (snd (c v)) \<and> vfs_mounts (snd (c v)) = vfs_mounts v"

lemma total_on_host: "vfs_ok v \<Longrightarrow> returns (fst (f (vfs_host v))) \<Longrightarrow> total_op (on_host f) v"
  by (simp add: total_op_def on_host_eq)

lemma total_apfst: "total_op c v \<Longrightarrow> total_op (\<lambda>v. apfst (map_ok f) (c v)) v"
  by (cases "c v") (auto simp: total_op_def map_ok_def split: outcome.split)

lemma total_vop_unmounted:
  "vfs_ok v \<Longrightarrow> \<forall>p \<in> set (vop_paths c). unmounted v p \<Longrightarrow> total_op (run_vop c) v"
  using run_vop_impl [of v c] run_vop_ok [of v c] spec_vop_returns [of c "view (vfs_root v)"]
  by (cases "run_vop c v") (auto simp: total_op_def implements_def)

lemma mounted_read_write:
  assumes v: "vfs_ok v" and m: "\<forall>e \<in> set (vfs_mounts v). mount_returns (me_point e)"
  shows "total_op (read_file p) v" "total_op (write_file p d) v"
proof -
  have "total_op (\<lambda>v. apfst (map_ok RBytes) (read_file p v)) v" if "unmounted v p"
    using total_vop_unmounted [OF v, of "ReadOp p"] that by simp
  moreover have "total_op (\<lambda>v. apfst (map_ok (\<lambda>_. RUnit)) (write_file p d v)) v" if "unmounted v p"
    using total_vop_unmounted [OF v, of "WriteOp p d"] that by simp
  moreover have "total_op (read_file p) v \<and> total_op (write_file p d) v" if "\<not> unmounted v p"
  proof -
    from that obtain e rel where f: "find_mount (vfs_mounts v) (normalize_path p) = Some (e, rel)"
      by (auto simp: unmounted_def)
    then have "mount_returns (me_point e)" using m find_mount_in by blast
    then have "total_op (on_host (mp_read (me_point e) rel)) v"
      "total_op (on_host (mp_write (me_point e) rel d)) v"
      using v by (auto intro!: total_on_host simp: mount_returns_def)
    then show ?thesis using f by (simp add: total_op_def read_file_def write_file_def Let_def)
  qed
  moreover have "returns (map_ok f r) = returns r" for f :: "'x \<Rightarrow> 'y" and r :: "'x vres"
    by (cases r) (auto simp: map_ok_def)
  ultimately show "total_op (read_file p) v" "total_op (write_file p d) v"
    by (cases "unmounted v p"; cases "read_file p v"; cases "write_file p d v";
        force simp: total_op_def)+
qed

lemma total_vop:
  assumes v: "vfs_ok v" and m: "\<forall>e \<in> set (vfs_mounts v). mount_returns (me_point e)"
  shows "total_op (run_vop c) v"
proof (cases "\<forall>p \<in> set (vop_paths c). unmounted v p")
  case True
  then show ?thesis by (rule total_vop_unmounted [OF v])
next
  case False
  have host: "total_op c' v"
    if "\<not> unmounted v p" "\<And>e rel. find_mount (vfs_mounts v) (normalize_path p) = Some (e, rel) \<Longrightarrow>
        c' v = on_host (sel (me_point e) rel) v"
      "\<And>mp rel h. mount_returns mp \<Longrightarrow> returns (fst (sel mp rel h))"
    for c' :: "('a, 'x) vact" and p sel
  proof -
    from that(1) obtain e rel where f: "find_mount (vfs_mounts v) (normalize_path p) = Some (e, rel)"
      by (auto simp: unmounted_def)
    then have "mount_returns (me_point e)" using m find_mount_in by blast
    then show ?thesis
      using total_on_host [OF v, of "sel (me_point e) rel"] that(2) [OF f] that(3)
      by (simp add: total_op_def)
  qed
  show ?thesis
  proof (cases c)
    case (ReadOp p)
    then show ?thesis using mounted_read_write [OF v m] by (simp add: total_apfst)
  next
    case (ListOp p)
    then have "total_op (list_dir p) v"
      using False by (intro host [of p _ mp_list]) (auto simp: list_dir_def Let_def mount_returns_def)
    then show ?thesis using ListOp by (simp add: total_apfst)
  next
    case (StatOp p)
    then have "total_op (stat p) v"
      using False by (intro host [of p _ mp_stat]) (auto simp: stat_def Let_def mount_returns_def)
    then show ?thesis using StatOp by (simp add: total_apfst)
  next
    case (WriteOp p d)
    then show ?thesis using mounted_read_write [OF v m] by (simp add: total_apfst)
  next
    case (MkdirOp p b)
    then show ?thesis using False by simp
  next
    case (RemoveOp p b)
    then have "total_op (remove p b) v"
      using False by (intro host [of p _ mp_remove]) (auto simp: remove_def Let_def mount_returns_def)
    then show ?thesis using RemoveOp by (simp add: total_apfst)
  next
    case (RenameOp p q)
    then have "rename p q v = (Err (MountErr ''rename across mount points not supported''), v)"
      using False by (auto simp: rename_def Let_def unmounted_def)
    then have "total_op (rename p q) v" using v by (simp add: total_op_def)
    then show ?thesis using RenameOp by (simp add: total_apfst)
  next
    case (CopyOp p q)
    have r: "total_op (read_file (normalize_path p)) v" by (rule mounted_read_write [OF v m])
    obtain res v' where rv: "read_file (normalize_path p) v = (res, v')" by fastforce
    have w: "total_op (write_file (normalize_path q) d) v'" for d
      using r rv m by (intro mounted_read_write) (auto simp: total_op_def)
    have "total_op (copy p q) v"
      using r w rv by (cases res) (auto simp: total_op_def copy_def Let_def andThen_def)
    then show ?thesis using CopyOp by (simp add: total_apfst)
  qed
qed

section \<open>The mount table\<close>

text \<open>
  The mount at the segments \<open>vs\<close> serves the path at \<open>ps\<close>: its own path, and everything below
  it, but below the root only the root itself, because the test looks for a slash right after the
  mount's path.
\<close>

definition serves :: "string list \<Rightarrow> string list \<Rightarrow> bool" where
  "serves vs ps \<longleftrightarrow> vs = ps \<or> vs \<noteq> [] \<and> prefix vs ps"

definition mounts_ok :: "'h MountEntry list \<Rightarrow> bool" where
  "mounts_ok ms \<longleftrightarrow> (\<forall>e \<in> set ms. canonical (me_vpath e)) \<and> distinct (map me_vpath ms)
     \<and> sorted_wrt (\<lambda>e f. length (me_vpath e) \<ge> length (me_vpath f)) ms"

lemma path_of_append:
  "vs \<noteq> [] \<Longrightarrow> rs \<noteq> [] \<Longrightarrow> path_of (vs @ rs) = path_of vs @ path_of rs"
proof (induction rs rule: rev_induct)
  case (snoc r rs)
  then show ?case
    by (cases "rs = []") (auto simp: path_of_def join_snoc simp flip: append_assoc)
qed simp

lemma path_below:
  assumes "list_all good_seg vs" "list_all good_seg ps" "vs \<noteq> []"
    and "path_of ps = path_of vs @ SLASH # r"
  shows "prefix vs ps"
proof -
  have "ps \<noteq> []" using assms by (auto simp: path_of_def split: if_splits)
  then have "[] # ps = split_on SLASH (path_of vs @ SLASH # r)"
    using split_path_of [of ps] assms by simp
  also have "\<dots> = ([] # vs) @ split_on SLASH r"
    using split_path_of [of vs] assms by (simp add: split_on_join_slash)
  finally show ?thesis by (simp add: prefix_def)
qed

lemma mount_test:
  assumes g: "list_all good_seg vs" "list_all good_seg ps"
  shows "(path_of ps = path_of vs \<or> starts_with (path_of ps) (path_of vs)
            \<and> length (path_of vs) < length (path_of ps) \<and> path_of ps ! length (path_of vs) = SLASH)
     \<longleftrightarrow> serves vs ps"
proof
  assume "serves vs ps"
  then consider "vs = ps" | rs where "vs \<noteq> []" "ps = vs @ rs" "rs \<noteq> []"
    by (auto simp: serves_def prefix_def)
  then show "path_of ps = path_of vs \<or> starts_with (path_of ps) (path_of vs)
      \<and> length (path_of vs) < length (path_of ps) \<and> path_of ps ! length (path_of vs) = SLASH"
  proof cases
    case (2 rs)
    then show ?thesis
      by (auto simp: path_of_append nth_append starts_with_iff) (auto simp: path_of_def)
  qed simp
next
  assume t: "path_of ps = path_of vs \<or> starts_with (path_of ps) (path_of vs)
      \<and> length (path_of vs) < length (path_of ps) \<and> path_of ps ! length (path_of vs) = SLASH"
  show "serves vs ps"
  proof (cases "path_of ps = path_of vs")
    case True
    then show ?thesis using g path_of_inj by (auto simp: serves_def)
  next
    case False
    with t obtain r where r: "path_of ps = path_of vs @ SLASH # r"
      by (auto simp: starts_with_iff nth_append neq_Nil_conv)
    have "vs \<noteq> []"
    proof
      assume "vs = []"
      with r have "[] # ps = [] # [] # split_on SLASH r"
        using split_path_of [of ps] g(2) by (cases "ps = []") (auto simp: path_of_def)
      then show False using g(2) by (auto simp: good_seg_def)
    qed
    then show ?thesis using path_below [OF g _ r] by (simp add: serves_def)
  qed
qed

definition served :: "'h MountEntry \<Rightarrow> string list \<Rightarrow> bool" where
  "served e ps \<longleftrightarrow> serves (parts_of (me_vpath e)) ps"

lemma find_mount_served:
  assumes "\<forall>e \<in> set ms. canonical (me_vpath e)" "list_all good_seg ps"
  shows "find_mount ms (path_of ps) =
     map_option (\<lambda>e. (e, drop (length (me_vpath e)) (path_of ps))) (find (\<lambda>e. served e ps) ms)"
  using assms(1)
proof (induction ms)
  case (Cons e ms)
  obtain vs where vs: "list_all good_seg vs" "me_vpath e = path_of vs"
    using Cons.prems by (auto simp: canonical_def)
  show ?case
    using Cons mount_test [OF vs(1) assms(2)] vs by (auto simp: Let_def served_def)
qed simp

lemma find_sorted:
  assumes "sorted_wrt R xs" "find P xs = Some x" "y \<in> set xs" "P y"
  shows "y = x \<or> R x y"
  using assms by (induction xs) (auto split: if_splits)

lemma add_mount_ok:
  assumes "mounts_ok (vfs_mounts v)"
  shows "mounts_ok (vfs_mounts (add_mount p pt v))"
proof -
  let ?e = "\<lparr>me_vpath = normalize_path p, me_point = pt\<rparr>"
  let ?k = "\<lambda>m. - int (length (me_vpath m))"
  let ?l = "filter (\<lambda>m. me_vpath m \<noteq> normalize_path p) (vfs_mounts v) @ [?e]"
  have "sorted (map ?k (sort_key ?k ?l))" by simp
  then have "sorted_wrt (\<lambda>e f. length (me_vpath e) \<ge> length (me_vpath f)) (sort_key ?k ?l)"
    by (simp add: sorted_map)
  moreover have "distinct (map me_vpath ?l)"
    using assms by (auto simp: mounts_ok_def distinct_map_filter)
  then have "distinct (map me_vpath (sort_key ?k ?l))"
    by (simp only: distinct_map distinct_sort set_sort)
  moreover have "\<forall>e \<in> set (sort_key ?k ?l). canonical (me_vpath e)"
    using assms by (auto simp: mounts_ok_def)
  ultimately show ?thesis by (simp add: mounts_ok_def add_mount_def Let_def)
qed

lemma length_path_of_mono:
  assumes "serves vs ps" "serves ws ps" "length (path_of ws) \<le> length (path_of vs)"
  shows "length ws \<le> length vs"
proof (rule ccontr)
  assume "\<not> length ws \<le> length vs"
  moreover have "prefix vs ps" "prefix ws ps" using assms by (auto simp: serves_def)
  ultimately have "prefix vs ws" "vs \<noteq> ws"
    using prefix_same_cases [of vs ps ws] prefix_length_le [of ws vs] by auto
  then obtain rs where rs: "ws = vs @ rs" "rs \<noteq> []" by (auto simp: prefix_def)
  show False
  proof (cases "vs = []")
    case True
    then have "ps = []" using assms(1) by (simp add: serves_def)
    then have "ws = []" using \<open>prefix ws ps\<close> by simp
    then show ?thesis using rs by simp
  next
    case False
    have "length (path_of rs) > 0" by (simp add: path_of_def)
    moreover have "length (path_of ws) = length (path_of vs) + length (path_of rs)"
      using path_of_append [OF False rs(2)] rs(1) by simp
    ultimately show ?thesis using assms(3) by linarith
  qed
qed

section \<open>Properties\<close>

text \<open>
  C1: the filesystem implements its contract. On the filesystem a new shell starts with, every
  sequence of operations (reads, listings, stats, writes, \<open>mkdir\<close> with and without \<open>-p\<close>,
  removals, renames, copies) returns exactly the replies, errors included, of the abstract map
  from paths to entries, ends with a tree denoting the abstract map, keeps the tree well formed,
  and never panics.
\<close>

theorem vfs_refines_spec:
  "fst (vfs_new h) = Ok () \<and>
   spec_vops cs (view init_tree)
     = apsnd (\<lambda>v. view (vfs_root v)) (run_vops cs (snd (vfs_new h)))
   \<and> vfs_ok (snd (run_vops cs (snd (vfs_new h))))
   \<and> list_all returns (fst (run_vops cs (snd (vfs_new h))))"
proof -
  let ?v = "snd (vfs_new h)"
  have root: "vfs_root ?v = init_tree" by (simp add: vfs_new_eval)
  note run = run_vops_impl [OF vfs_new_ok, of cs h, unfolded root]
  have "fst (run_vops cs ?v) = fst (spec_vops cs (view init_tree))"
    unfolding conjunct1 [OF run] by simp
  then have "list_all returns (fst (run_vops cs ?v))"
    using spec_vops_returns [of cs "view init_tree"] by (simp only: list_all_iff)
  moreover have "fst (vfs_new h) = Ok ()" by (simp add: vfs_new_eval)
  ultimately show ?thesis using run by (simp only: simp_thms)
qed

text \<open>
  C31: every operation on a well-formed filesystem, with any mount table whose callbacks return,
  itself returns a value or an error, never a panic (the \<open>unwrap\<close> of the parent split cannot
  fire), keeps the tree well formed and leaves the mount table as it was.
\<close>

theorem vfs_op_total:
  assumes "vfs_ok v" "\<forall>e \<in> set (vfs_mounts v). mount_returns (me_point e)"
  shows "returns (fst (run_vop c v)) \<and> vfs_ok (snd (run_vop c v))
     \<and> vfs_mounts (snd (run_vop c v)) = vfs_mounts v"
  using total_vop [OF assms, of c] by (simp add: total_op_def)

definition refusing_mount :: "unit MountPoint" where
  "refusing_mount = \<lparr>mp_read = \<lambda>p. fail (MountErr p), mp_write = \<lambda>p d. fail (MountErr p),
     mp_list = \<lambda>p. ret [], mp_stat = \<lambda>p. fail (NotFound p), mp_remove = \<lambda>p. fail (MountErr p)\<rparr>"

theorem vfs_op_total_witness:
  "returns (fst (run_vop (CopyOp ''/tmp/a'' ''/mnt/b'') (add_mount ''/mnt'' refusing_mount (snd (vfs_new ())))))"
proof -
  let ?v = "add_mount ''/mnt'' refusing_mount (snd (vfs_new ()))"
  have "vfs_ok ?v" using vfs_new_ok(1) [of "()"] by (simp add: vfs_ok_def add_mount_def Let_def)
  moreover have "\<forall>e \<in> set (vfs_mounts ?v). mount_returns (me_point e)"
    by (simp add: add_mount_def Let_def vfs_new_eval mount_returns_def refusing_mount_def)
  ultimately show ?thesis using vfs_op_total [of ?v "CopyOp ''/tmp/a'' ''/mnt/b''"] by simp
qed

text \<open>
  C35: the mount table. However mounts are added, the table stays sorted with the longest path
  first and with one entry for a path; on such a table \<open>find_mount\<close> finds an entry exactly when
  some mount serves the path, it is the one with the most segments, and what it passes on is the
  rest of the path.
\<close>

theorem find_mount_longest:
  assumes "mounts_ok ms" "list_all good_seg ps"
  shows "(case find_mount ms (path_of ps) of
       None \<Rightarrow> \<forall>e \<in> set ms. \<not> served e ps
     | Some (e, rel) \<Rightarrow> e \<in> set ms \<and> served e ps
         \<and> (\<forall>f \<in> set ms. served f ps \<longrightarrow> length (parts_of (me_vpath f)) \<le> length (parts_of (me_vpath e)))
         \<and> path_of ps = me_vpath e @ rel)
     \<and> mounts_ok (vfs_mounts (add_mount p pt \<lparr>vfs_root = n, vfs_mounts = ms, vfs_host = h\<rparr>))"
proof -
  have can: "\<forall>e \<in> set ms. canonical (me_vpath e)" using assms(1) by (simp add: mounts_ok_def)
  note fm = find_mount_served [OF can assms(2)]
  have some: "e \<in> set ms \<and> served e ps
         \<and> (\<forall>f \<in> set ms. served f ps \<longrightarrow> length (parts_of (me_vpath f)) \<le> length (parts_of (me_vpath e)))
         \<and> path_of ps = me_vpath e @ drop (length (me_vpath e)) (path_of ps)"
    if f: "find (\<lambda>e. served e ps) ms = Some e" for e
  proof -
    have e: "e \<in> set ms" "served e ps" using f by (auto simp: find_Some_iff)
    have vpath: "me_vpath f = path_of (parts_of (me_vpath f))" if "f \<in> set ms" for f
      using can that normalize_canonical by (metis normalize_path_parts)
    have "length (me_vpath f) \<le> length (me_vpath e)" if "f \<in> set ms" "served f ps" for f
      using find_sorted [OF _ f that] assms(1) by (auto simp: mounts_ok_def)
    then have len: "length (parts_of (me_vpath f)) \<le> length (parts_of (me_vpath e))"
      if "f \<in> set ms" "served f ps" for f
      using that e length_path_of_mono [of "parts_of (me_vpath e)" ps "parts_of (me_vpath f)"] vpath
      unfolding served_def by metis
    have "starts_with (path_of ps) (me_vpath e)"
      using mount_test [of "parts_of (me_vpath e)" ps] assms(2) e vpath [OF e(1)]
      by (auto simp: served_def starts_with_iff)
    then show ?thesis using e len by (auto simp: starts_with_iff)
  qed
  have "mounts_ok (vfs_mounts (add_mount p pt \<lparr>vfs_root = n, vfs_mounts = ms, vfs_host = h\<rparr>))"
    using assms(1) by (intro add_mount_ok) simp
  moreover have "find (\<lambda>e. served e ps) ms = None \<Longrightarrow> \<forall>e \<in> set ms. \<not> served e ps"
    by (simp add: find_None_iff)
  ultimately show ?thesis
    using some unfolding fm by (cases "find (\<lambda>e. served e ps) ms") simp_all
qed

theorem find_mount_longest_witness:
  "map_option snd (find_mount (vfs_mounts (add_mount ''/mnt/a'' refusing_mount
      (add_mount ''/mnt'' refusing_mount (snd (vfs_new ()))))) ''/mnt/a/b'') = Some ''/b''"
proof -
  let ?ms = "vfs_mounts (add_mount ''/mnt/a'' refusing_mount
      (add_mount ''/mnt'' refusing_mount (snd (vfs_new ()))))"
  have ok: "mounts_ok ?ms" by (intro add_mount_ok) (simp add: vfs_new_eval mounts_ok_def)
  have g: "list_all good_seg [''mnt'', ''a'', ''b'']" by code_simp
  have p: "path_of [''mnt'', ''a'', ''b''] = ''/mnt/a/b''" by code_simp
  note F = find_mount_longest [OF ok g, unfolded p, of "''/x''" refusing_mount "Dir []" "()"]
  have ms: "me_vpath ` set ?ms = {''/mnt/a'', ''/mnt''}" by code_simp
  have deep: "serves (parts_of ''/mnt/a'') [''mnt'', ''a'', ''b'']" by code_simp
  have "''/mnt/a'' \<in> me_vpath ` set ?ms" unfolding ms by simp
  then obtain f where f: "f \<in> set ?ms" "me_vpath f = ''/mnt/a''" by auto
  then have sf: "served f [''mnt'', ''a'', ''b'']" using deep by (simp add: served_def)
  show ?thesis
  proof (cases "find_mount ?ms ''/mnt/a/b''")
    case None
    then show ?thesis using F f sf by simp
  next
    case (Some x)
    obtain e rel where x: "x = (e, rel)" by fastforce
    have e: "e \<in> set ?ms" and len: "length (parts_of (me_vpath f)) \<le> length (parts_of (me_vpath e))"
      and rest: "''/mnt/a/b'' = me_vpath e @ rel"
      using F f(1) sf unfolding Some x option.case prod.case by blast+
    have "me_vpath e \<in> {''/mnt/a'', ''/mnt''}" unfolding ms [symmetric] using e by (rule imageI)
    moreover have "\<not> length (parts_of ''/mnt/a'') \<le> length (parts_of ''/mnt'')" by code_simp
    ultimately have "me_vpath e = ''/mnt/a''" using len f(2) by auto
    then show ?thesis using rest Some x by simp
  qed
qed

lemma write_reads_back:
  assumes "vfs_ok v" "unmounted v p" "write_file p d v = (Ok (), v')"
    and "\<forall>k. view (vfs_root v) (parts_of p) \<noteq> Some (EDev k)"
  shows "(normalize_path q = normalize_path p \<longrightarrow> read_file q v' = (Ok d, v'))
     \<and> (normalize_path q \<noteq> normalize_path p \<longrightarrow> unmounted v q
          \<longrightarrow> (\<forall>x. fst (read_file q v') = Ok x \<longleftrightarrow> fst (read_file q v) = Ok x)
            \<and> (\<forall>s. fst (stat q v') = Ok s \<longleftrightarrow> fst (stat q v) = Ok s))"
proof -
  have impl: "spec_write (parts_of p) d (view (vfs_root v)) = (Ok (), view (vfs_root v'))"
      "vfs_mounts v' = vfs_mounts v"
    using write_file_impl [OF assms(1,2), of d] assms(3) by (auto simp: implements_def)
  have ok': "vfs_ok v'"
    using run_vop_ok [OF assms(1), of "WriteOp p d"] assms by simp
  have upd: "view (vfs_root v') = (view (vfs_root v))(parts_of p \<mapsto> EFile d)"
    using impl(1) assms(4)
    by (auto simp: spec_write_def split: option.splits entry.splits if_splits VfsError.splits)
  have um: "unmounted v' q \<longleftrightarrow> unmounted v q" for q using impl(2) by (simp add: unmounted_def)
  have same: "parts_of q = parts_of p \<longleftrightarrow> normalize_path q = normalize_path p"
    by (simp add: norm_parts path_of_inj)
  show ?thesis
  proof (intro conjI impI)
    assume q: "normalize_path q = normalize_path p"
    then have "unmounted v' q" using assms(2) um by (simp add: unmounted_def)
    then show "read_file q v' = (Ok d, v')"
      using read_file_spec [OF ok'] upd q same by (simp add: spec_read_def)
  next
    assume q: "normalize_path q \<noteq> normalize_path p" "unmounted v q"
    then have "unmounted v' q" "view (vfs_root v') (parts_of q) = view (vfs_root v) (parts_of q)"
      using um upd same by auto
    then show "\<forall>x. fst (read_file q v') = Ok x \<longleftrightarrow> fst (read_file q v) = Ok x"
      "\<forall>s. fst (stat q v') = Ok s \<longleftrightarrow> fst (stat q v) = Ok s"
      using q ok' assms(1)
      by (auto simp: read_file_spec stat_spec spec_read_def spec_stat_def
          split: option.split entry.split DeviceKind.split)
  qed
qed

text \<open>
  C33: a file reads back as it was written, and nothing else changes: after a successful write to
  a path that is not a device, a read of the path, however spelled, returns the bytes, and what
  another path reads as or stats as, if it does, is what it was before.
\<close>

theorem write_then_read:
  assumes "vfs_ok v" "unmounted v p" "write_file p d v = (Ok (), v')"
    and "\<forall>k. view (vfs_root v) (parts_of p) \<noteq> Some (EDev k)"
  shows "(normalize_path q = normalize_path p \<longrightarrow> read_file q v' = (Ok d, v'))
     \<and> (normalize_path q \<noteq> normalize_path p \<longrightarrow> unmounted v q
          \<longrightarrow> (\<forall>x. fst (read_file q v') = Ok x \<longleftrightarrow> fst (read_file q v) = Ok x)
            \<and> (\<forall>s. fst (stat q v') = Ok s \<longleftrightarrow> fst (stat q v) = Ok s))"
  by (rule write_reads_back [OF assms])

theorem write_then_read_witness:
  "fst (write_file ''/tmp/a'' ''hi'' (snd (vfs_new ()))) = Ok () \<and>
   fst (read_file ''tmp/./a'' (snd (write_file ''/tmp/a'' ''hi'' (snd (vfs_new ()))))) = Ok ''hi''"
proof -
  let ?v = "snd (vfs_new ())"
  have u: "unmounted ?v ''/tmp/a''" by (simp add: unmounted_def vfs_new_ok)
  have w: "write_file ''/tmp/a'' ''hi'' ?v = (Ok (), snd (write_file ''/tmp/a'' ''hi'' ?v))"
  proof -
    have "fst (write_file ''/tmp/a'' ''hi'' ?v) = Ok ()" by code_simp
    then show ?thesis by (metis prod.collapse)
  qed
  have d: "\<forall>k. view (vfs_root ?v) (parts_of ''/tmp/a'') \<noteq> Some (EDev k)"
    by (simp add: vfs_new_eval init_tree_def parts_of_def norm_step_def)
  have n: "normalize_path ''tmp/./a'' = normalize_path ''/tmp/a''" by code_simp
  show ?thesis
    using write_then_read [OF vfs_new_ok(1) u w d, of "''tmp/./a''"] n w by (metis fst_conv)
qed

text \<open>
  C40: a rename is not atomic. It takes the source out of the tree before it looks at the
  destination, so when the destination cannot be placed (its parent is missing, or is a file, or is
  inside the renamed directory) it returns an error and the source is gone.
\<close>

theorem rename_failure_loses_source:
  assumes "vfs_ok v" "unmounted v p" "unmounted v q"
    and "view (vfs_root v) (parts_of p) \<noteq> None" "parts_of p \<noteq> []" "parts_of q \<noteq> []"
    and "view (vfs_root v) (butlast (parts_of q)) \<noteq> Some EDir \<or> prefix (parts_of p) (butlast (parts_of q))"
    and "rename p q v = (r, v')"
  shows "(\<exists>e. r = Err e) \<and> (\<forall>cs. view (vfs_root v') (parts_of p @ cs) = None)"
proof -
  let ?a = "view (vfs_root v)" and ?ps = "parts_of p" and ?qs = "parts_of q"
  have "?a (butlast ?ps) = Some EDir"
    using assms(4,5) view_prefix_dir [of "vfs_root v" "butlast ?ps" "last ?ps" "[]"] by auto
  then have take: "spec_take ?ps ?a = (Ok (), overlay ?a ?ps (\<lambda>_. None))"
    using assms(4,5) by (simp add: spec_take_def)
  have "spec_rename ?ps ?qs ?a = (r, view (vfs_root v'))"
    using rename_impl [OF assms(1,2,3)] assms(8) by (simp add: implements_def)
  moreover have "overlay ?a ?ps (\<lambda>_. None) (butlast ?qs) \<noteq> Some EDir"
    using assms(7) by (auto simp: overlay_def)
  ultimately have "(\<exists>e. r = Err e)" "view (vfs_root v') = overlay ?a ?ps (\<lambda>_. None)"
    using assms(6) unfolding spec_rename_def take by (auto simp: spec_place_def)
  then show ?thesis by (simp add: overlay_def)
qed

theorem rename_failure_loses_source_witness:
  "\<exists>v :: unit Vfs. view (vfs_root (snd (rename ''/tmp'' ''/no/tmp'' v))) [''tmp''] = None
     \<and> view (vfs_root v) [''tmp''] = Some EDir"
proof -
  let ?v = "snd (vfs_new ())"
  have u: "unmounted ?v x" for x by (simp add: unmounted_def vfs_new_ok)
  have p: "parts_of ''/tmp'' = [''tmp'']" "parts_of ''/no/tmp'' = [''no'', ''tmp'']" by code_simp+
  have t: "view (vfs_root ?v) [''tmp''] = Some EDir" "view (vfs_root ?v) [''no''] \<noteq> Some EDir"
    by (simp_all add: vfs_new_eval init_tree_def)
  obtain r v' where r: "rename ''/tmp'' ''/no/tmp'' ?v = (r, v')" by fastforce
  have "view (vfs_root v') ([''tmp''] @ []) = None"
    using rename_failure_loses_source [OF vfs_new_ok(1) u u, of "''/tmp''" "''/no/tmp''", unfolded p, OF _ _ _ _ r]
      t by simp
  then show ?thesis using t r by (intro exI [of _ ?v]) simp
qed

end
