(* ===== verification/Arith.thy ===== *)
theory Arith
  imports Utf8 "HOL-Library.Signed_Division"
begin

text \<open>
  The arithmetic of \<open>expand.rs\<close>: substitution of variables in the text of \<open>$((..))\<close>, the
  tokens, the precedence-climbing parser that evaluates as it parses, and \<open>i64\<close> arithmetic. The
  flag \<open>oc\<close> is the build's overflow checks: on in a debug build, where an overflowing operation
  panics, off in a release build, where it wraps; the division of the least number by \<open>-1\<close>
  panics in both.
\<close>

section \<open>Signed 64-bit arithmetic\<close>

definition i64_ok :: "int \<Rightarrow> bool" where
  "i64_ok x \<longleftrightarrow> - (2 ^ 63) \<le> x \<and> x < 2 ^ 63"

definition wrap64 :: "int \<Rightarrow> int" where
  "wrap64 x = (x + 2 ^ 63) mod 2 ^ 64 - 2 ^ 63"

type_synonym 'a ares = "('a, string) outcome"

definition i64_result :: "bool \<Rightarrow> int \<Rightarrow> int ares" where
  "i64_result oc x = (if i64_ok x then Ok x else if oc then Panic else Ok (wrap64 x))"

datatype ATok = ANum int | Plus | Minus | Star | Slash | Percent | StarStar | LParen | RParen

text \<open>\<open>lhs.pow(rhs as u32)\<close>: the exponent is cut to 32 bits.\<close>

fun apply_binop :: "bool \<Rightarrow> ATok \<Rightarrow> int \<Rightarrow> int \<Rightarrow> int ares" where
  "apply_binop oc Plus lhs rhs = i64_result oc (lhs + rhs)"
| "apply_binop oc Minus lhs rhs = i64_result oc (lhs - rhs)"
| "apply_binop oc Star lhs rhs = i64_result oc (lhs * rhs)"
| "apply_binop oc Slash lhs rhs =
     (if rhs = 0 then Err ''division by zero''
      else if i64_ok (lhs sdiv rhs) then Ok (lhs sdiv rhs) else Panic)"
| "apply_binop oc Percent lhs rhs =
     (if rhs = 0 then Err ''modulo by zero''
      else if i64_ok (lhs sdiv rhs) then Ok (lhs smod rhs) else Panic)"
| "apply_binop oc StarStar lhs rhs =
     (if rhs < 0 then Ok 0 else i64_result oc (lhs ^ nat (rhs mod 2 ^ 32)))"
| "apply_binop oc _ lhs rhs = Panic"

section \<open>Variables\<close>

text \<open>A byte pushed as a \<open>char\<close> is the Latin-1 character, which above 127 takes two bytes.\<close>

definition latin1 :: "char \<Rightarrow> string" where
  "latin1 c = (if byte c < 128 then [c]
     else [char_of (192 + byte c div 64), char_of (128 + byte c mod 64)])"

type_synonym env = "(string, string) smap"

definition arith_var :: "env \<Rightarrow> string \<Rightarrow> string" where
  "arith_var env name = (case sm_get env name of Some v \<Rightarrow> v | None \<Rightarrow> ''0'')"

function expand_arith_vars :: "env \<Rightarrow> string \<Rightarrow> string" where
  "expand_arith_vars env [] = []"
| "expand_arith_vars env (c # s) =
     (if c = CHR ''$'' then
        (if s \<noteq> [] \<and> hd s = CHR ''{'' then
           arith_var env (takeWhile (\<lambda>c. c \<noteq> CHR ''}'') (tl s))
             @ expand_arith_vars env (drop 1 (dropWhile (\<lambda>c. c \<noteq> CHR ''}'') (tl s)))
         else
           (let name = takeWhile is_ident_char s in
            (if name = [] then [CHR ''$''] else arith_var env name)
              @ expand_arith_vars env (dropWhile is_ident_char s)))
      else latin1 c @ expand_arith_vars env s)"
  by pat_completeness auto
termination
proof (relation "measure (length \<circ> snd)")
  fix c :: char and s :: string
  have "length (dropWhile (\<lambda>c. c \<noteq> CHR ''}'') (tl s)) \<le> length (tl s)" by (rule length_dropWhile_le)
  then show "((env, drop 1 (dropWhile (\<lambda>c. c \<noteq> CHR ''}'') (tl s))), env, c # s) \<in> measure (length \<circ> snd)" for env :: env
    by simp
qed (auto simp: less_Suc_eq_le length_dropWhile_le)

section \<open>Tokens\<close>

definition cons_ok :: "'a \<Rightarrow> 'a list ares \<Rightarrow> 'a list ares" where
  "cons_ok x r = (case r of Ok xs \<Rightarrow> Ok (x # xs) | r \<Rightarrow> r)"

definition single_tok :: "char \<Rightarrow> ATok option" where
  "single_tok c =
     (if c = CHR ''+'' then Some Plus else if c = CHR ''-'' then Some Minus
      else if c = CHR ''/'' then Some Slash else if c = CHR ''%'' then Some Percent
      else if c = CHR ''('' then Some LParen else if c = CHR '')'' then Some RParen
      else None)"

function tokenize_arith :: "string \<Rightarrow> ATok list ares" where
  "tokenize_arith [] = Ok []"
| "tokenize_arith (c # s) =
     (if c = CHR '' '' \<or> c = TAB then tokenize_arith s
      else if is_ascii_digit c then
        (case parse_signed 64 (takeWhile is_ascii_digit (c # s)) of
           Some n \<Rightarrow> cons_ok (ANum n) (tokenize_arith (dropWhile is_ascii_digit (c # s)))
         | None \<Rightarrow> Err ''number too large to fit in target type'')
      else if c = CHR ''*'' then
        (if s \<noteq> [] \<and> hd s = CHR ''*'' then cons_ok StarStar (tokenize_arith (tl s))
         else cons_ok Star (tokenize_arith s))
      else (case single_tok c of
              Some t \<Rightarrow> cons_ok t (tokenize_arith s)
            | None \<Rightarrow> Err (''unexpected char in arithmetic: ''
                        @ debug_char (take (snd (utf8_step (c # s))) (c # s)))))"
  by pat_completeness auto
termination
  by (relation "measure length")
     (auto simp: less_Suc_eq_le intro: le_trans [OF length_dropWhile_le])

section \<open>The parser\<close>

definition tok_at :: "ATok list \<Rightarrow> nat \<Rightarrow> ATok option" where
  "tok_at ts pos = (if pos < length ts then Some (ts ! pos) else None)"

fun binding :: "ATok \<Rightarrow> (nat \<times> nat) option" where
  "binding Plus = Some (10, 11)"
| "binding Minus = Some (10, 11)"
| "binding Star = Some (20, 21)"
| "binding Slash = Some (20, 21)"
| "binding Percent = Some (20, 21)"
| "binding StarStar = Some (30, 29)"
| "binding _ = None"

fun debug_tok :: "ATok \<Rightarrow> string" where
  "debug_tok (ANum n) = ''Num('' @ show_int n @ '')''"
| "debug_tok Plus = ''Plus''"
| "debug_tok Minus = ''Minus''"
| "debug_tok Star = ''Star''"
| "debug_tok Slash = ''Slash''"
| "debug_tok Percent = ''Percent''"
| "debug_tok StarStar = ''StarStar''"
| "debug_tok LParen = ''LParen''"
| "debug_tok RParen = ''RParen''"

definition debug_tok_opt :: "ATok option \<Rightarrow> string" where
  "debug_tok_opt t = (case t of None \<Rightarrow> ''None'' | Some t \<Rightarrow> ''Some('' @ debug_tok t @ '')'')"

text \<open>
  \<open>parse_expr\<close> with its loop, and \<open>parse_prefix\<close>; the state is the position. The last
  argument is fuel.
\<close>

type_synonym aparse = "(nat, int, string) act"

fun parse_expr :: "bool \<Rightarrow> ATok list \<Rightarrow> nat \<Rightarrow> nat \<Rightarrow> aparse"
  and parse_loop :: "bool \<Rightarrow> ATok list \<Rightarrow> nat \<Rightarrow> int \<Rightarrow> nat \<Rightarrow> aparse"
  and parse_prefix :: "bool \<Rightarrow> ATok list \<Rightarrow> nat \<Rightarrow> aparse" where
  "parse_expr oc ts min_bp 0 = noFuel"
| "parse_expr oc ts min_bp (Suc k) =
     andThen (parse_prefix oc ts k) (\<lambda>lhs. parse_loop oc ts min_bp lhs k)"
| "parse_loop oc ts min_bp lhs 0 = noFuel"
| "parse_loop oc ts min_bp lhs (Suc k) =
     andThen (gets (tok_at ts)) (\<lambda>t.
       case t of
         None \<Rightarrow> ret lhs
       | Some op \<Rightarrow>
           (case binding op of
              None \<Rightarrow> ret lhs
            | Some (lbp, rbp) \<Rightarrow>
                if lbp < min_bp then ret lhs
                else andThen (modify Suc) (\<lambda>_.
                     andThen (parse_expr oc ts rbp k) (\<lambda>rhs.
                     andThen (lift_outcome (apply_binop oc op lhs rhs)) (\<lambda>lhs'.
                     parse_loop oc ts min_bp lhs' k)))))"
| "parse_prefix oc ts 0 = noFuel"
| "parse_prefix oc ts (Suc k) =
     andThen (gets (tok_at ts)) (\<lambda>t.
       case t of
         Some (ANum n) \<Rightarrow> andThen (modify Suc) (\<lambda>_. ret n)
       | Some Minus \<Rightarrow> andThen (modify Suc) (\<lambda>_.
           andThen (parse_prefix oc ts k) (\<lambda>val. lift_outcome (i64_result oc (- val))))
       | Some Plus \<Rightarrow> andThen (modify Suc) (\<lambda>_. parse_prefix oc ts k)
       | Some LParen \<Rightarrow> andThen (modify Suc) (\<lambda>_.
           andThen (parse_expr oc ts 0 k) (\<lambda>val.
           andThen (gets (tok_at ts)) (\<lambda>t.
             if t \<noteq> Some RParen then fail ''expected closing parenthesis''
             else andThen (modify Suc) (\<lambda>_. ret val))))
       | other \<Rightarrow> fail (''expected number or expression, got '' @ debug_tok_opt other))"

definition arith_fuel :: "ATok list \<Rightarrow> nat" where
  "arith_fuel ts = 3 * length ts + 2"

definition parse_arith :: "bool \<Rightarrow> string \<Rightarrow> int ares" where
  "parse_arith oc input =
     fst (andThen (lift_outcome (tokenize_arith input)) (\<lambda>ts.
       andThen (parse_expr oc ts 0 (arith_fuel ts)) (\<lambda>val.
       andThen (gets id) (\<lambda>pos.
         if pos \<noteq> length ts then fail (''unexpected token at position '' @ show_nat pos)
         else ret val))) 0)"

definition eval_arith :: "bool \<Rightarrow> string \<Rightarrow> env \<Rightarrow> int ares" where
  "eval_arith oc expr env =
     (case parse_arith oc (trim (expand_arith_vars env expr)) of
        Err e \<Rightarrow> Err (''arithmetic: '' @ e) | r \<Rightarrow> r)"

section \<open>Fuel, positions and ranges\<close>

lemma parse_fuel_le_all:
  "k \<le> k' \<Longrightarrow> (\<forall>bp. fuel_le (parse_expr oc ts bp k) (parse_expr oc ts bp k'))
     \<and> (\<forall>bp lhs. fuel_le (parse_loop oc ts bp lhs k) (parse_loop oc ts bp lhs k'))
     \<and> fuel_le (parse_prefix oc ts k) (parse_prefix oc ts k')"
proof (induction k arbitrary: k')
  case (Suc k)
  then obtain j where j: "k' = Suc j" "k \<le> j" by (cases k') auto
  have IH: "fuel_le (parse_expr oc ts bp k) (parse_expr oc ts bp j)"
    "fuel_le (parse_loop oc ts bp lhs k) (parse_loop oc ts bp lhs j)"
    "fuel_le (parse_prefix oc ts k) (parse_prefix oc ts j)" for bp lhs
    using Suc.IH [OF j(2)] by auto
  have "fuel_le (parse_expr oc ts bp (Suc k)) (parse_expr oc ts bp k')" for bp
    unfolding j parse_expr.simps by (intro fuel_intros IH)
  moreover have "fuel_le (parse_loop oc ts bp lhs (Suc k)) (parse_loop oc ts bp lhs k')" for bp lhs
    unfolding j parse_loop.simps(2)
    by (intro fuel_intros) (auto split: option.split intro!: fuel_intros IH)
  moreover have "fuel_le (parse_prefix oc ts (Suc k)) (parse_prefix oc ts k')"
    unfolding j parse_prefix.simps(2)
    by (intro fuel_intros) (auto split: option.split ATok.split intro!: fuel_intros IH)
  ultimately show ?case by blast
qed (simp add: fuel_le_noFuel)

lemma parse_fuel_le:
  assumes "k \<le> k'"
  shows "fuel_le (parse_expr oc ts bp k) (parse_expr oc ts bp k')"
    "fuel_le (parse_loop oc ts bp lhs k) (parse_loop oc ts bp lhs k')"
    "fuel_le (parse_prefix oc ts k) (parse_prefix oc ts k')"
  using parse_fuel_le_all [OF assms] by blast+

text \<open>
  What a parse does to the position and its value: with \<open>n\<close> tokens left and enough fuel it
  does not run out, it never goes back, a prefix consumes a token, and every value is an \<open>i64\<close>.
\<close>

definition parsed :: "ATok list \<Rightarrow> nat \<Rightarrow> int ares \<times> nat \<Rightarrow> bool" where
  "parsed ts lo x \<longleftrightarrow> fst x \<noteq> OutOfFuel \<and> fst x \<noteq> SourceLimit \<and>
     (\<forall>v. fst x = Ok v \<longrightarrow> lo \<le> snd x \<and> snd x \<le> length ts \<and> i64_ok v)"

definition toks_ok :: "ATok list \<Rightarrow> bool" where
  "toks_ok ts \<longleftrightarrow> (\<forall>n. ANum n \<in> set ts \<longrightarrow> i64_ok n)"

lemma wrap64_ok: "i64_ok (wrap64 x)"
proof -
  have "0 \<le> (x + 2 ^ 63) mod 2 ^ 64" "(x + 2 ^ 63) mod 2 ^ 64 < 2 ^ 64" by auto
  then show ?thesis by (simp add: i64_ok_def wrap64_def)
qed

lemma wrap64_id: "i64_ok x \<Longrightarrow> wrap64 x = x"
  by (simp add: i64_ok_def wrap64_def)

lemma i64_result_cases:
  "i64_result oc x = Panic \<or> (\<exists>v. i64_result oc x = Ok v \<and> i64_ok v)"
  by (simp add: i64_result_def wrap64_ok)

lemma smod_ok:
  assumes "i64_ok b" "b \<noteq> 0" shows "i64_ok (a smod b :: int)"
proof -
  have "\<bar>a smod b\<bar> < \<bar>b\<bar>"
    using assms(2) by (simp add: signed_modulo_int_def abs_mult sgn_if) 
  then show ?thesis using assms(1) by (auto simp: i64_ok_def abs_if split: if_splits)
qed

lemma apply_binop_cases:
  assumes "i64_ok b"
  shows "apply_binop oc op a b = Panic \<or> (\<exists>e. apply_binop oc op a b = Err e)
    \<or> (\<exists>v. apply_binop oc op a b = Ok v \<and> i64_ok v)"
proof (cases op)
  case Plus then show ?thesis using i64_result_cases [of oc "a + b"] by auto
next
  case Minus then show ?thesis using i64_result_cases [of oc "a - b"] by auto
next
  case Star then show ?thesis using i64_result_cases [of oc "a * b"] by auto
next
  case StarStar then show ?thesis
    using i64_result_cases [of oc "a ^ nat (b mod 2 ^ 32)"] by (auto simp: i64_ok_def)
qed (use smod_ok [OF assms] in auto)

lemma tok_at_Some: "tok_at ts pos = Some t \<Longrightarrow> pos < length ts \<and> t \<in> set ts"
  by (auto simp: tok_at_def split: if_splits)

lemma parsed_andThen:
  assumes "parsed ts lo (m s)" "\<And>v s'. i64_ok v \<Longrightarrow> lo \<le> s' \<Longrightarrow> s' \<le> length ts \<Longrightarrow> parsed ts hi (f v s')"
  shows "parsed ts hi (andThen m f s)"
  using assms by (cases "m s"; cases "fst (m s)") (auto simp: parsed_def andThen_def)

lemma parsed_lift:
  "apply_binop oc op a b = r \<Longrightarrow> i64_ok b \<Longrightarrow> s \<le> length ts \<Longrightarrow> parsed ts s (lift_outcome r s)"
  using apply_binop_cases [of b oc op a] by (auto simp: parsed_def)

lemma parsed_neg: "s \<le> length ts \<Longrightarrow> lo \<le> s \<Longrightarrow> parsed ts lo (i64_result oc x, s)"
  using i64_result_cases [of oc x] by (auto simp: parsed_def)

lemma parsed_weaken: "parsed ts lo x \<Longrightarrow> lo' \<le> lo \<Longrightarrow> parsed ts lo' x"
  by (auto simp: parsed_def)

lemma parse_enough:
  assumes ok: "toks_ok ts"
  shows "3 * (length ts - pos) + 2 \<le> k \<Longrightarrow> pos \<le> length ts \<Longrightarrow> parsed ts (Suc pos) (parse_expr oc ts bp k pos)"
    "3 * (length ts - pos) + 1 \<le> k \<Longrightarrow> pos \<le> length ts \<Longrightarrow> i64_ok lhs \<Longrightarrow> parsed ts pos (parse_loop oc ts bp lhs k pos)"
    "3 * (length ts - pos) + 1 \<le> k \<Longrightarrow> pos \<le> length ts \<Longrightarrow> parsed ts (Suc pos) (parse_prefix oc ts k pos)"
proof (induction k arbitrary: pos bp lhs)
  case (Suc k)
  { case 1
    show ?case unfolding parse_expr.simps
    proof (rule parsed_andThen)
      show "parsed ts (Suc pos) (parse_prefix oc ts k pos)" using 1 by (intro Suc) auto
      show "parsed ts (Suc pos) (parse_loop oc ts bp v k s')"
        if "i64_ok v" "Suc pos \<le> s'" "s' \<le> length ts" for v s'
      proof (rule parsed_weaken)
        show "parsed ts s' (parse_loop oc ts bp v k s')" using 1 that by (intro Suc) auto
      qed (use that in simp)
    qed }
  { case 2
    show ?case
    proof (cases "tok_at ts pos")
      case (Some op)
      then have lt: "pos < length ts" by (simp add: tok_at_Some)
      have "parsed ts pos (andThen (parse_expr oc ts rbp k) (\<lambda>rhs.
              andThen (lift_outcome (apply_binop oc op lhs rhs)) (\<lambda>lhs'.
              parse_loop oc ts bp lhs' k)) (Suc pos))" for rbp
      proof (rule parsed_andThen)
        show "parsed ts (Suc (Suc pos)) (parse_expr oc ts rbp k (Suc pos))"
          using 2 lt by (intro Suc) auto
        fix v s' assume v: "i64_ok v" "Suc (Suc pos) \<le> s'" "s' \<le> length ts"
        show "parsed ts pos (andThen (lift_outcome (apply_binop oc op lhs v)) (\<lambda>lhs'.
            parse_loop oc ts bp lhs' k) s')"
        proof (rule parsed_andThen)
          show "parsed ts s' (lift_outcome (apply_binop oc op lhs v) s')"
            by (rule parsed_lift [OF refl v(1,3)])
          fix w s'' assume w: "i64_ok w" "s' \<le> s''" "s'' \<le> length ts"
          then have "parsed ts s'' (parse_loop oc ts bp w k s'')" using 2 v by (intro Suc) auto
          then show "parsed ts pos (parse_loop oc ts bp w k s'')"
            by (rule parsed_weaken) (use v w in simp)
        qed
      qed
      then show ?thesis using Some 2 
        by (auto simp: andThen_def [of "gets _"] andThen_def [of "modify _"] parsed_def split: option.split)
    qed (use 2 in \<open>simp add: andThen_def parsed_def\<close>) }
  { case 3
    show ?case
    proof (cases "tok_at ts pos")
      case (Some t)
      then have lt: "pos < length ts" and t: "t \<in> set ts" by (simp_all add: tok_at_Some)
      have p: "parsed ts (Suc (Suc pos)) (parse_prefix oc ts k (Suc pos))" using 3 lt by (intro Suc) auto
      have e: "parsed ts (Suc (Suc pos)) (parse_expr oc ts 0 k (Suc pos))" using 3 lt by (intro Suc) auto
      have neg: "parsed ts (Suc pos) (andThen (parse_prefix oc ts k)
            (\<lambda>val. lift_outcome (i64_result oc (- val))) (Suc pos))"
        using p by (rule parsed_andThen) (auto intro: parsed_neg)
      have par: "parsed ts (Suc pos) (andThen (parse_expr oc ts 0 k) (\<lambda>val.
           andThen (gets (tok_at ts)) (\<lambda>t.
             if t \<noteq> Some RParen then fail ''expected closing parenthesis''
             else andThen (modify Suc) (\<lambda>_. ret val))) (Suc pos))"
        using e by (rule parsed_andThen) (auto simp: andThen_def parsed_def dest: tok_at_Some)
      show ?thesis
        using Some 3 lt t ok neg par parsed_weaken [OF p, of "Suc pos"]
        by (cases t) (auto simp: andThen_def [of "gets _"] andThen_def [of "modify _"] parsed_def toks_ok_def)
    qed (simp add: andThen_def parsed_def) }
qed (simp_all)

section \<open>Expression trees\<close>

text \<open>
  What the operators mean: a tree is evaluated left operand, right operand, operator. \<open>emit\<close>
  writes a tree with the parentheses the binding powers require and no others: \<open>+\<close> and
  \<open>-\<close> bind weakest, then \<open>*\<close>, \<open>/\<close> and \<open>%\<close>, then \<open>**\<close>, which associates to the
  right, then the signs.
\<close>

datatype aexp = Lit int | Neg aexp | Pos aexp | Bin ATok aexp aexp

definition bind_outcome :: "('a, 'e) outcome \<Rightarrow> ('a \<Rightarrow> ('b, 'e) outcome) \<Rightarrow> ('b, 'e) outcome" where
  "bind_outcome r f = (case r of Ok a \<Rightarrow> f a | Err e \<Rightarrow> Err e | Panic \<Rightarrow> Panic
     | OutOfFuel \<Rightarrow> OutOfFuel | SourceLimit \<Rightarrow> SourceLimit)"

fun eval_tree :: "bool \<Rightarrow> aexp \<Rightarrow> int ares" where
  "eval_tree oc (Lit n) = Ok n"
| "eval_tree oc (Neg e) = bind_outcome (eval_tree oc e) (\<lambda>v. i64_result oc (- v))"
| "eval_tree oc (Pos e) = eval_tree oc e"
| "eval_tree oc (Bin op a b) =
     bind_outcome (eval_tree oc a) (\<lambda>x. bind_outcome (eval_tree oc b) (apply_binop oc op x))"

fun wf_aexp :: "aexp \<Rightarrow> bool" where
  "wf_aexp (Lit n) \<longleftrightarrow> 0 \<le> n \<and> n < 2 ^ 63"
| "wf_aexp (Neg e) \<longleftrightarrow> wf_aexp e"
| "wf_aexp (Pos e) \<longleftrightarrow> wf_aexp e"
| "wf_aexp (Bin op a b) \<longleftrightarrow> binding op \<noteq> None \<and> wf_aexp a \<and> wf_aexp b"

fun lbp_of :: "aexp \<Rightarrow> nat" where
  "lbp_of (Bin op a b) = (case binding op of Some (l, r) \<Rightarrow> l | None \<Rightarrow> 40)"
| "lbp_of _ = 40"

fun rbp_of :: "aexp \<Rightarrow> nat" where
  "rbp_of (Bin op a b) = (case binding op of Some (l, r) \<Rightarrow> r | None \<Rightarrow> 40)"
| "rbp_of _ = 40"

definition paren_if :: "bool \<Rightarrow> ATok list \<Rightarrow> ATok list" where
  "paren_if c ts = (if c then LParen # ts @ [RParen] else ts)"

fun emit :: "aexp \<Rightarrow> ATok list" where
  "emit (Lit n) = [ANum n]"
| "emit (Neg e) = Minus # paren_if (lbp_of e < 40) (emit e)"
| "emit (Pos e) = Plus # paren_if (lbp_of e < 40) (emit e)"
| "emit (Bin op a b) = paren_if (rbp_of a \<le> lbp_of (Bin op a b)) (emit a) @ op #
     paren_if (lbp_of b < rbp_of (Bin op a b)) (emit b)"

definition i64_outcome :: "int ares \<Rightarrow> bool" where
  "i64_outcome r \<longleftrightarrow> (case r of Ok v \<Rightarrow> i64_ok v | Err _ \<Rightarrow> True | Panic \<Rightarrow> True | _ \<Rightarrow> False)"

lemma i64_outcome_simps [simp]:
  "i64_outcome (Ok v) = i64_ok v" "i64_outcome (Err e)" "i64_outcome Panic"
  "\<not> i64_outcome OutOfFuel" "\<not> i64_outcome SourceLimit"
  by (simp_all add: i64_outcome_def)

lemma i64_outcome_result [simp]: "i64_outcome (i64_result oc x)"
  using i64_result_cases [of oc x] by auto

lemma i64_outcome_binop: "i64_ok b \<Longrightarrow> i64_outcome (apply_binop oc op a b)"
  using apply_binop_cases [of b oc op a] by auto

lemma i64_outcome_bind:
  "i64_outcome r \<Longrightarrow> (\<And>v. r = Ok v \<Longrightarrow> i64_ok v \<Longrightarrow> i64_outcome (f v)) \<Longrightarrow> i64_outcome (bind_outcome r f)"
  by (cases r) (auto simp: bind_outcome_def)

lemma eval_tree_i64: "wf_aexp e \<Longrightarrow> i64_outcome (eval_tree oc e)"
proof (induction e)
  case (Lit n)
  then show ?case by (simp add: i64_ok_def)
qed (auto intro!: i64_outcome_bind i64_outcome_binop)

lemma emit_nonempty: "emit e \<noteq> []"
  by (cases e) auto

lemma toks_ok_emit: "wf_aexp e \<Longrightarrow> toks_ok (emit e)"
  by (induction e) (auto simp: toks_ok_def paren_if_def i64_ok_def)

lemma binding_cases:
  "binding op = Some (l, r) \<Longrightarrow> (l = 10 \<and> r = 11) \<or> (l = 20 \<and> r = 21) \<or> (l = 30 \<and> r = 29)"
  by (cases op) auto

text \<open>The parser with its fuel fixed, and its equations.\<close>

definition pe where "pe oc ts bp = parse_expr oc ts bp (arith_fuel ts)"
definition pl where "pl oc ts bp lhs = parse_loop oc ts bp lhs (arith_fuel ts)"
definition pp where "pp oc ts = parse_prefix oc ts (arith_fuel ts)"

lemma pe_eq:
  assumes "toks_ok ts" "pos \<le> length ts"
  shows "pe oc ts bp pos = andThen (pp oc ts) (pl oc ts bp) pos"
proof -
  have "parsed ts (Suc pos) (pe oc ts bp pos)"
    unfolding pe_def by (rule parse_enough) (use assms in \<open>auto simp: arith_fuel_def\<close>)
  then have "parse_expr oc ts bp (Suc (arith_fuel ts)) pos = pe oc ts bp pos"
    unfolding pe_def by (intro fuel_leD [OF parse_fuel_le(1)]) (auto simp: parsed_def)
  then show ?thesis by (simp add: pp_def pl_def [abs_def])
qed

lemma pp_eq:
  assumes "toks_ok ts" "pos \<le> length ts"
  shows "pp oc ts pos = parse_prefix oc ts (Suc (arith_fuel ts)) pos"
proof -
  have "parsed ts (Suc pos) (pp oc ts pos)"
    unfolding pp_def by (rule parse_enough) (use assms in \<open>auto simp: arith_fuel_def\<close>)
  then show ?thesis
    unfolding pp_def by (intro fuel_leD [OF parse_fuel_le(3), symmetric]) (auto simp: parsed_def)
qed

lemma pl_eq:
  assumes "toks_ok ts" "pos \<le> length ts" "i64_ok lhs"
  shows "pl oc ts bp lhs pos = parse_loop oc ts bp lhs (Suc (arith_fuel ts)) pos"
proof -
  have "parsed ts pos (pl oc ts bp lhs pos)"
    unfolding pl_def by (rule parse_enough) (use assms in \<open>auto simp: arith_fuel_def\<close>)
  then show ?thesis
    unfolding pl_def by (intro fuel_leD [OF parse_fuel_le(2), symmetric]) (auto simp: parsed_def)
qed

lemma tok_at_drop: "drop pos ts = t # us \<Longrightarrow> tok_at ts pos = Some t \<and> drop (Suc pos) ts = us \<and> Suc pos \<le> length ts"
  by (metis Suc_leI drop_eq_Nil2 drop_Suc list.distinct(1) list.sel(3) not_le nth_via_drop tl_drop tok_at_def)

lemma tok_at_end: "drop pos ts = [] \<Longrightarrow> tok_at ts pos = None"
  by (simp add: tok_at_def)

definition stops :: "nat \<Rightarrow> ATok list \<Rightarrow> bool" where
  "stops bp us \<longleftrightarrow> (case us of [] \<Rightarrow> True | t # _ \<Rightarrow> (case binding t of None \<Rightarrow> True | Some (l, r) \<Rightarrow> l < bp))"

lemma pl_stop:
  assumes "toks_ok ts" "pos \<le> length ts" "i64_ok v" "stops bp (drop pos ts)"
  shows "pl oc ts bp v pos = (Ok v, pos)"
proof (cases "drop pos ts")
  case Nil
  then show ?thesis using tok_at_end [OF Nil] by (simp add: pl_eq [OF assms(1-3)] andThen_def)
next
  case (Cons t us)
  then show ?thesis using tok_at_drop [OF Cons] assms(4)
    by (auto simp: pl_eq [OF assms(1-3)] andThen_def stops_def split: option.splits prod.splits)
qed

text \<open>
  What a correct parse of \<open>e\<close> is, for a prefix and for an expression whose loop goes on after it.
\<close>

definition prefix_parse :: "bool \<Rightarrow> ATok list \<Rightarrow> nat \<Rightarrow> nat \<Rightarrow> int ares \<Rightarrow> bool" where
  "prefix_parse oc ts pos n r \<longleftrightarrow>
     (case r of Ok v \<Rightarrow> pp oc ts pos = (Ok v, pos + n) | _ \<Rightarrow> fst (pp oc ts pos) = r)"

definition expr_parse :: "bool \<Rightarrow> ATok list \<Rightarrow> nat \<Rightarrow> nat \<Rightarrow> nat \<Rightarrow> int ares \<Rightarrow> bool" where
  "expr_parse oc ts bp pos n r \<longleftrightarrow>
     (case r of Ok v \<Rightarrow> pe oc ts bp pos = pl oc ts bp v (pos + n) | _ \<Rightarrow> fst (pe oc ts bp pos) = r)"

lemma prefix_to_expr:
  assumes "toks_ok ts" "pos \<le> length ts" "prefix_parse oc ts pos n r" "i64_outcome r"
  shows "expr_parse oc ts bp pos n r"
  using assms(3,4) pe_eq [OF assms(1,2), of oc bp]
  by (cases "pp oc ts pos"; cases r)
     (auto simp: prefix_parse_def expr_parse_def andThen_def)

text \<open>A parenthesised expression is a prefix.\<close>

lemma drop_append_length: "drop pos ts = us @ vs \<Longrightarrow> drop (pos + length us) ts = vs"
  by (metis add.commute append_eq_conv_conj drop_drop)

lemma drop_le: "drop pos ts = t # us \<Longrightarrow> pos \<le> length ts"
  by (metis drop_all le_cases list.distinct(1))

lemma paren_parse:
  assumes "toks_ok ts" "i64_outcome r" "us \<noteq> []"
    and d: "drop pos ts = LParen # us @ RParen # rest"
    and e: "expr_parse oc ts 0 (Suc pos) (length us) r"
  shows "prefix_parse oc ts pos (length us + 2) r"
proof -
  have t: "tok_at ts pos = Some LParen" "Suc pos \<le> length ts" "drop (Suc pos) ts = us @ RParen # rest"
    using tok_at_drop [OF d] by auto
  have c: "drop (Suc pos + length us) ts = RParen # rest"
    using drop_append_length [OF t(3)] .
  then have t': "tok_at ts (Suc pos + length us) = Some RParen" "Suc (Suc pos + length us) \<le> length ts"
    using tok_at_drop by auto
  have pp: "pp oc ts pos = (andThen (pe oc ts 0) (\<lambda>val. andThen (gets (tok_at ts)) (\<lambda>t.
             if t \<noteq> Some RParen then fail ''expected closing parenthesis''
             else andThen (modify Suc) (\<lambda>_. ret val)))) (Suc pos)"
    using pp_eq [OF assms(1), of pos oc] drop_le [OF d] t(1) by (simp add: andThen_def pe_def)
  show ?thesis
  proof (cases r)
    case (Ok v)
    have "pl oc ts 0 v (Suc pos + length us) = (Ok v, Suc pos + length us)"
      by (rule pl_stop) (use assms(1,2) Ok c t' in \<open>auto simp: stops_def\<close>)
    then show ?thesis using Ok e t' by (simp add: prefix_parse_def expr_parse_def pp andThen_def)
  qed (use e assms(2) in \<open>auto simp: prefix_parse_def expr_parse_def pp andThen_def split: prod.splits\<close>)
qed

lemma powers_of:
  "wf_aexp e \<Longrightarrow> (lbp_of e = 10 \<and> rbp_of e = 11) \<or> (lbp_of e = 20 \<and> rbp_of e = 21)
     \<or> (lbp_of e = 30 \<and> rbp_of e = 29) \<or> (lbp_of e = 40 \<and> rbp_of e = 40)"
  by (cases e) (auto dest: binding_cases)

lemma stops_mono:
  assumes "stops r us" "r \<in> {11, 21, 29}" "r \<le> lbp_of e" "wf_aexp e"
  shows "stops (rbp_of e) us"
  using assms powers_of [of e] binding_cases
  by (fastforce simp: stops_def split: list.splits option.splits prod.splits)

definition parses :: "bool \<Rightarrow> ATok list \<Rightarrow> aexp \<Rightarrow> bool" where
  "parses oc ts e \<longleftrightarrow> (\<forall>bp pos rest. drop pos ts = emit e @ rest \<longrightarrow> bp \<le> lbp_of e
      \<longrightarrow> stops (rbp_of e) rest \<longrightarrow> expr_parse oc ts bp pos (length (emit e)) (eval_tree oc e))
    \<and> (lbp_of e = 40 \<longrightarrow> (\<forall>pos rest. drop pos ts = emit e @ rest
          \<longrightarrow> prefix_parse oc ts pos (length (emit e)) (eval_tree oc e)))"

lemma parses_paren:
  assumes "toks_ok ts" "wf_aexp e" "parses oc ts e" "drop pos ts = paren_if True (emit e) @ rest"
  shows "prefix_parse oc ts pos (length (paren_if True (emit e))) (eval_tree oc e)"
proof -
  have d: "drop pos ts = LParen # emit e @ RParen # rest"
    using assms(4) by (simp add: paren_if_def)
  then have "drop (Suc pos) ts = emit e @ RParen # rest" using tok_at_drop by blast
  then have "expr_parse oc ts 0 (Suc pos) (length (emit e)) (eval_tree oc e)"
    using assms(3) by (auto simp: parses_def stops_def)
  then show ?thesis
    using paren_parse [OF assms(1) eval_tree_i64 [OF assms(2)] emit_nonempty d] by (simp add: paren_if_def)
qed

lemma parses_sign:
  assumes "toks_ok ts" "wf_aexp e" "parses oc ts e"
    "drop pos ts = paren_if (lbp_of e < 40) (emit e) @ rest"
  shows "prefix_parse oc ts pos (length (paren_if (lbp_of e < 40) (emit e))) (eval_tree oc e)"
proof (cases "lbp_of e < 40")
  case True
  then show ?thesis using parses_paren [OF assms(1-3)] assms(4) by simp
next
  case False
  then have "lbp_of e = 40" using powers_of [OF assms(2)] by auto
  then show ?thesis using assms(3,4) by (simp add: parses_def paren_if_def)
qed

lemma parses_operand:
  assumes "toks_ok ts" "wf_aexp e" "parses oc ts e" "drop pos ts = paren_if c (emit e) @ rest"
    and "\<not> c \<Longrightarrow> bp \<le> lbp_of e \<and> stops (rbp_of e) rest"
  shows "expr_parse oc ts bp pos (length (paren_if c (emit e))) (eval_tree oc e)"
proof (cases c)
  case True
  have "pos \<le> length ts" using assms(4) True drop_le by (simp add: paren_if_def) 
  then show ?thesis
    using prefix_to_expr [OF assms(1) _ parses_paren [OF assms(1-3)]] assms(4) True eval_tree_i64 [OF assms(2)]
    by simp
qed (use assms in \<open>simp add: parses_def paren_if_def\<close>)

lemma pp_sign:
  assumes "toks_ok ts" "drop pos ts = t # us" "t = Minus \<or> t = Plus"
  shows "pp oc ts pos = (if t = Minus
      then andThen (pp oc ts) (\<lambda>v. lift_outcome (i64_result oc (- v))) (Suc pos)
      else pp oc ts (Suc pos))"
  using pp_eq [OF assms(1), of pos oc] drop_le [OF assms(2)] tok_at_drop [OF assms(2)] assms(3)
  by (auto simp: andThen_def pp_def)

lemma parses_signed:
  assumes ok: "toks_ok ts" and e: "wf_aexp e" "parses oc ts e"
  shows "parses oc ts (Neg e)" "parses oc ts (Pos e)"
proof -
  let ?us = "paren_if (lbp_of e < 40) (emit e)"
  have inner: "prefix_parse oc ts (Suc pos) (length ?us) (eval_tree oc e)"
    if "drop pos ts = t # ?us @ rest" for pos t rest
    by (rule parses_sign [OF ok e]) (use tok_at_drop [OF that] in simp)
  have neg: "prefix_parse oc ts pos (Suc (length ?us)) (eval_tree oc (Neg e))"
    if d: "drop pos ts = Minus # ?us @ rest" for pos rest
    using inner [OF d] pp_sign [OF ok d, of oc] eval_tree_i64 [OF e(1), of oc] i64_outcome_result [of oc]
    by (cases "eval_tree oc e"; cases "pp oc ts (Suc pos)")
       (auto simp: prefix_parse_def andThen_def bind_outcome_def split: outcome.splits)
  have pos: "prefix_parse oc ts pos (Suc (length ?us)) (eval_tree oc (Pos e))"
    if d: "drop pos ts = Plus # ?us @ rest" for pos rest
    using inner [OF d] pp_sign [OF ok d, of oc]
    by (auto simp: prefix_parse_def split: outcome.splits)
  show "parses oc ts (Neg e)" "parses oc ts (Pos e)"
    unfolding parses_def
    using neg pos prefix_to_expr [OF ok drop_le] eval_tree_i64 [of "Neg e"] eval_tree_i64 [of "Pos e"] e(1)
    by (fastforce simp del: eval_tree.simps)+
qed

lemma operator_binding:
  assumes "wf_aexp (Bin op a b)"
  obtains l r where "binding op = Some (l, r)" "lbp_of (Bin op a b) = l" "rbp_of (Bin op a b) = r"
    "l \<in> {10, 20, 30}" "r \<in> {11, 21, 29}"
  using assms binding_cases [of op] by (cases "binding op") auto

lemma parses_bin:
  assumes ok: "toks_ok ts" and w: "wf_aexp (Bin op a b)" and a: "parses oc ts a" and b: "parses oc ts b"
  shows "parses oc ts (Bin op a b)"
proof -
  from w have wa: "wf_aexp a" and wb: "wf_aexp b" by auto
  obtain l r where lr: "binding op = Some (l, r)" "lbp_of (Bin op a b) = l" "rbp_of (Bin op a b) = r"
    "l \<in> {10, 20, 30}" "r \<in> {11, 21, 29}"
    by (rule operator_binding [OF w])
  let ?A = "paren_if (rbp_of a \<le> l) (emit a)" and ?B = "paren_if (lbp_of b < r) (emit b)"
  have em: "emit (Bin op a b) = ?A @ op # ?B" using lr by simp
  have "expr_parse oc ts bp pos (length (emit (Bin op a b))) (eval_tree oc (Bin op a b))"
    if d: "drop pos ts = emit (Bin op a b) @ rest" and bp: "bp \<le> l" and st: "stops r rest"
    for bp pos rest
  proof -
    let ?p1 = "pos + length ?A" and ?p2 = "Suc (pos + length ?A) + length ?B"
    have d0: "drop pos ts = ?A @ op # ?B @ rest" using d unfolding em by simp
    have d1: "drop ?p1 ts = op # ?B @ rest" using drop_append_length [OF d0] .
    have d2: "drop (Suc ?p1) ts = ?B @ rest" "tok_at ts ?p1 = Some op" "Suc ?p1 \<le> length ts"
      using tok_at_drop [OF d1] by auto
    have d3: "drop ?p2 ts = rest" using drop_append_length [OF d2(1)] .
    have "?B \<noteq> []" using emit_nonempty by (simp add: paren_if_def)
    then have p2: "?p2 \<le> length ts"
      using d2(1,3) by (metis add_le_cancel_left append_Nil2 le_add_diff_inverse length_append length_drop le_add1)
    have A: "expr_parse oc ts bp pos (length ?A) (eval_tree oc a)"
      by (rule parses_operand [OF ok wa a d0])
         (use bp powers_of [OF wa] lr in \<open>auto simp: stops_def\<close>)
    have B: "expr_parse oc ts r (Suc ?p1) (length ?B) (eval_tree oc b)"
      by (rule parses_operand [OF ok wb b d2(1)])
         (use st stops_mono [OF st lr(5) _ wb] in auto)
    show ?thesis
    proof (cases "eval_tree oc a")
      case x: (Ok x)
      have ix: "i64_ok x" using eval_tree_i64 [OF wa, of oc] x by simp
      have go: "pe oc ts bp pos = (andThen (pe oc ts r) (\<lambda>rhs.
            andThen (lift_outcome (apply_binop oc op x rhs)) (pl oc ts bp))) (Suc ?p1)"
        using A x pl_eq [OF ok _ ix, of ?p1 oc bp] d2 bp lr(1)
        by (simp add: expr_parse_def andThen_def [of "gets _"] andThen_def [of "modify _"] pe_def
            pl_def [abs_def])
      show ?thesis
      proof (cases "eval_tree oc b")
        case y: (Ok y)
        have iy: "i64_ok y" using eval_tree_i64 [OF wb, of oc] y by simp
        have "pl oc ts r y ?p2 = (Ok y, ?p2)"
          by (rule pl_stop [OF ok p2 iy]) (use st d3 in simp)
        then have "pe oc ts r (Suc ?p1) = (Ok y, ?p2)" using B y by (simp add: expr_parse_def)
        then show ?thesis
          using go x y i64_outcome_binop [OF iy, of oc op x]
          by (cases "apply_binop oc op x y") (auto simp: expr_parse_def andThen_def bind_outcome_def lr(1) ac_simps)
      qed (use B go x eval_tree_i64 [OF wb, of oc] in
           \<open>auto simp: expr_parse_def andThen_def bind_outcome_def split: prod.splits\<close>)
    qed (use A eval_tree_i64 [OF wa, of oc] in \<open>auto simp: expr_parse_def bind_outcome_def\<close>)
  qed
  then show ?thesis using lr unfolding parses_def by auto
qed

lemma parses_all: "toks_ok ts \<Longrightarrow> wf_aexp e \<Longrightarrow> parses oc ts e"
proof (induction e)
  case (Lit n)
  have A: "prefix_parse oc ts pos 1 (Ok n)" if "drop pos ts = ANum n # rest" for pos rest
    using pp_eq [OF Lit(1) drop_le [OF that], of oc] tok_at_drop [OF that]
    by (simp add: prefix_parse_def andThen_def)
  then show ?case
    using prefix_to_expr [OF Lit(1) drop_le A] Lit(2)
    by (auto simp: parses_def i64_ok_def)
qed (auto intro: parses_signed parses_bin)

lemma parse_emit:
  assumes "wf_aexp e"
  shows "fst (andThen (parse_expr oc (emit e) 0 (arith_fuel (emit e))) (\<lambda>val.
       andThen (gets id) (\<lambda>pos.
         if pos \<noteq> length (emit e) then fail (''unexpected token at position '' @ show_nat pos)
         else ret val)) 0) = eval_tree oc e"
proof -
  let ?ts = "emit e"
  have ok: "toks_ok ?ts" by (rule toks_ok_emit [OF assms])
  have E: "expr_parse oc ?ts 0 0 (length ?ts) (eval_tree oc e)"
    using parses_all [OF ok assms, of oc] by (auto simp: parses_def stops_def)
  show ?thesis
  proof (cases "eval_tree oc e")
    case (Ok v)
    then have "i64_ok v" using eval_tree_i64 [OF assms, of oc] by simp
    then have "pl oc ?ts 0 v (length ?ts) = (Ok v, length ?ts)"
      by (intro pl_stop [OF ok]) (auto simp: stops_def)
    then show ?thesis using E Ok by (simp add: expr_parse_def pe_def andThen_def)
  qed (use E eval_tree_i64 [OF assms, of oc] in
       \<open>auto simp: expr_parse_def pe_def andThen_def split: prod.splits\<close>)
qed

section \<open>The text of a tree\<close>

fun show_tok :: "ATok \<Rightarrow> string" where
  "show_tok (ANum n) = show_int n"
| "show_tok Plus = ''+''"
| "show_tok Minus = ''-''"
| "show_tok Star = ''*''"
| "show_tok Slash = ''/''"
| "show_tok Percent = ''%''"
| "show_tok StarStar = ''**''"
| "show_tok LParen = ''(''"
| "show_tok RParen = '')''"

definition show_toks :: "ATok list \<Rightarrow> string" where
  "show_toks ts = join '' '' (map show_tok ts)"

definition num_ok :: "ATok \<Rightarrow> bool" where
  "num_ok t \<longleftrightarrow> (\<forall>n. t = ANum n \<longrightarrow> 0 \<le> n \<and> n < 2 ^ 63)"

lemma emit_num_ok: "wf_aexp e \<Longrightarrow> list_all num_ok (emit e)"
  by (induction e) (auto simp: num_ok_def paren_if_def)

lemma takeWhile_digits:
  assumes "s = [] \<or> \<not> is_ascii_digit (hd s)"
  shows "takeWhile is_ascii_digit (show_nat n @ s) = show_nat n"
    "dropWhile is_ascii_digit (show_nat n @ s) = s"
  using assms show_nat_digits [of _ n]
  by (cases s; auto simp: takeWhile_append dropWhile_append)+

lemma tokenize_one:
  assumes "num_ok t" "s = [] \<or> hd s = CHR '' ''"
  shows "tokenize_arith (show_tok t @ s) = cons_ok t (tokenize_arith s)"
proof (cases t)
  case (ANum n)
  then have n: "0 \<le> n" "n < 2 ^ 63" using assms(1) by (auto simp: num_ok_def)
  then have sh: "show_tok t = show_nat (nat n)" using ANum by (simp add: show_int_def)
  obtain c cs where c: "show_nat (nat n) = c # cs" by (cases "show_nat (nat n)") auto
  have dig: "is_ascii_digit c" using show_nat_digits [of c "nat n"] c by simp
  have nd: "s = [] \<or> \<not> is_ascii_digit (hd s)" using assms(2) by (auto simp: is_ascii_digit_def)
  have "c \<noteq> CHR '' ''" "c \<noteq> TAB" using dig by (auto simp: is_ascii_digit_def char_consts)
  moreover have "parse_signed 64 (show_nat (nat n)) = Some n"
    using parse_signed_show [of 64 n] n by (simp add: show_int_def)
  moreover have "show_tok t @ s = c # cs @ s" using sh c by simp
  ultimately show ?thesis
    using takeWhile_digits [OF nd, of "nat n"] dig ANum unfolding c
    by (simp del: takeWhile.simps dropWhile.simps show_tok.simps)
qed (use assms(2) in \<open>auto simp: char_consts is_ascii_digit_def single_tok_def\<close>)

lemma tokenize_show: "list_all num_ok ts \<Longrightarrow> tokenize_arith (show_toks ts) = Ok ts"
proof (induction ts rule: induct_list012)
  case (2 t)
  then show ?case using tokenize_one [of t "[]"] by (simp add: show_toks_def cons_ok_def)
next
  case (3 t u ts)
  have "show_toks (t # u # ts) = show_tok t @ '' '' @ show_toks (u # ts)"
    by (simp add: show_toks_def join_Cons)
  then show ?case
    using 3 tokenize_one [of t "'' '' @ show_toks (u # ts)"] by (simp add: cons_ok_def)
qed (simp add: show_toks_def)

text \<open>The text has no variables, no characters above 127, and no space at its ends.\<close>

definition plain_char :: "char \<Rightarrow> bool" where
  "plain_char c \<longleftrightarrow> byte c < 128 \<and> c \<noteq> CHR ''$''"

lemma expand_plain: "list_all plain_char s \<Longrightarrow> expand_arith_vars env s = s"
  by (induction s) (auto simp: plain_char_def latin1_def)

lemma trim_plain:
  assumes "list_all plain_char s" "s \<noteq> []" "\<not> is_whitespace [hd s]" "\<not> is_whitespace [last s]"
  shows "trim s = s"
proof -
  have "utf8_chars s = map (\<lambda>c. [c]) s"
    using assms(1) by (intro utf8_chars_ascii) (simp add: list_all_iff plain_char_def)
  moreover have "dropWhile is_whitespace (map (\<lambda>c. [c]) s) = map (\<lambda>c. [c]) s"
    using assms(2,3) by (cases s) auto
  moreover have "dropWhile is_whitespace (rev (map (\<lambda>c. [c]) s)) = rev (map (\<lambda>c. [c]) s)"
    using assms(2,4) by (cases s rule: rev_cases) auto
  ultimately show ?thesis by (simp add: trim_def)
qed

lemma show_tok_char:
  assumes "num_ok t" "c \<in> set (show_tok t)"
  shows "plain_char c \<and> \<not> is_whitespace [c]"
proof (cases t)
  case (ANum n)
  then have "is_ascii_digit c" using assms show_nat_digits [of c "nat n"]
    by (auto simp: num_ok_def show_int_def)
  then show ?thesis by (auto simp: plain_char_def is_ascii_digit_def is_whitespace_def)
qed (use assms in \<open>auto simp: plain_char_def is_whitespace_def\<close>)

lemma show_tok_nonempty: "show_tok t \<noteq> []"
  by (cases t) (auto simp: show_int_def)

lemma show_toks_plain:
  assumes "list_all num_ok ts" "ts \<noteq> []"
  shows "list_all plain_char (show_toks ts) \<and> show_toks ts \<noteq> []
    \<and> \<not> is_whitespace [hd (show_toks ts)] \<and> \<not> is_whitespace [last (show_toks ts)]"
  using assms
proof (induction ts rule: induct_list012)
  case (2 t)
  then show ?case using show_tok_char [of t] show_tok_nonempty [of t]
    by (auto simp: show_toks_def list_all_iff)
next
  case (3 t u ts)
  have s: "show_toks (t # u # ts) = show_tok t @ '' '' @ show_toks (u # ts)"
    by (simp add: show_toks_def join_Cons)
  show ?case
    unfolding s using 3 show_tok_char [of t] show_tok_nonempty [of t]
    by (auto simp: list_all_iff plain_char_def hd_append)
qed simp

text \<open>A result with the prefix \<open>eval_arith\<close> puts on an error.\<close>

definition arith_err :: "int ares \<Rightarrow> int ares" where
  "arith_err r = (case r of Err e \<Rightarrow> Err (''arithmetic: '' @ e) | r \<Rightarrow> r)"

section \<open>Every text has an answer\<close>

lemma cons_ok_cases:
  "cons_ok t r = Panic \<longleftrightarrow> r = Panic" "cons_ok t r = OutOfFuel \<longleftrightarrow> r = OutOfFuel"
  "cons_ok t r = SourceLimit \<longleftrightarrow> r = SourceLimit"
  by (cases r; simp add: cons_ok_def)+

lemma tokenize_returns:
  "tokenize_arith s \<noteq> Panic \<and> tokenize_arith s \<noteq> OutOfFuel \<and> tokenize_arith s \<noteq> SourceLimit"
  by (induction s rule: tokenize_arith.induct)
     (auto simp: cons_ok_cases simp del: dropWhile.simps takeWhile.simps split: option.split)

lemma set_trim: "set (trim s) \<subseteq> set s"
proof -
  have "set (trim s) \<subseteq> \<Union> (set ` set (utf8_chars s))"
    unfolding trim_def by (auto dest!: set_dropWhileD)
  also have "\<dots> = set (concat (utf8_chars s))" by (simp only: set_concat)
  finally show ?thesis by (simp only: concat_chars)
qed

lemma tokenize_toks_ok: "tokenize_arith s = Ok ts \<Longrightarrow> toks_ok ts"
proof (induction s arbitrary: ts rule: tokenize_arith.induct)
  case (2 c s)
  have cons: "\<exists>us. r = Ok us \<and> ts = t # us" if "cons_ok t r = Ok ts" for t and r :: "ATok list ares"
    using that by (cases r) (auto simp: cons_ok_def)
  have num: "i64_ok n" if "parse_signed 64 u = Some n" for u n
    using that by (auto simp: parse_signed_def i64_ok_def Let_def split: option.splits if_splits)
  have sing: "single_tok c \<noteq> Some (ANum n)" for n by (auto simp: single_tok_def)
  from 2 show ?case
    by (auto simp: toks_ok_def split: if_splits option.splits dest!: cons num)
       (use sing in auto)
qed (simp add: toks_ok_def)

lemma cons_okE:
  assumes "cons_ok t r = Ok ts"
  obtains us where "r = Ok us" "ts = t # us"
  using assms by (cases r) (auto simp: cons_ok_def)

lemma tokenize_no_div:
  assumes "tokenize_arith s = Ok ts" "t \<in> set ts" "single_tok c = Some t"
  shows "c \<in> set s"
  using assms
proof (induction s arbitrary: ts rule: length_induct)
  case (1 s)
  have no: "t \<noteq> ANum n" "t \<noteq> StarStar" "t \<noteq> Star" for n using 1(4)
    by (auto simp: single_tok_def split: if_splits)
  have IH: "c \<in> set u" if "length u < length s" "tokenize_arith u = Ok us" "t \<in> set us" for u us
    using 1(1) that 1(4) by blast
  show ?case
  proof (cases s)
    case Nil
    then show ?thesis using 1(2,3) by simp
  next
    case (Cons d u)
    have inj: "single_tok d = Some t \<Longrightarrow> d = c" using 1(4)
      by (auto simp: single_tok_def split: if_splits)
    have sub: "c \<in> set (dropWhile is_ascii_digit u) \<Longrightarrow> c \<in> set s" "c \<in> set (tl u) \<Longrightarrow> c \<in> set s"
      unfolding Cons by (auto dest: set_dropWhileD) (cases u, auto)
    have len: "length (dropWhile is_ascii_digit u) < length s" "length (tl u) < length s" "length u < length s"
      unfolding Cons using length_dropWhile_le [of is_ascii_digit u] by auto
    have rest: "c \<in> set s" if "cons_ok x (tokenize_arith v) = Ok ts" "length v < length s"
        "c \<in> set v \<Longrightarrow> c \<in> set s" "t \<noteq> x" for x v
      using that 1(3) IH [of v] by (auto elim!: cons_okE)
    note step = 1(2) [unfolded Cons tokenize_arith.simps]
    consider "d = CHR '' '' \<or> d = TAB" | "d \<noteq> CHR '' ''" "d \<noteq> TAB" "is_ascii_digit d"
      | "d \<noteq> CHR '' ''" "d \<noteq> TAB" "\<not> is_ascii_digit d" "d = CHR ''*''"
      | "d \<noteq> CHR '' ''" "d \<noteq> TAB" "\<not> is_ascii_digit d" "d \<noteq> CHR ''*''" by blast
    then show ?thesis
    proof cases
      assume "d = CHR '' '' \<or> d = TAB"
      then show ?thesis using step IH [OF len(3) _ 1(3)] Cons by auto
    next
      assume a: "d \<noteq> CHR '' ''" "d \<noteq> TAB" "is_ascii_digit d"
      then obtain n where "cons_ok (ANum n) (tokenize_arith (dropWhile is_ascii_digit u)) = Ok ts"
        using step by (auto split: option.splits)
      then show ?thesis using rest len(1) sub(1) no(1) by blast
    next
      assume a: "d \<noteq> CHR '' ''" "d \<noteq> TAB" "\<not> is_ascii_digit d" "d = CHR ''*''"
      then have "cons_ok StarStar (tokenize_arith (tl u)) = Ok ts \<or> cons_ok Star (tokenize_arith u) = Ok ts"
        using step by (auto simp del: tokenize_arith.simps split: if_splits)
      then show ?thesis using rest len(2,3) sub(2) no(2,3) Cons by (metis list.set_intros(2))
    next
      assume a: "d \<noteq> CHR '' ''" "d \<noteq> TAB" "\<not> is_ascii_digit d" "d \<noteq> CHR ''*''"
      then obtain x where x: "single_tok d = Some x" "cons_ok x (tokenize_arith u) = Ok ts"
        using step by (auto simp del: tokenize_arith.simps split: option.splits)
      show ?thesis
      proof (cases "t = x")
        case True
        then show ?thesis using inj x Cons by simp
      next
        case False
        then show ?thesis using rest [OF x(2) len(3)] Cons by simp
      qed
    qed
  qed
qed

lemma parse_release_no_panic:
  assumes "Slash \<notin> set ts" "Percent \<notin> set ts"
  shows "(\<forall>bp. never_panics (parse_expr False ts bp k))
     \<and> (\<forall>bp lhs. never_panics (parse_loop False ts bp lhs k)) \<and> never_panics (parse_prefix False ts k)"
proof (induction k)
  case (Suc k)
  then have IH: "never_panics (parse_expr False ts bp k)" "never_panics (parse_loop False ts bp lhs k)"
    "never_panics (parse_prefix False ts k)" for bp lhs by auto
  have op: "apply_binop False op a b \<noteq> Panic" if "binding op \<noteq> None" "op \<noteq> Slash" "op \<noteq> Percent" for op a b
    using that by (cases op) (auto simp: i64_result_def)
  have neg: "i64_result False x \<noteq> Panic" for x by (simp add: i64_result_def)
  have "never_panics (parse_expr False ts bp (Suc k))" for bp
    unfolding parse_expr.simps by (intro np_intros IH)
  moreover have "never_panics (parse_loop False ts bp lhs (Suc k))" for bp lhs
  proof (rule never_panicsI)
    fix s
    show "fst (parse_loop False ts bp lhs (Suc k) s) \<noteq> Panic"
    proof (cases "tok_at ts s")
      case (Some t)
      then have "t \<noteq> Slash" "t \<noteq> Percent" using assms tok_at_Some by blast+
      then have "never_panics (andThen (parse_expr False ts rbp k) (\<lambda>rhs.
            andThen (lift_outcome (apply_binop False t lhs rhs)) (\<lambda>lhs'.
            parse_loop False ts bp lhs' k)))" if "binding t \<noteq> None" for rbp
        using that by (intro np_intros IH op)
      then show ?thesis using Some
        by (auto simp: andThen_def [of "gets _"] andThen_def [of "modify _"] split: option.split
            dest: never_panicsD)
    qed (simp add: andThen_def)
  qed
  moreover have "never_panics (parse_prefix False ts (Suc k))"
    unfolding parse_prefix.simps(2)
    by (intro np_intros) (auto split: option.split ATok.split intro!: np_intros IH neg)
  ultimately show ?case by blast
qed (simp add: never_panics_def)

lemma parse_arith_i64: "i64_outcome (parse_arith oc s)"
proof (cases "tokenize_arith s")
  case (Ok ts)
  have "parsed ts (Suc 0) (parse_expr oc ts 0 (arith_fuel ts) 0)"
    by (rule parse_enough) (use tokenize_toks_ok [OF Ok] in \<open>auto simp: arith_fuel_def\<close>)
  then show ?thesis
    by (cases "parse_expr oc ts 0 (arith_fuel ts) 0"; cases "fst (parse_expr oc ts 0 (arith_fuel ts) 0)")
       (auto simp: parse_arith_def Ok andThen_def parsed_def)
next
  case (Err e)
  then show ?thesis by (simp add: parse_arith_def andThen_def)
next
  case Panic
  then show ?thesis by (simp add: parse_arith_def andThen_def)
next
  case OutOfFuel
  then show ?thesis using tokenize_returns [of s] by simp
next
  case SourceLimit
  then show ?thesis using tokenize_returns [of s] by simp
qed

lemma eval_arith_i64: "i64_outcome (eval_arith oc expr env)"
  using parse_arith_i64 [of oc "trim (expand_arith_vars env expr)"]
  by (auto simp: eval_arith_def i64_outcome_def split: outcome.splits)

text \<open>
  C32: the evaluator always comes back with a value in the range of \<open>i64\<close>, an error, or an
  overflow panic: its fuel is enough for every text. In a release build the only panics are of a
  division or remainder (the least number by \<open>-1\<close>), so a text with neither never panics.
\<close>

theorem eval_arith_total:
  "i64_outcome (eval_arith oc expr env)
   \<and> (\<not> oc \<and> CHR ''/'' \<notin> set (expand_arith_vars env expr) \<and> CHR ''%'' \<notin> set (expand_arith_vars env expr)
        \<longrightarrow> eval_arith oc expr env \<noteq> Panic)"
proof (intro conjI impI)
  let ?s = "trim (expand_arith_vars env expr)"
  show "i64_outcome (eval_arith oc expr env)" by (rule eval_arith_i64)
  assume a: "\<not> oc \<and> CHR ''/'' \<notin> set (expand_arith_vars env expr) \<and> CHR ''%'' \<notin> set (expand_arith_vars env expr)"
  then have nd: "CHR ''/'' \<notin> set ?s" "CHR ''%'' \<notin> set ?s" using set_trim by blast+
  have "parse_arith oc ?s \<noteq> Panic"
  proof (cases "tokenize_arith ?s")
    case (Ok ts)
    then have "never_panics (parse_expr oc ts 0 (arith_fuel ts))"
      using parse_release_no_panic [of ts] tokenize_no_div [OF Ok, of Slash "CHR ''/''"]
        tokenize_no_div [OF Ok, of Percent "CHR ''%''"] nd a by (auto simp: single_tok_def)
    then have "fst (parse_expr oc ts 0 (arith_fuel ts) 0) \<noteq> Panic" by (rule never_panicsD)
    then show ?thesis
      by (cases "parse_expr oc ts 0 (arith_fuel ts) 0"; cases "fst (parse_expr oc ts 0 (arith_fuel ts) 0)")
         (auto simp: parse_arith_def Ok andThen_def)
  qed (use tokenize_returns [of ?s] in \<open>auto simp: parse_arith_def andThen_def\<close>)
  then show "eval_arith oc expr env \<noteq> Panic" by (auto simp: eval_arith_def split: outcome.splits)
qed

theorem eval_arith_total_witness:
  "eval_arith False ''9223372036854775807 + $X'' [(''X'', ''1'')] \<noteq> Panic"
  using eval_arith_total [of False "''9223372036854775807 + $X''" "[(''X'', ''1'')]"]
  by (simp add: arith_var_def latin1_def is_ident_char_def is_ascii_alphanumeric_def
      is_ascii_alphabetic_def is_ascii_digit_def)

end
