(* ===== verification/ArithMeaning.thy ===== *)
theory ArithMeaning
  imports Arith "HOL-Library.Word"
begin

text \<open>
  What the evaluator of theory \<open>Arith\<close> is for: a grammar of expressions with levels, and their value in
  machine words. Neither uses the evaluator's table of binding powers or its operations; the trees over
  its tokens that lie in between are shown to have the same text and the same value.
\<close>

section \<open>What an expression means\<close>

text \<open>
  The expressions, with their text and their value, stated without the code's tables. The text is
  that of a grammar in levels: sums (1) of products (2) of powers (3) of signed atoms (4), sums and
  products grouping to the left and powers to the right; an expression below the level its place
  asks for is put in parentheses.
\<close>

datatype expression =
    Number nat
  | Minus_sign expression
  | Plus_sign expression
  | Sum expression expression
  | Difference expression expression
  | Product expression expression
  | Quotient expression expression
  | Remainder expression expression
  | Power expression expression

fun level :: "expression \<Rightarrow> nat" where
  "level (Sum a b) = 1"
| "level (Difference a b) = 1"
| "level (Product a b) = 2"
| "level (Quotient a b) = 2"
| "level (Remainder a b) = 2"
| "level (Power a b) = 3"
| "level _ = 4"

definition in_parens :: "bool \<Rightarrow> string \<Rightarrow> string" where
  "in_parens c t = (if c then ''( '' @ t @ '' )'' else t)"

fun text_at :: "nat \<Rightarrow> expression \<Rightarrow> string" where
  "text_at p (Number n) = show_nat n"
| "text_at p (Minus_sign a) = ''- '' @ text_at 4 a"
| "text_at p (Plus_sign a) = ''+ '' @ text_at 4 a"
| "text_at p (Sum a b) = in_parens (1 < p) (text_at 1 a @ '' + '' @ text_at 2 b)"
| "text_at p (Difference a b) = in_parens (1 < p) (text_at 1 a @ '' - '' @ text_at 2 b)"
| "text_at p (Product a b) = in_parens (2 < p) (text_at 2 a @ '' * '' @ text_at 3 b)"
| "text_at p (Quotient a b) = in_parens (2 < p) (text_at 2 a @ '' / '' @ text_at 3 b)"
| "text_at p (Remainder a b) = in_parens (2 < p) (text_at 2 a @ '' % '' @ text_at 3 b)"
| "text_at p (Power a b) = in_parens (3 < p) (text_at 4 a @ '' ** '' @ text_at 3 b)"

text \<open>
  The values are 64-bit two's complement numbers. A result out of their range panics when overflow
  is checked, and is cut to its low 64 bits when it is not.
\<close>

definition machine :: "bool \<Rightarrow> int \<Rightarrow> int ares" where
  "machine checks z =
     (if -9223372036854775808 \<le> z \<and> z \<le> 9223372036854775807 then Ok z
      else if checks then Panic
      else Ok (sint (word_of_int z :: 64 word)))"

definition truncated :: "int \<Rightarrow> int \<Rightarrow> int" where
  "truncated x y = (if (x < 0) = (y < 0) then \<bar>x\<bar> div \<bar>y\<bar> else - (\<bar>x\<bar> div \<bar>y\<bar>))"

definition divided :: "string \<Rightarrow> (int \<Rightarrow> int \<Rightarrow> int) \<Rightarrow> int \<Rightarrow> int \<Rightarrow> int ares" where
  "divided what f x y =
     (if y = 0 then Err (what @ '' by zero'')
      else if x = -9223372036854775808 \<and> y = -1 then Panic
      else Ok (f x y))"

definition both :: "int ares \<Rightarrow> int ares \<Rightarrow> (int \<Rightarrow> int \<Rightarrow> int ares) \<Rightarrow> int ares" where
  "both a b f = bind_outcome a (\<lambda>x. bind_outcome b (f x))"

fun meaning :: "bool \<Rightarrow> expression \<Rightarrow> int ares" where
  "meaning oc (Number n) = Ok (int n)"
| "meaning oc (Minus_sign a) = bind_outcome (meaning oc a) (\<lambda>x. machine oc (- x))"
| "meaning oc (Plus_sign a) = meaning oc a"
| "meaning oc (Sum a b) = both (meaning oc a) (meaning oc b) (\<lambda>x y. machine oc (x + y))"
| "meaning oc (Difference a b) = both (meaning oc a) (meaning oc b) (\<lambda>x y. machine oc (x - y))"
| "meaning oc (Product a b) = both (meaning oc a) (meaning oc b) (\<lambda>x y. machine oc (x * y))"
| "meaning oc (Quotient a b) = both (meaning oc a) (meaning oc b) (divided ''division'' truncated)"
| "meaning oc (Remainder a b) =
     both (meaning oc a) (meaning oc b) (divided ''modulo'' (\<lambda>x y. x - y * truncated x y))"
| "meaning oc (Power a b) = both (meaning oc a) (meaning oc b) (\<lambda>x y.
     if y < 0 then Ok 0 else machine oc (x ^ nat (y mod 4294967296)))"

primrec numbers_fit :: "expression \<Rightarrow> bool" where
  "numbers_fit (Number n) \<longleftrightarrow> n \<le> 9223372036854775807"
| "numbers_fit (Minus_sign a) \<longleftrightarrow> numbers_fit a"
| "numbers_fit (Plus_sign a) \<longleftrightarrow> numbers_fit a"
| "numbers_fit (Sum a b) \<longleftrightarrow> numbers_fit a \<and> numbers_fit b"
| "numbers_fit (Difference a b) \<longleftrightarrow> numbers_fit a \<and> numbers_fit b"
| "numbers_fit (Product a b) \<longleftrightarrow> numbers_fit a \<and> numbers_fit b"
| "numbers_fit (Quotient a b) \<longleftrightarrow> numbers_fit a \<and> numbers_fit b"
| "numbers_fit (Remainder a b) \<longleftrightarrow> numbers_fit a \<and> numbers_fit b"
| "numbers_fit (Power a b) \<longleftrightarrow> numbers_fit a \<and> numbers_fit b"

text \<open>The expression as a tree over the code's tokens, where the text and the value agree.\<close>

primrec to_tree :: "expression \<Rightarrow> aexp" where
  "to_tree (Number n) = Lit (int n)"
| "to_tree (Minus_sign a) = Neg (to_tree a)"
| "to_tree (Plus_sign a) = Pos (to_tree a)"
| "to_tree (Sum a b) = Bin Plus (to_tree a) (to_tree b)"
| "to_tree (Difference a b) = Bin Minus (to_tree a) (to_tree b)"
| "to_tree (Product a b) = Bin Star (to_tree a) (to_tree b)"
| "to_tree (Quotient a b) = Bin Slash (to_tree a) (to_tree b)"
| "to_tree (Remainder a b) = Bin Percent (to_tree a) (to_tree b)"
| "to_tree (Power a b) = Bin StarStar (to_tree a) (to_tree b)"

lemma wf_to_tree [simp]: "wf_aexp (to_tree e) \<longleftrightarrow> numbers_fit e"
  by (induction e) auto

lemma show_toks_append:
  "us \<noteq> [] \<Longrightarrow> vs \<noteq> [] \<Longrightarrow> show_toks (us @ vs) = show_toks us @ '' '' @ show_toks vs"
proof (induction us)
  case (Cons u us)
  then show ?case by (cases "us = []") (simp_all add: show_toks_def join_Cons)
qed simp

lemma show_toks_one: "show_toks [t] = show_tok t"
  by (simp add: show_toks_def)

lemma show_toks_cons: "vs \<noteq> [] \<Longrightarrow> show_toks (t # vs) = show_tok t @ '' '' @ show_toks vs"
  by (simp add: show_toks_def join_Cons)

lemma paren_if_ne [simp]: "paren_if c (emit e) \<noteq> []"
  using emit_nonempty by (simp add: paren_if_def)

lemma show_paren_if: "show_toks (paren_if c (emit e)) = in_parens c (show_toks (emit e))"
  using emit_nonempty [of e]
  by (simp add: paren_if_def in_parens_def show_toks_cons show_toks_append show_toks_one)

lemma show_bin: "show_toks (emit (Bin op a b)) =
    show_toks (paren_if (rbp_of a \<le> lbp_of (Bin op a b)) (emit a)) @ '' '' @ show_tok op @ '' '' @
    show_toks (paren_if (lbp_of b < rbp_of (Bin op a b)) (emit b))"
  by (simp add: show_toks_append show_toks_cons)

lemma powers_level:
  "(rbp_of (to_tree e) \<le> 10 \<longleftrightarrow> False) \<and> (rbp_of (to_tree e) \<le> 20 \<longleftrightarrow> level e < 2)
   \<and> (rbp_of (to_tree e) \<le> 30 \<longleftrightarrow> level e < 4)
   \<and> (lbp_of (to_tree e) < 11 \<longleftrightarrow> level e < 2) \<and> (lbp_of (to_tree e) < 21 \<longleftrightarrow> level e < 3)
   \<and> (lbp_of (to_tree e) < 29 \<longleftrightarrow> level e < 3) \<and> (lbp_of (to_tree e) < 40 \<longleftrightarrow> level e < 4)"
  by (cases e) auto

lemma level_pos: "0 < level e" "level e \<noteq> 0"
  by (cases e; simp)+

lemma operator_powers:
  "lbp_of (Bin Plus a b) = 10" "rbp_of (Bin Plus a b) = 11"
  "lbp_of (Bin Minus a b) = 10" "rbp_of (Bin Minus a b) = 11"
  "lbp_of (Bin Star a b) = 20" "rbp_of (Bin Star a b) = 21"
  "lbp_of (Bin Slash a b) = 20" "rbp_of (Bin Slash a b) = 21"
  "lbp_of (Bin Percent a b) = 20" "rbp_of (Bin Percent a b) = 21"
  "lbp_of (Bin StarStar a b) = 30" "rbp_of (Bin StarStar a b) = 29"
  by simp_all

lemma in_parens_False [simp]: "in_parens False t = t"
  by (simp add: in_parens_def)

lemma text_at_tokens: "p \<le> 4 \<Longrightarrow> text_at p e = in_parens (level e < p) (show_toks (emit (to_tree e)))"
proof (induction e arbitrary: p)
  case (Number n)
  then show ?case by (simp add: show_toks_one show_int_def in_parens_def)
qed (simp_all add: show_bin show_paren_if show_toks_cons operator_powers powers_level level_pos
      del: emit.simps(4) lbp_of.simps rbp_of.simps)

lemma machine_result: "machine = i64_result"
proof (intro ext)
  fix oc z
  have "sint (word_of_int z :: 64 word) = wrap64 z"
    by (simp add: sint_sbintrunc' signed_take_bit_eq_take_bit_shift take_bit_eq_mod wrap64_def)
  then show "machine oc z = i64_result oc z" by (auto simp: machine_def i64_result_def i64_ok_def)
qed

lemma truncated_sdiv: "y \<noteq> 0 \<Longrightarrow> truncated x y = x sdiv y"
  by (auto simp: truncated_def signed_divide_int_def sgn_if)

lemma sdiv_ok:
  assumes "i64_ok x" "i64_ok y" "y \<noteq> 0"
  shows "i64_ok (x sdiv y) \<longleftrightarrow> \<not> (x = -9223372036854775808 \<and> y = -1)"
proof (cases "\<bar>y\<bar> = 1")
  case True
  then show ?thesis using assms(1)
    by (cases "y = 1") (auto simp: i64_ok_def signed_divide_int_def sgn_if abs_if split: if_splits)
next
  case False
  have "2 \<le> \<bar>y\<bar>" using False assms(3) by linarith
  then have "\<bar>x\<bar> div \<bar>y\<bar> \<le> \<bar>x\<bar> div 2" by (intro zdiv_mono2) auto
  moreover have "\<bar>x\<bar> \<le> 9223372036854775808" using assms(1) by (auto simp: i64_ok_def)
  ultimately have "\<bar>x\<bar> div \<bar>y\<bar> \<le> 4611686018427387904" by linarith
  moreover have "0 \<le> \<bar>x\<bar> div \<bar>y\<bar>" by (simp add: pos_imp_zdiv_nonneg_iff assms(3))
  ultimately show ?thesis using False
    by (auto simp: i64_ok_def signed_divide_int_def sgn_if)
qed

lemma divided_binop:
  assumes "i64_ok x" "i64_ok y"
  shows "divided ''division'' truncated x y = apply_binop oc Slash x y"
    "divided ''modulo'' (\<lambda>x y. x - y * truncated x y) x y = apply_binop oc Percent x y"
  using sdiv_ok [OF assms] by (auto simp: divided_def truncated_sdiv minus_mult_sdiv_eq_smod)

lemma applied:
  "apply_binop oc Plus x = (\<lambda>y. i64_result oc (x + y))"
  "apply_binop oc Minus x = (\<lambda>y. i64_result oc (x - y))"
  "apply_binop oc Star x = (\<lambda>y. i64_result oc (x * y))"
  "apply_binop oc StarStar x = (\<lambda>y. if y < 0 then Ok 0 else i64_result oc (x ^ nat (y mod 4294967296)))"
  by (simp_all add: fun_eq_iff)

lemma both_tree:
  assumes "i64_outcome a" "i64_outcome b" "\<And>x y. i64_ok x \<Longrightarrow> i64_ok y \<Longrightarrow> f x y = g x y"
  shows "both a b f = bind_outcome a (\<lambda>x. bind_outcome b (g x))"
  using assms by (cases a; cases b) (auto simp: both_def bind_outcome_def)

lemma meaning_tree: "numbers_fit e \<Longrightarrow> meaning oc e = eval_tree oc (to_tree e)"
proof (induction e)
  case (Sum a b) then show ?case by (simp add: both_def machine_result applied)
next
  case (Difference a b) then show ?case by (simp add: both_def machine_result applied)
next
  case (Product a b) then show ?case by (simp add: both_def machine_result applied)
next
  case (Power a b) then show ?case by (simp add: both_def machine_result applied cong: if_cong)
next
  case (Quotient a b) 
  then show ?case
    using both_tree [of "eval_tree oc (to_tree a)" "eval_tree oc (to_tree b)" _ "apply_binop oc Slash",
        OF eval_tree_i64 eval_tree_i64 divided_binop(1)] by simp
next
  case (Remainder a b)
  then show ?case
    using both_tree [of "eval_tree oc (to_tree a)" "eval_tree oc (to_tree b)" _ "apply_binop oc Percent",
        OF eval_tree_i64 eval_tree_i64 divided_binop(2)] by simp
qed (simp_all add: machine_result)

section \<open>Properties\<close>

text \<open>
  C2: the evaluator computes what the expression means. For every expression (literals up to the
  largest 64-bit number, signs, the six operators), its text in the grammar of levels evaluates to
  its value: sums and differences bind least, then products, quotients and remainders, both grouping
  to the left, then powers, grouping to the right, and signs most; division truncates towards zero
  and a remainder has the sign of the dividend; division by zero is an error; an overflow panics or
  wraps by the build. No fuel is assumed.
\<close>

theorem eval_arith_correct:
  assumes "numbers_fit e"
  shows "eval_arith oc (text_at 1 e) env = arith_err (meaning oc e)"
proof -
  let ?ts = "emit (to_tree e)"
  have n: "list_all num_ok ?ts" using assms by (intro emit_num_ok) simp
  note plain = show_toks_plain [OF n emit_nonempty]
  have t: "text_at 1 e = show_toks ?ts" by (simp add: text_at_tokens level_pos in_parens_def)
  have "trim (expand_arith_vars env (text_at 1 e)) = show_toks ?ts"
    unfolding t using plain by (simp add: expand_plain trim_plain)
  moreover have "parse_arith oc (show_toks ?ts) = meaning oc e"
    unfolding parse_arith_def tokenize_show [OF n]
    using parse_emit [of "to_tree e" oc] assms by (simp add: andThen_def [of "lift_outcome _"] meaning_tree)
  ultimately show ?thesis by (simp add: eval_arith_def arith_err_def)
qed

theorem eval_arith_correct_witness:
  "eval_arith True ''- 7 / 2 - 2 ** ( 1 + 2 ) ** 2'' [] = Ok (- 515)"
proof -
  let ?e = "Difference (Quotient (Minus_sign (Number 7)) (Number 2))
      (Power (Number 2) (Power (Sum (Number 1) (Number 2)) (Number 2)))"
  have "text_at 1 ?e = ''- 7 / 2 - 2 ** ( 1 + 2 ) ** 2''" by code_simp
  moreover have "arith_err (meaning True ?e) = Ok (- 515)"
    by (simp add: both_def bind_outcome_def machine_def divided_def truncated_def arith_err_def)
  ultimately show ?thesis using eval_arith_correct [of ?e True "[]"] by simp
qed

end
