(* ===== verification/Ast.thy ===== *)
theory Ast
  imports Utf8
begin

text \<open>
  The syntax tree of \<open>bash_parser\<close> (\<open>ast.rs\<close>), the parse errors of \<open>error.rs\<close> and the tokens
  of \<open>lexer.rs\<close>. A constructor whose name two of the source's types share carries its type's
  initials.
\<close>

datatype special_var = Zero | Positional nat | StarVar | AtVar | Hash | Pid | LastExit | LastBgPid

datatype redirect_kind = Write | Append | Read | ReadWrite | Clobber

datatype (plugins only: code size) command =
    Simple simple_command
  | Pipeline "simple_command list" bool
  | AndCmd command command
  | OrCmd command command
  | Sequence "command list"
  | Background command
  | Subshell "command list"
  | Group "command list"
and simple_command =
    SimpleCommand (sc_assignments: "(string \<times> word) list") (sc_name: "word option")
      (sc_args: "word list") (sc_redirects: "redirect list")
and word =
    Literal string
  | SingleQuoted string
  | DoubleQuoted "dq_part list"
  | Variable var_expr
  | CommandSubst "command list"
  | ArithSubst string
  | HeredocWord heredoc
  | Concat "word list"
and dq_part =
    DQLiteral string
  | DQVariable var_expr
  | DQCommandSubst "command list"
  | DQArithSubst string
and var_expr =
    SimpleVar string
  | DefaultIfUnset string word
  | AssignIfUnset string word
  | AlternateIfSet string word
  | ErrorIfUnset string word
  | Length string
  | Special special_var
and heredoc =
    Heredoc (hd_delimiter: string) (hd_quoted: bool) (hd_strip_tabs: bool) (hd_body: heredoc_body)
and heredoc_body =
    HBLiteral string
  | HBParts "dq_part list"
and redirect =
    Redirect (rd_fd: "nat option") (rd_kind: redirect_kind) (rd_target: redirect_target)
and redirect_target =
    TWord word
  | TFd nat
  | TCloseFd
  | THeredoc heredoc

type_synonym script = "command list"

definition empty_command :: simple_command where
  "empty_command = SimpleCommand [] None [] []"

section \<open>Errors\<close>

datatype span = Span (sp_start: nat) (sp_len: nat)

definition span_eof :: "nat \<Rightarrow> span" where
  "span_eof pos = Span pos 0"

definition span_end :: "span \<Rightarrow> nat" where
  "span_end s = sp_start s + sp_len s"

datatype parse_error = ParseError (pe_span: span) (pe_message: string)

definition show_parse_error :: "parse_error \<Rightarrow> string" where
  "show_parse_error e =
     ''parse error at '' @ show_nat (sp_start (pe_span e)) @ ''..'' @ show_nat (span_end (pe_span e))
       @ '': '' @ pe_message e"

section \<open>Tokens\<close>

datatype redirect_op =
    Less | Greater | GreaterGreater | LessGreater | GreaterPipe | GreaterAmp | LessAmp

datatype token_kind =
    TkWord string
  | SingleQuote string
  | DoubleQuoteOpen
  | DoubleQuoteClose
  | DQText string
  | Pipe
  | OrOr
  | AndAnd
  | Amp
  | Semi
  | SemiSemi
  | LParen
  | RParen
  | LBrace
  | RBrace
  | Bang
  | Newline
  | TkRedirect "nat option" redirect_op
  | HereDoc (hd_tk_fd: "nat option") (hd_tk_delimiter: string) (hd_tk_quoted: bool)
      (hd_tk_strip_tabs: bool)
  | Eof

datatype token = Token (tk_kind: token_kind) (tk_span: span)

text \<open>The derived \<open>Debug\<close> text of a token, for the messages on an unexpected one.\<close>

definition debug_fd :: "nat option \<Rightarrow> string" where
  "debug_fd fd = (case fd of None \<Rightarrow> ''None'' | Some n \<Rightarrow> ''Some('' @ show_nat n @ '')'')"

definition debug_bool :: "bool \<Rightarrow> string" where
  "debug_bool b = (if b then ''true'' else ''false'')"

fun debug_op :: "redirect_op \<Rightarrow> string" where
  "debug_op Less = ''Less''"
| "debug_op Greater = ''Greater''"
| "debug_op GreaterGreater = ''GreaterGreater''"
| "debug_op LessGreater = ''LessGreater''"
| "debug_op GreaterPipe = ''GreaterPipe''"
| "debug_op GreaterAmp = ''GreaterAmp''"
| "debug_op LessAmp = ''LessAmp''"

fun debug_kind :: "token_kind \<Rightarrow> string" where
  "debug_kind (TkWord w) = ''Word('' @ debug_str w @ '')''"
| "debug_kind (SingleQuote s) = ''SingleQuote('' @ debug_str s @ '')''"
| "debug_kind DoubleQuoteOpen = ''DoubleQuoteOpen''"
| "debug_kind DoubleQuoteClose = ''DoubleQuoteClose''"
| "debug_kind (DQText s) = ''DQText('' @ debug_str s @ '')''"
| "debug_kind Pipe = ''Pipe''"
| "debug_kind OrOr = ''OrOr''"
| "debug_kind AndAnd = ''AndAnd''"
| "debug_kind Amp = ''Amp''"
| "debug_kind Semi = ''Semi''"
| "debug_kind SemiSemi = ''SemiSemi''"
| "debug_kind LParen = ''LParen''"
| "debug_kind RParen = ''RParen''"
| "debug_kind LBrace = ''LBrace''"
| "debug_kind RBrace = ''RBrace''"
| "debug_kind Bang = ''Bang''"
| "debug_kind Newline = ''Newline''"
| "debug_kind (TkRedirect fd op) =
     ''Redirect(RedirectToken { fd: '' @ debug_fd fd @ '', op: '' @ debug_op op @ '' })''"
| "debug_kind (HereDoc fd d q st) =
     ''HereDoc { fd: '' @ debug_fd fd @ '', delimiter: '' @ debug_str d @ '', quoted: '' @ debug_bool q
       @ '', strip_tabs: '' @ debug_bool st @ '' }''"
| "debug_kind Eof = ''Eof''"

end
