(* ===== verification/Lexer.thy ===== *)
theory Lexer
  imports Ast
begin

text \<open>
  The lexer of \<open>bash_parser\<close> (\<open>lexer.rs\<close>). Its state is the source and a byte position;
  \<open>peek\<close> shows the first byte of the next character, which decides every test because they are
  all for ASCII characters, and \<open>advance\<close> moves over the whole character. The lemmas show that the
  position only moves forward, stays within the source, and that a token other than the end takes
  at least one byte, which is what the parser's termination rests on.

  \<open>remaining\<close> and \<open>slice\<close> are total; in the code they index a string and panic off a character
  boundary. Every position the lexer slices at is one that \<open>advance\<close> has moved to, and on a source of
  valid UTF-8, which a \<open>&str\<close> is, these are the ends of whole characters (theory \<open>LexerText\<close>), so
  the two agree.
\<close>

section \<open>Primitives\<close>

record lexer =
  lx_src :: string
  lx_pos :: nat

type_synonym 'a lex = "(lexer, 'a, parse_error) act"

definition lexer_new :: "string \<Rightarrow> lexer" where
  "lexer_new src = \<lparr>lx_src = src, lx_pos = 0\<rparr>"

definition remaining :: "lexer \<Rightarrow> string" where
  "remaining l = drop (lx_pos l) (lx_src l)"

definition peek :: "lexer \<Rightarrow> char option" where
  "peek l = (case remaining l of [] \<Rightarrow> None | c # _ \<Rightarrow> Some c)"

definition set_pos :: "nat \<Rightarrow> lexer \<Rightarrow> lexer" where
  "set_pos p l = l\<lparr>lx_pos := p\<rparr>"

definition advance :: "lexer \<Rightarrow> lexer" where
  "advance l = (if remaining l = [] then l else set_pos (lx_pos l + snd (utf8_step (remaining l))) l)"

definition left :: "lexer \<Rightarrow> nat" where
  "left l = length (remaining l)"

lemma remaining_set_pos: "remaining (set_pos p l) = drop p (lx_src l)"
  by (simp add: remaining_def set_pos_def)

lemma left_advance: "remaining l \<noteq> [] \<Longrightarrow> left (advance l) < left l"
proof -
  assume ne: "remaining l \<noteq> []"
  obtain ok n where "utf8_step (remaining l) = (ok, n)" by fastforce
  then show ?thesis
    using utf8_step_pos [of "remaining l" ok n] ne
    by (simp add: left_def advance_def remaining_set_pos) (simp add: remaining_def)
qed

lemma peek_None: "peek l = None \<longleftrightarrow> remaining l = []"
  by (simp add: peek_def split: list.split)

lemma left_advance_peek: "peek l = Some c \<Longrightarrow> left (advance l) < left l"
  by (rule left_advance) (auto simp: peek_def)

definition eat :: "char \<Rightarrow> lexer \<Rightarrow> bool \<times> lexer" where
  "eat c l = (if peek l = Some c then (True, advance l) else (False, l))"

text \<open>The loops \<open>while matches!(self.peek(), ..) { self.advance(); }\<close>.\<close>

function advance_while :: "(char \<Rightarrow> bool) \<Rightarrow> lexer \<Rightarrow> lexer" where
  "advance_while P l =
     (case peek l of None \<Rightarrow> l | Some c \<Rightarrow> if P c then advance_while P (advance l) else l)"
  by pat_completeness auto
termination
  by (relation "measure (left \<circ> snd)") (auto dest: left_advance_peek)

declare advance_while.simps [simp del]

definition skip_whitespace_inline :: "lexer \<Rightarrow> lexer" where
  "skip_whitespace_inline = advance_while (\<lambda>c. c = CHR '' '' \<or> c = TAB)"

definition skip_comment :: "lexer \<Rightarrow> lexer" where
  "skip_comment = advance_while (\<lambda>c. c \<noteq> NL)"

definition slice :: "lexer \<Rightarrow> nat \<Rightarrow> nat \<Rightarrow> string" where
  "slice l i j = take (j - i) (drop i (lx_src l))"

definition span_from :: "nat \<Rightarrow> lexer \<Rightarrow> span" where
  "span_from start l = Span start (lx_pos l - start)"

definition is_eof :: "lexer \<Rightarrow> bool" where
  "is_eof l \<longleftrightarrow> lx_pos l \<ge> length (lx_src l)"

text \<open>A token from \<open>start\<close> to the current position.\<close>

definition tok :: "token_kind \<Rightarrow> nat \<Rightarrow> token lex" where
  "tok k start = (\<lambda>l. (Ok (Token k (span_from start l)), l))"

definition is_word_char :: "char \<Rightarrow> bool" where
  "is_word_char c \<longleftrightarrow> c \<notin> {CHR '' '', TAB, NL, CHR ''|'', CHR ''&'', CHR '';'', CHR ''('', CHR '')'',
     CHR ''{'', CHR ''}'', CHR ''<'', CHR ''>'', DQUOTE, SQUOTE}"

section \<open>Words\<close>

text \<open>\<open>consume_balanced_depth\<close>; a quoted string inside counts no delimiters.\<close>

definition skip_quoted :: "lexer \<Rightarrow> lexer" where
  "skip_quoted l = snd (eat SQUOTE (advance_while (\<lambda>c. c \<noteq> SQUOTE) (advance l)))"

lemma left_advance_while: "left (advance_while P l) \<le> left l"
proof (induction P l rule: advance_while.induct)
  case (1 P l)
  show ?case
    using 1 left_advance_peek [of l] by (subst advance_while.simps) (fastforce split: option.split)
qed

lemma left_eat: "left (snd (eat c l)) \<le> left l"
  by (auto simp: eat_def intro: less_imp_le left_advance_peek)

lemma left_skip_quoted: "peek l = Some c \<Longrightarrow> left (skip_quoted l) < left l"
  unfolding skip_quoted_def
  using left_eat left_advance_while left_advance_peek by (meson le_less_trans)

function balanced_loop :: "char \<Rightarrow> char \<Rightarrow> nat \<Rightarrow> nat \<Rightarrow> unit lex" where
  "balanced_loop open_c close_c err_pos depth l =
     (case peek l of
        None \<Rightarrow> (Err (ParseError (span_eof err_pos)
                  (''unterminated `'' @ [open_c] @ ''...'' @ [close_c] @ ''`'')), l)
      | Some c \<Rightarrow>
          if c = SQUOTE then balanced_loop open_c close_c err_pos depth (skip_quoted l)
          else if c = open_c then balanced_loop open_c close_c err_pos (depth + 1) (advance l)
          else if c = close_c then
            (if depth - 1 = 0 then (Ok (), advance l)
             else balanced_loop open_c close_c err_pos (depth - 1) (advance l))
          else balanced_loop open_c close_c err_pos depth (advance l))"
  by pat_completeness auto
termination
  by (relation "measure (\<lambda>(_, _, _, _, l). left l)") (auto dest: left_advance_peek left_skip_quoted)

declare balanced_loop.simps [simp del]

definition consume_balanced_depth :: "char \<Rightarrow> char \<Rightarrow> nat \<Rightarrow> unit lex" where
  "consume_balanced_depth open_c close_c depth =
     (\<lambda>l. balanced_loop open_c close_c (lx_pos l) depth l)"

definition consume_balanced :: "char \<Rightarrow> char \<Rightarrow> unit lex" where
  "consume_balanced open_c close_c = consume_balanced_depth open_c close_c 1"

text \<open>Over an escaped character: the backslash and, if there is one, the next character.\<close>

definition skip_escaped :: "lexer \<Rightarrow> lexer" where
  "skip_escaped l = (let l1 = advance l in if peek l1 \<noteq> None then advance l1 else l1)"

lemma left_advance_le: "left (advance l) \<le> left l"
proof (cases "remaining l = []")
  case False
  then show ?thesis using left_advance [of l] by simp
qed (simp add: advance_def)

lemma left_skip_escaped: "peek l = Some c \<Longrightarrow> left (skip_escaped l) < left l"
  using left_advance_peek [of l c] left_advance_le [of "advance l"]
  by (auto simp: skip_escaped_def Let_def)

text \<open>The inside of a backtick substitution, after the opening backtick.\<close>

function backtick_loop :: "lexer \<Rightarrow> lexer" where
  "backtick_loop l =
     (case peek l of
        None \<Rightarrow> l
      | Some c \<Rightarrow>
          if c = NL then l
          else if c = BSLASH then backtick_loop (skip_escaped l)
          else if c = BTICK then advance l
          else backtick_loop (advance l))"
  by pat_completeness auto
termination
  by (relation "measure left") (auto dest: left_advance_peek left_skip_escaped)

declare backtick_loop.simps [simp del]

text \<open>After the \<open>$\<close> of a word: the whole of \<open>${..}\<close>, \<open>$(..)\<close>, \<open>$((..))\<close> or a name.\<close>

definition is_dollar_char :: "char \<Rightarrow> bool" where
  "is_dollar_char c \<longleftrightarrow> is_ascii_alphanumeric c \<or> c = CHR ''_''
     \<or> c \<in> {CHR ''@'', CHR ''*'', CHR ''#'', CHR ''?'', CHR ''$'', CHR ''!''}"

definition lex_dollar :: "unit lex" where
  "lex_dollar =
     (\<lambda>l. case peek l of
        None \<Rightarrow> (Ok (), l)
      | Some c \<Rightarrow>
          if c = CHR ''{'' then consume_balanced CHR ''{'' CHR ''}'' (advance l)
          else if c = CHR ''('' then
            (let l1 = advance l in
             if peek l1 = Some CHR ''('' then consume_balanced_depth CHR ''('' CHR '')'' 2 (advance l1)
             else consume_balanced_depth CHR ''('' CHR '')'' 1 l1)
          else if is_dollar_char c then
            (Ok (), if is_ascii_alphabetic c \<or> c = CHR ''_'' then advance_while is_ident_char (advance l)
                    else advance l)
          else (Ok (), l))"

lemma left_balanced: "left (snd (balanced_loop a b e d l)) \<le> left l"
proof (induction a b e d l rule: balanced_loop.induct)
  case (1 a b e d l)
  show ?case
    using 1 left_advance_peek [of l] left_skip_quoted [of l] left_advance_le [of l]
    by (subst balanced_loop.simps) (fastforce split: option.split)
qed

lemma left_lex_dollar: "left (snd (lex_dollar l)) \<le> left l"
proof -
  have "left (snd (balanced_loop a b e d (advance l))) \<le> left l"
    "left (snd (balanced_loop a b e d (advance (advance l)))) \<le> left l"
    "left (advance_while P (advance l)) \<le> left l" for a b e d P
    using left_balanced left_advance_le left_advance_while by (meson order_trans)+
  then show ?thesis
    using left_advance_le [of l]
    by (auto simp: lex_dollar_def consume_balanced_def consume_balanced_depth_def Let_def split: option.split)
qed

lemma left_backtick: "left (backtick_loop l) \<le> left l"
proof (induction l rule: backtick_loop.induct)
  case (1 l)
  show ?case
    using 1 left_advance_peek [of l] left_skip_escaped [of l] left_advance_le [of l]
    by (subst backtick_loop.simps) (fastforce split: option.split)
qed

function word_loop :: "unit lex" where
  "word_loop l =
     (case peek l of
        None \<Rightarrow> (Ok (), l)
      | Some c \<Rightarrow>
          if c = BSLASH then word_loop (skip_escaped l)
          else if c = CHR ''$'' then
            (case lex_dollar (advance l) of
               (Ok _, l1) \<Rightarrow> word_loop l1
             | (r, l1) \<Rightarrow> (r, l1))
          else if c = BTICK then word_loop (backtick_loop (advance l))
          else if is_word_char c then word_loop (advance l)
          else (Ok (), l))"
  by pat_completeness auto
termination
proof (relation "measure left")
  fix l c r l1 u
  assume "peek l = Some c" and "(r, l1) = lex_dollar (advance l)"
  then show "(l1, l) \<in> measure left"
    using left_lex_dollar [of "advance l"] left_advance_peek [of l c] by (simp, metis le_less_trans snd_conv)
qed (auto dest: left_advance_peek left_skip_escaped intro: le_less_trans [OF left_backtick])

declare word_loop.simps [simp del]

definition lex_word :: "nat \<Rightarrow> token lex" where
  "lex_word start =
     andThen word_loop (\<lambda>_ l. (Ok (Token (TkWord (slice l start (lx_pos l))) (span_from start l)), l))"

section \<open>Inside double quotes\<close>

fun unescape_dq :: "string \<Rightarrow> string" where
  "unescape_dq [] = []"
| "unescape_dq [c] = [c]"
| "unescape_dq (c # d # s) =
     (if c = BSLASH then
        (if d \<in> {DQUOTE, BSLASH, CHR ''$'', BTICK} then d # unescape_dq s
         else if d = NL then unescape_dq s
         else c # d # unescape_dq s)
      else c # unescape_dq (d # s))"

function dq_text_loop :: "lexer \<Rightarrow> lexer" where
  "dq_text_loop l =
     (case peek l of
        None \<Rightarrow> l
      | Some c \<Rightarrow>
          if c \<in> {DQUOTE, CHR ''$'', BTICK} then l
          else if c = BSLASH then dq_text_loop (skip_escaped l)
          else dq_text_loop (advance l))"
  by pat_completeness auto
termination
  by (relation "measure left") (auto dest: left_advance_peek left_skip_escaped)

declare dq_text_loop.simps [simp del]

definition lex_dq_fragment :: "token lex" where
  "lex_dq_fragment =
     (\<lambda>l. let start = lx_pos l in
        case peek l of
          None \<Rightarrow> (Err (ParseError (span_eof (lx_pos l)) ''unterminated double-quoted string''), l)
        | Some c \<Rightarrow>
            if c = DQUOTE then tok DoubleQuoteClose start (advance l)
            else if c = CHR ''$'' \<or> c = BTICK then lex_word start l
            else (let l1 = dq_text_loop l in
                  tok (DQText (unescape_dq (slice l1 start (lx_pos l1)))) start l1))"

section \<open>Redirections\<close>

definition is_fd_redirect :: "lexer \<Rightarrow> bool" where
  "is_fd_redirect l =
     (let rem = remaining l; rest = dropWhile is_ascii_digit rem in
      takeWhile is_ascii_digit rem \<noteq> [] \<and> rest \<noteq> [] \<and> hd rest \<in> {CHR ''<'', CHR ''>''})"

definition quoted_delimiter :: "char \<Rightarrow> nat \<Rightarrow> (string \<times> bool) lex" where
  "quoted_delimiter q start =
     (\<lambda>l. let text_start = lx_pos l; l1 = advance_while (\<lambda>c. c \<noteq> NL \<and> c \<noteq> q) l in
        if peek l1 = Some q then (Ok (slice l1 text_start (lx_pos l1), True), advance l1)
        else (Err (ParseError (span_from start l1) ''unterminated heredoc delimiter quote''), l1))"

definition lex_heredoc_delimiter :: "(string \<times> bool) lex" where
  "lex_heredoc_delimiter =
     (\<lambda>l. let start = lx_pos l in
        if peek l = Some SQUOTE then quoted_delimiter SQUOTE start (advance l)
        else if peek l = Some DQUOTE then quoted_delimiter DQUOTE start (advance l)
        else
          (let l1 = advance_while (\<lambda>c. c \<notin> {NL, CHR '' '', TAB}) l in
           if lx_pos l1 = start
           then (Err (ParseError (span_eof (lx_pos l1)) ''expected heredoc delimiter after <<''), l1)
           else (Ok (slice l1 start (lx_pos l1), False), l1)))"

definition lex_redirect :: "nat \<Rightarrow> nat option \<Rightarrow> token lex" where
  "lex_redirect start pre_fd =
     (\<lambda>l. let fd_start = lx_pos l; l1 = advance_while is_ascii_digit l;
              fd_str = slice l1 fd_start (lx_pos l1);
              fd = (if fd_str \<noteq> [] then parse_unsigned 32 fd_str else pre_fd) in
        if peek l1 = Some CHR ''<'' then
          (let l2 = advance l1 in
           if peek l2 = Some CHR ''<'' then
             (case eat CHR ''-'' (advance l2) of (strip_tabs, l3) \<Rightarrow>
                andThen lex_heredoc_delimiter
                  (\<lambda>(delim, quoted). tok (HereDoc fd delim quoted strip_tabs) start)
                  (skip_whitespace_inline l3))
           else if peek l2 = Some CHR ''>'' then tok (TkRedirect fd LessGreater) start (advance l2)
           else if peek l2 = Some CHR ''&'' then tok (TkRedirect fd LessAmp) start (advance l2)
           else tok (TkRedirect fd Less) start l2)
        else if peek l1 = Some CHR ''>'' then
          (let l2 = advance l1 in
           if peek l2 = Some CHR ''>'' then tok (TkRedirect fd GreaterGreater) start (advance l2)
           else if peek l2 = Some CHR ''|'' then tok (TkRedirect fd GreaterPipe) start (advance l2)
           else if peek l2 = Some CHR ''&'' then tok (TkRedirect fd GreaterAmp) start (advance l2)
           else tok (TkRedirect fd Greater) start l2)
        else lex_word start (set_pos fd_start l1))"

section \<open>Tokens\<close>

definition lex_single_quote :: "nat \<Rightarrow> token lex" where
  "lex_single_quote start =
     (\<lambda>l. let l1 = advance l; text_start = lx_pos l1; l2 = advance_while (\<lambda>c. c \<noteq> SQUOTE) l1 in
        if peek l2 = None then (Err (ParseError (span_from start l2) ''unterminated single-quoted string''), l2)
        else tok (SingleQuote (slice l2 text_start (lx_pos l2))) start (advance l2))"

text \<open>One character, or the same twice for another token.\<close>

definition lex_double :: "char \<Rightarrow> token_kind \<Rightarrow> token_kind \<Rightarrow> nat \<Rightarrow> token lex" where
  "lex_double c two one start =
     (\<lambda>l. case eat c (advance l) of (b, l1) \<Rightarrow> tok (if b then two else one) start l1)"

function next_token :: "bool \<Rightarrow> token lex" where
  "next_token in_dq l0 =
     (if in_dq then lex_dq_fragment l0
      else
        (let l = skip_whitespace_inline l0; start = lx_pos l in
         case peek l of
           None \<Rightarrow> (Ok (Token Eof (span_eof (lx_pos l))), l)
         | Some c \<Rightarrow>
             if c = CHR ''#'' then next_token False (skip_comment l)
             else if c = NL then tok Newline start (advance l)
             else if c = CHR '';'' then lex_double CHR '';'' SemiSemi Semi start l
             else if c = CHR ''&'' then lex_double CHR ''&'' AndAnd Amp start l
             else if c = CHR ''|'' then lex_double CHR ''|'' OrOr Pipe start l
             else if c = CHR ''('' then tok LParen start (advance l)
             else if c = CHR '')'' then tok RParen start (advance l)
             else if c = CHR ''{'' then tok LBrace start (advance l)
             else if c = CHR ''}'' then tok RBrace start (advance l)
             else if c = CHR ''!'' then tok Bang start (advance l)
             else if c = DQUOTE then tok DoubleQuoteOpen start (advance l)
             else if c = SQUOTE then lex_single_quote start l
             else if c = CHR ''<'' \<or> c = CHR ''>'' then lex_redirect start None l
             else if is_ascii_digit c then
               (if is_fd_redirect l then lex_redirect start None l else lex_word start l)
             else lex_word start l))"
  by pat_completeness auto
termination
proof (relation "measure (left \<circ> snd)")
  fix in_dq :: bool and l0 l :: lexer and start c
  assume l: "l = skip_whitespace_inline l0" and c: "peek l = Some c" "c = CHR ''#''"
  have "skip_comment l = skip_comment (advance l)"
    using c unfolding skip_comment_def by (subst advance_while.simps) (simp add: char_consts)
  then have "left (skip_comment l) \<le> left (advance l)"
    unfolding skip_comment_def using left_advance_while by metis
  also have "\<dots> < left l" using left_advance_peek c by blast
  also have "left l \<le> left l0" unfolding l skip_whitespace_inline_def by (rule left_advance_while)
  finally show "((False, skip_comment l), in_dq, l0) \<in> measure (left \<circ> snd)" by simp
qed simp

declare next_token.simps [simp del]

section \<open>Heredoc bodies\<close>

text \<open>The lines up to the delimiter; the line that is it is left out.\<close>

lemma advance_while_stop: "peek (advance_while P l) = Some c \<Longrightarrow> \<not> P c"
proof (induction P l rule: advance_while.induct)
  case (1 P l)
  then show ?case by (subst (asm) (2) advance_while.simps) (auto split: option.splits if_splits)
qed

lemma is_eof_peek: "is_eof l \<longleftrightarrow> peek l = None"
  by (simp add: is_eof_def peek_None remaining_def)

lemma next_line_left:
  assumes "(b, l2) = eat NL (advance_while (\<lambda>c. c \<noteq> NL) l)" "\<not> is_eof l2"
  shows "left l2 < left l"
proof -
  let ?l1 = "advance_while (\<lambda>c. c \<noteq> NL) l"
  have "peek ?l1 = Some NL"
  proof (cases "peek ?l1")
    case None
    then show ?thesis using assms by (simp add: eat_def is_eof_peek)
  next
    case (Some c)
    then show ?thesis using advance_while_stop [OF Some] by simp
  qed
  then have "left l2 < left ?l1" using assms(1) left_advance_peek by (simp add: eat_def)
  then show ?thesis using left_advance_while by (meson less_le_trans)
qed

function body_loop :: "string \<Rightarrow> bool \<Rightarrow> nat \<Rightarrow> string \<Rightarrow> string lex" where
  "body_loop delimiter strip_tabs body_start body l =
     (let line_start = lx_pos l;
          l1 = advance_while (\<lambda>c. c \<noteq> NL) l;
          line = slice l1 line_start (lx_pos l1) in
      case eat NL l1 of (had_newline, l2) \<Rightarrow>
        (let stripped = (if strip_tabs then trim_start_matches TAB line else line) in
         if stripped = delimiter then (Ok body, l2)
         else
           (let body1 = body @ line @ (if had_newline then [NL] else []) in
            if is_eof l2
            then (Err (ParseError (Span body_start (lx_pos l2 - body_start))
                    (''unterminated heredoc: missing delimiter `'' @ delimiter @ ''`'')), l2)
            else body_loop delimiter strip_tabs body_start body1 l2)))"
  by pat_completeness auto
termination
  by (relation "measure (\<lambda>(_, _, _, _, l). left l)") (auto dest: next_line_left)

declare body_loop.simps [simp del]

fun collect_heredoc_bodies :: "(string \<times> bool \<times> bool) list \<Rightarrow> string list lex" where
  "collect_heredoc_bodies [] = ret []"
| "collect_heredoc_bodies ((delimiter, quoted, strip_tabs) # hs) =
     (\<lambda>l. andThen (body_loop delimiter strip_tabs (lx_pos l) [])
        (\<lambda>body. andThen (collect_heredoc_bodies hs) (\<lambda>bodies. ret (body # bodies))) l)"

end
