(* ===== verification/WordParser.thy ===== *)
theory WordParser
  imports Lexer
begin

text \<open>
  The word level of \<open>parser.rs\<close>: the free functions that take a word or the text of a
  double-quoted string apart. A command substitution is parsed by a nested call of \<open>parse\<close>,
  which is the argument \<open>cb\<close> of the functions here; the only state a nested parse shares with its
  caller is the thread-local queue of heredoc bodies, with the flag of its \<open>RefCell\<close>.
\<close>

record tls =
  hd_queue :: "(bool \<times> string) list"
  hd_borrowed :: bool

type_synonym 'a tact = "(tls, 'a, parse_error) act"

type_synonym parse_cb = "string \<Rightarrow> script tact"

section \<open>Characters and names\<close>

text \<open>The length of the character at the head of a string.\<close>

definition char_len :: "string \<Rightarrow> nat" where
  "char_len s = snd (utf8_step s)"

lemma char_len_pos: "0 < char_len s"
  using utf8_step_pos [of s "fst (utf8_step s)" "char_len s"] by (simp add: char_len_def)

function advance_chars :: "nat \<Rightarrow> string \<Rightarrow> string" where
  "advance_chars n s =
     (if n = 0 \<or> s = [] then s else advance_chars (n - char_len s) (drop (char_len s) s))"
  by pat_completeness auto
termination
  by (relation "measure (length \<circ> snd)") (simp_all add: char_len_pos)

declare advance_chars.simps [simp del]

lemma length_advance_chars: "length (advance_chars n s) \<le> length s"
proof (induction n s rule: advance_chars.induct)
  case (1 n s)
  then show ?case by (subst advance_chars.simps) fastforce
qed

lemma length_advance_tl: "rest \<noteq> [] \<Longrightarrow> length (advance_chars n (tl rest)) < length rest"
  using length_advance_chars [of n "tl rest"] by (cases rest) auto

definition is_name_start :: "char \<Rightarrow> bool" where
  "is_name_start c \<longleftrightarrow> is_ascii_alphabetic c \<or> c = CHR ''_''"

definition is_valid_name :: "string \<Rightarrow> bool" where
  "is_valid_name s \<longleftrightarrow> s \<noteq> [] \<and> is_name_start (hd s) \<and> list_all is_ident_char s"

definition split_assignment :: "string \<Rightarrow> (string \<times> string) option" where
  "split_assignment s =
     (case split_once CHR ''='' s of
        None \<Rightarrow> None
      | Some (name, v) \<Rightarrow>
          if name = [] then None
          else if \<not> is_name_start (hd name) then None
          else if \<not> list_all is_ident_char name then None
          else Some (name, v))"

definition is_var_op :: "char \<Rightarrow> bool" where
  "is_var_op c \<longleftrightarrow> c \<in> {CHR ''-'', CHR ''='', CHR ''+'', CHR ''?''}"

text \<open>The loop over the bytes, at index \<open>i\<close>.\<close>

fun find_var_operator_from :: "nat \<Rightarrow> string \<Rightarrow> nat option" where
  "find_var_operator_from i [] = None"
| "find_var_operator_from i (b # s) =
     (if b = CHR '':'' \<and> s \<noteq> [] then
        (if is_var_op (hd s) then Some i else find_var_operator_from (i + 1) s)
      else if is_var_op b \<and> 0 < i then Some i
      else find_var_operator_from (i + 1) s)"

definition find_var_operator :: "string \<Rightarrow> nat option" where
  "find_var_operator s = find_var_operator_from 0 s"

definition simplify_word_parts :: "word list \<Rightarrow> word" where
  "simplify_word_parts parts =
     (case parts of [] \<Rightarrow> Literal [] | [w] \<Rightarrow> w | _ \<Rightarrow> Concat parts)"

definition word_to_dq_part :: "word \<Rightarrow> dq_part" where
  "word_to_dq_part w =
     (case w of
        Literal s \<Rightarrow> DQLiteral s
      | Variable v \<Rightarrow> DQVariable v
      | CommandSubst s \<Rightarrow> DQCommandSubst s
      | ArithSubst s \<Rightarrow> DQArithSubst s
      | _ \<Rightarrow> DQLiteral [])"

section \<open>Substitutions\<close>

text \<open>
  \<open>extract_balanced\<close>, a loop over bytes. At depth one it slices the string at the current byte,
  which panics inside a character of several bytes.
\<close>

function extract_loop :: "string \<Rightarrow> char \<Rightarrow> char \<Rightarrow> nat \<Rightarrow> string \<Rightarrow> nat \<Rightarrow> nat
    \<Rightarrow> (string \<times> nat, parse_error) outcome" where
  "extract_loop s open_c close_c base close_str depth i =
     (if i < length s then
        (if depth = 1 \<and> \<not> is_char_boundary s i then Panic
         else if depth = 1 \<and> starts_with (drop i s) close_str
         then Ok (take i s, i + length close_str)
         else if s ! i = open_c
         then extract_loop s open_c close_c base close_str (depth + 1) (i + 1)
         else if s ! i = close_c then
           (if depth - 1 = 0 then Ok (take i s, i + 1)
            else extract_loop s open_c close_c base close_str (depth - 1) (i + 1))
         else extract_loop s open_c close_c base close_str depth (i + 1))
      else Err (ParseError (span_eof (base + i)) (''unmatched `'' @ close_str @ ''`'')))"
  by pat_completeness auto
termination
  by (relation "measure (\<lambda>(s, _, _, _, _, _, i). length s - i)") auto

declare extract_loop.simps [simp del]

definition extract_balanced :: "string \<Rightarrow> char \<Rightarrow> char \<Rightarrow> nat \<Rightarrow> string
    \<Rightarrow> (string \<times> nat, parse_error) outcome" where
  "extract_balanced s open_c close_c base close_str = extract_loop s open_c close_c base close_str 1 0"

definition parse_backtick :: "parse_cb \<Rightarrow> string \<Rightarrow> nat \<Rightarrow> (script \<times> nat) tact" where
  "parse_backtick cb s base =
     (case find_pos (\<lambda>c. c = BTICK) s of
        None \<Rightarrow> fail (ParseError (span_eof (base + length s)) ''unterminated backtick command substitution'')
      | Some close \<Rightarrow> andThen (cb (trim (take close s))) (\<lambda>script. ret (script, close + 1)))"

definition special_of :: "char \<Rightarrow> special_var option" where
  "special_of c =
     (if is_ascii_digit c then Some (if byte c - 48 = 0 then Zero else Positional (byte c - 48))
      else if c = CHR ''*'' then Some StarVar
      else if c = CHR ''@'' then Some AtVar
      else if c = CHR ''#'' then Some Hash
      else if c = CHR ''$'' then Some Pid
      else if c = CHR ''?'' then Some LastExit
      else if c = CHR ''!'' then Some LastBgPid
      else None)"

text \<open>The literal collected so far, as a part of its own when it is not empty.\<close>

definition flush_literal :: "string \<Rightarrow> word list" where
  "flush_literal lit = (if lit = [] then [] else [Literal lit])"

text \<open>
  \<open>parse_word_parts\<close> (its loop: \<open>i\<close> is the byte index of \<open>rest\<close> in the word), \<open>parse_dollar\<close> and
  \<open>parse_brace_var\<close>, which call each other on shorter and shorter strings.
\<close>

function word_parts_loop :: "parse_cb \<Rightarrow> nat \<Rightarrow> bool \<Rightarrow> nat \<Rightarrow> string \<Rightarrow> string \<Rightarrow> word list
      \<Rightarrow> word list tact"
  and parse_dollar :: "parse_cb \<Rightarrow> string \<Rightarrow> nat \<Rightarrow> (word \<times> nat) tact"
  and parse_brace_var :: "parse_cb \<Rightarrow> string \<Rightarrow> nat \<Rightarrow> (var_expr \<times> nat) tact"
where
  "word_parts_loop cb base inside_dq i rest lit parts =
     (if rest = [] then ret (parts @ flush_literal lit)
      else
        (let c = hd rest; n = char_len rest in
         if c = BSLASH \<and> \<not> inside_dq then
           (let r1 = tl rest in
            if r1 = [] then ret (parts @ flush_literal lit)
            else
              (let m = char_len r1; nc = take m r1 in
               word_parts_loop cb base inside_dq (i + 1 + m) (drop m r1)
                 (if nc = [NL] then lit else lit @ nc) parts))
         else if c = CHR ''$'' then
           andThen (parse_dollar cb rest (base + i)) (\<lambda>(part, consumed).
             (let r2 = advance_chars (consumed - 1) (tl rest) in
              word_parts_loop cb base inside_dq (i + (length rest - length r2)) r2 []
                (parts @ flush_literal lit @ [part])))
         else if c = BTICK then
           andThen (parse_backtick cb (tl rest) (base + i + 1)) (\<lambda>(script, consumed).
             (let r2 = advance_chars consumed (tl rest) in
              word_parts_loop cb base inside_dq (i + (length rest - length r2)) r2 []
                (parts @ flush_literal lit @ [CommandSubst script])))
         else word_parts_loop cb base inside_dq (i + n) (drop n rest) (lit @ take n rest) parts))"
| "parse_dollar cb s base =
     (let after = tl s in
      if after = [] then ret (Literal ''$'', 1)
      else if hd after = CHR ''('' then
        (if starts_with after ''(('' then
           andThen (lift_outcome (extract_balanced (drop 3 s) CHR ''('' CHR '')'' (base + 3) ''))''))
             (\<lambda>(inner, consumed). ret (ArithSubst inner, 3 + consumed))
         else
           andThen (lift_outcome (extract_balanced (drop 2 s) CHR ''('' CHR '')'' (base + 2) '')''))
             (\<lambda>(inner, consumed).
                andThen (cb (trim inner)) (\<lambda>script. ret (CommandSubst script, 2 + consumed))))
      else if hd after = CHR ''{'' then
        andThen (parse_brace_var cb (tl after) (base + 2))
          (\<lambda>(var_expr, consumed). ret (Variable var_expr, 2 + consumed + 1))
      else
        (case special_of (hd after) of
           Some sp \<Rightarrow> ret (Variable (Special sp), 2)
         | None \<Rightarrow>
             (let name = takeWhile is_ident_char after in
              if name = [] then ret (Literal ''$'', 1)
              else ret (Variable (SimpleVar name), 1 + length name))))"
| "parse_brace_var cb s base =
     (case find_pos (\<lambda>c. c = CHR ''}'') s of
        None \<Rightarrow> fail (ParseError (span_eof (base + length s)) ''unclosed `${`'')
      | Some close \<Rightarrow>
          (let inner = take close s in
           if inner = [] then fail (ParseError (Span base (close + 1)) ''empty variable expression `${}`'')
           else if hd inner = CHR ''#'' \<and> is_valid_name (tl inner) then ret (Length (tl inner), close)
           else
             (case find_var_operator inner of
                None \<Rightarrow> ret (SimpleVar inner, close)
              | Some op_pos \<Rightarrow>
                  (let name = take op_pos inner;
                       op_at = (if inner ! op_pos = CHR '':'' then op_pos + 1 else op_pos);
                       op_char = inner ! op_at in
                   andThen (word_parts_loop cb (base + op_at + 1) False 0 (drop (op_at + 1) inner) [] [])
                     (\<lambda>parts.
                        let word = simplify_word_parts parts in
                        if op_char = CHR ''-'' then ret (DefaultIfUnset name word, close)
                        else if op_char = CHR ''='' then ret (AssignIfUnset name word, close)
                        else if op_char = CHR ''+'' then ret (AlternateIfSet name word, close)
                        else if op_char = CHR ''?'' then ret (ErrorIfUnset name word, close)
                        else panic)))))"
  by pat_completeness auto
termination
  apply (relation "measure (case_sum (\<lambda>(_, _, _, _, rest, _, _). 3 * length rest + 2)
    (case_sum (\<lambda>(_, s, _). 3 * length s + 1) (\<lambda>(_, s, _). 3 * length s)))")
  apply (simp_all add: char_len_pos length_advance_tl)
  apply (frule find_pos_Some)
  apply (simp, linarith)
  done

declare word_parts_loop.simps [simp del] parse_dollar.simps [simp del] parse_brace_var.simps [simp del]

definition parse_word_parts :: "parse_cb \<Rightarrow> string \<Rightarrow> nat \<Rightarrow> bool \<Rightarrow> word list tact" where
  "parse_word_parts cb s base inside_dq = word_parts_loop cb base inside_dq 0 s [] []"

definition parse_word_str_inner :: "parse_cb \<Rightarrow> string \<Rightarrow> nat \<Rightarrow> word tact" where
  "parse_word_str_inner cb s base =
     andThen (parse_word_parts cb s base False) (\<lambda>parts. ret (simplify_word_parts parts))"

section \<open>The text of double quotes\<close>

definition flush_dq :: "string \<Rightarrow> dq_part list" where
  "flush_dq lit = (if lit = [] then [] else [DQLiteral lit])"

function dq_parts_loop :: "parse_cb \<Rightarrow> nat \<Rightarrow> nat \<Rightarrow> string \<Rightarrow> string \<Rightarrow> dq_part list
    \<Rightarrow> dq_part list tact" where
  "dq_parts_loop cb base i rest lit parts =
     (if rest = [] then ret (parts @ flush_dq lit)
      else
        (let c = hd rest; n = char_len rest in
         if c = CHR ''$'' then
           andThen (parse_dollar cb rest (base + i)) (\<lambda>(part, consumed).
             (let r2 = advance_chars (consumed - 1) (tl rest) in
              dq_parts_loop cb base (i + (length rest - length r2)) r2 []
                (parts @ flush_dq lit @ [word_to_dq_part part])))
         else if c = BTICK then
           andThen (parse_backtick cb (tl rest) (base + i + 1)) (\<lambda>(script, consumed).
             (let r2 = advance_chars consumed (tl rest) in
              dq_parts_loop cb base (i + (length rest - length r2)) r2 []
                (parts @ flush_dq lit @ [DQCommandSubst script])))
         else dq_parts_loop cb base (i + n) (drop n rest) (lit @ take n rest) parts))"
  by pat_completeness auto
termination
  by (relation "measure (\<lambda>(_, _, _, rest, _, _). length rest)")
     (simp_all add: char_len_pos length_advance_tl)

declare dq_parts_loop.simps [simp del]

definition parse_dq_word_parts :: "parse_cb \<Rightarrow> string \<Rightarrow> nat \<Rightarrow> dq_part list tact" where
  "parse_dq_word_parts cb s base = dq_parts_loop cb base 0 s [] []"

section \<open>Heredoc bodies\<close>

text \<open>
  \<open>fill_heredoc_bodies\<close> drains the queue and hands its bodies to the heredoc redirections of the
  script in order; the queue stays borrowed meanwhile. The state of the traversal is what is left
  of the drained queue, with the thread-local itself. A panic gives the borrow back too: that is what
  unwinding does on a native target, where the thread may go on. On \<open>wasm32\<close> a panic is a trap that
  leaves the cell borrowed; the shell object is then lost in any case (\<open>trap_is_final\<close>).
\<close>

type_synonym 'a fact = "((bool \<times> string) list \<times> tls, 'a, parse_error) act"

text \<open>\<open>parse_dq_word_parts(..).unwrap_or_else(..)\<close>: an error gives the body as one literal.\<close>

definition body_parts :: "parse_cb \<Rightarrow> string \<Rightarrow> dq_part list fact" where
  "body_parts cb body =
     (\<lambda>(q, t). case parse_dq_word_parts cb body 0 t of
        (Err _, t1) \<Rightarrow> (Ok [DQLiteral body], q, t1)
      | (r, t1) \<Rightarrow> (r, q, t1))"

definition fill_redirect :: "parse_cb \<Rightarrow> redirect \<Rightarrow> redirect fact" where
  "fill_redirect cb r =
     (case rd_target r of
        THeredoc h \<Rightarrow>
          (\<lambda>(q, t). case q of
             [] \<Rightarrow> (Ok r, q, t)
           | (quoted, body) # q1 \<Rightarrow>
               (if quoted
                then (Ok (Redirect (rd_fd r) (rd_kind r) (THeredoc
                       (Heredoc (hd_delimiter h) (hd_quoted h) (hd_strip_tabs h) (HBLiteral body)))),
                      q1, t)
                else andThen (body_parts cb body) (\<lambda>parts.
                       ret (Redirect (rd_fd r) (rd_kind r) (THeredoc
                         (Heredoc (hd_delimiter h) (hd_quoted h) (hd_strip_tabs h) (HBParts parts)))))
                     (q1, t)))
      | _ \<Rightarrow> ret r)"

fun fill_redirects :: "parse_cb \<Rightarrow> redirect list \<Rightarrow> redirect list fact" where
  "fill_redirects cb [] = ret []"
| "fill_redirects cb (r # rs) =
     andThen (fill_redirect cb r) (\<lambda>r1. andThen (fill_redirects cb rs) (\<lambda>rs1. ret (r1 # rs1)))"

definition fill_simple :: "parse_cb \<Rightarrow> simple_command \<Rightarrow> simple_command fact" where
  "fill_simple cb sc =
     andThen (fill_redirects cb (sc_redirects sc))
       (\<lambda>rs. ret (SimpleCommand (sc_assignments sc) (sc_name sc) (sc_args sc) rs))"

fun fill_stages :: "parse_cb \<Rightarrow> simple_command list \<Rightarrow> simple_command list fact" where
  "fill_stages cb [] = ret []"
| "fill_stages cb (sc # scs) =
     andThen (fill_simple cb sc) (\<lambda>sc1. andThen (fill_stages cb scs) (\<lambda>scs1. ret (sc1 # scs1)))"

fun fill_cmd :: "parse_cb \<Rightarrow> command \<Rightarrow> command fact"
  and fill_script :: "parse_cb \<Rightarrow> script \<Rightarrow> script fact" where
  "fill_cmd cb (Simple sc) = andThen (fill_simple cb sc) (\<lambda>sc1. ret (Simple sc1))"
| "fill_cmd cb (Pipeline scs neg) = andThen (fill_stages cb scs) (\<lambda>scs1. ret (Pipeline scs1 neg))"
| "fill_cmd cb (AndCmd l r) =
     andThen (fill_cmd cb l) (\<lambda>l1. andThen (fill_cmd cb r) (\<lambda>r1. ret (AndCmd l1 r1)))"
| "fill_cmd cb (OrCmd l r) =
     andThen (fill_cmd cb l) (\<lambda>l1. andThen (fill_cmd cb r) (\<lambda>r1. ret (OrCmd l1 r1)))"
| "fill_cmd cb (Sequence cmds) = andThen (fill_script cb cmds) (\<lambda>cmds1. ret (Sequence cmds1))"
| "fill_cmd cb (Background c) = andThen (fill_cmd cb c) (\<lambda>c1. ret (Background c1))"
| "fill_cmd cb (Subshell s) = andThen (fill_script cb s) (\<lambda>s1. ret (Subshell s1))"
| "fill_cmd cb (Group s) = andThen (fill_script cb s) (\<lambda>s1. ret (Group s1))"
| "fill_script cb [] = ret []"
| "fill_script cb (c # cs) =
     andThen (fill_cmd cb c) (\<lambda>c1. andThen (fill_script cb cs) (\<lambda>cs1. ret (c1 # cs1)))"

definition fill_heredoc_bodies :: "parse_cb \<Rightarrow> script \<Rightarrow> script tact" where
  "fill_heredoc_bodies cb script =
     (\<lambda>t. if hd_borrowed t then (Panic, t)
          else (case fill_script cb script (hd_queue t, t\<lparr>hd_queue := [], hd_borrowed := True\<rparr>) of
                  (r, q, t1) \<Rightarrow> (r, t1\<lparr>hd_borrowed := False\<rparr>)))"

end
