(* ===== verification/Parser.thy ===== *)
theory Parser
  imports WordParser
begin

text \<open>
  The recursive-descent parser of \<open>parser.rs\<close>. The state is the parser record with the
  thread-local heredoc queue; a nested parse (of a command substitution) starts a parser of its own
  on the same queue. Loops and \<open>parse_command\<close> have a fuel argument, and \<open>parse_n\<close> a bound on
  the nesting of parses; \<open>ParserTotal\<close> shows that the amounts \<open>parse\<close> computes from its input
  are always enough.
\<close>

record parser =
  ps_lexer :: lexer
  ps_peeked :: "token option"
  ps_in_dq :: bool
  ps_pending :: "(string \<times> bool \<times> bool) list"
  ps_tls :: tls

type_synonym 'a pact = "(parser, 'a, parse_error) act"

definition parser_new :: "string \<Rightarrow> tls \<Rightarrow> parser" where
  "parser_new src t = \<lparr>ps_lexer = lexer_new src, ps_peeked = None, ps_in_dq = False,
     ps_pending = [], ps_tls = t\<rparr>"

definition on_lexer :: "'a lex \<Rightarrow> 'a pact" where
  "on_lexer m = (\<lambda>p. case m (ps_lexer p) of (r, l) \<Rightarrow> (r, p\<lparr>ps_lexer := l\<rparr>))"

definition on_tls :: "'a tact \<Rightarrow> 'a pact" where
  "on_tls m = (\<lambda>p. case m (ps_tls p) of (r, t) \<Rightarrow> (r, p\<lparr>ps_tls := t\<rparr>))"

section \<open>Token management\<close>

definition p_peek :: "token pact" where
  "p_peek =
     (\<lambda>p. case ps_peeked p of
        Some t \<Rightarrow> (Ok t, p)
      | None \<Rightarrow> andThen (on_lexer (next_token (ps_in_dq p)))
                  (\<lambda>t. andThen (modify (ps_peeked_update (\<lambda>_. Some t))) (\<lambda>_. ret t)) p)"

definition p_next :: "token pact" where
  "p_next =
     (\<lambda>p. case ps_peeked p of
        Some t \<Rightarrow> (Ok t, p\<lparr>ps_peeked := None\<rparr>)
      | None \<Rightarrow> on_lexer (next_token (ps_in_dq p)) p)"

definition peek_kind :: "token_kind pact" where
  "peek_kind = andThen p_peek (\<lambda>t. ret (tk_kind t))"

definition peek_span :: "span pact" where
  "peek_span = andThen p_peek (\<lambda>t. ret (tk_span t))"

text \<open>The bodies of the pending heredocs go to the queue, which must not be borrowed.\<close>

definition push_bodies :: "(string \<times> bool \<times> bool) list \<Rightarrow> string list \<Rightarrow> unit tact" where
  "push_bodies heredocs bodies =
     (\<lambda>t. if hd_borrowed t then (Panic, t)
          else (Ok (), t\<lparr>hd_queue := hd_queue t @ zip (map (\<lambda>(_, quoted, _). quoted) heredocs) bodies\<rparr>))"

definition flush_heredocs :: "unit pact" where
  "flush_heredocs =
     andThen (gets ps_pending) (\<lambda>heredocs.
       if heredocs = [] then ret ()
       else andThen (modify (ps_pending_update (\<lambda>_. []))) (\<lambda>_.
            andThen (on_lexer (collect_heredoc_bodies heredocs)) (\<lambda>bodies.
            on_tls (push_bodies heredocs bodies))))"

fun skip_newlines :: "nat \<Rightarrow> bool \<Rightarrow> bool pact" where
  "skip_newlines 0 any = noFuel"
| "skip_newlines (Suc k) any =
     andThen peek_kind (\<lambda>t.
       if t = Newline then andThen p_next (\<lambda>_. andThen flush_heredocs (\<lambda>_. skip_newlines k True))
       else ret any)"

definition skip_list_separator :: "bool pact" where
  "skip_list_separator =
     andThen peek_kind (\<lambda>t. if t = Semi then andThen p_next (\<lambda>_. ret True) else ret False)"

section \<open>Words\<close>

fun dq_loop :: "parse_cb \<Rightarrow> span \<Rightarrow> nat \<Rightarrow> dq_part list \<Rightarrow> dq_part list pact" where
  "dq_loop cb open_span 0 parts = noFuel"
| "dq_loop cb open_span (Suc k) parts =
     andThen p_peek (\<lambda>t.
       case tk_kind t of
         DoubleQuoteClose \<Rightarrow> andThen p_next (\<lambda>_. ret parts)
       | DQText s \<Rightarrow> andThen p_next (\<lambda>_. dq_loop cb open_span k (parts @ [DQLiteral s]))
       | TkWord w \<Rightarrow> andThen p_next (\<lambda>_.
           andThen (on_tls (parse_dq_word_parts cb w (sp_start (tk_span t)))) (\<lambda>dq_parts.
           dq_loop cb open_span k (parts @ dq_parts)))
       | Eof \<Rightarrow> fail (ParseError open_span ''unterminated double-quoted string'')
       | kind \<Rightarrow> fail (ParseError (tk_span t)
           (''unexpected token '' @ debug_kind kind @ '' inside double-quoted string'')))"

definition parse_double_quoted :: "parse_cb \<Rightarrow> nat \<Rightarrow> word pact" where
  "parse_double_quoted cb k =
     andThen peek_span (\<lambda>open_span.
     andThen p_next (\<lambda>_.
     andThen (gets ps_in_dq) (\<lambda>old_in_dq.
     andThen (modify (ps_in_dq_update (\<lambda>_. True))) (\<lambda>_.
     andThen (dq_loop cb open_span k []) (\<lambda>parts.
     andThen (modify (ps_in_dq_update (\<lambda>_. old_in_dq))) (\<lambda>_.
     ret (DoubleQuoted parts)))))))"

text \<open>The loop of \<open>parse_word\<close> ends in a \<open>break\<close> after its first turn.\<close>

definition parse_word :: "parse_cb \<Rightarrow> nat \<Rightarrow> word pact" where
  "parse_word cb k =
     andThen
       (andThen p_peek (\<lambda>t.
         case tk_kind t of
           SingleQuote s \<Rightarrow> andThen p_next (\<lambda>_. ret [SingleQuoted s])
         | DoubleQuoteOpen \<Rightarrow> andThen (parse_double_quoted cb k) (\<lambda>w. ret [w])
         | TkWord w \<Rightarrow> andThen p_next (\<lambda>_.
             andThen (on_tls (parse_word_str_inner cb w (sp_start (tk_span t)))) (\<lambda>word.
             ret (case word of Concat ps \<Rightarrow> ps | other \<Rightarrow> [other])))
         | _ \<Rightarrow> ret []))
       (\<lambda>parts. ret (simplify_word_parts parts))"

section \<open>Redirections\<close>

definition parse_dup_redirect :: "parse_cb \<Rightarrow> nat \<Rightarrow> nat option \<Rightarrow> redirect_kind \<Rightarrow> redirect pact" where
  "parse_dup_redirect cb k fd kind =
     (let to_word = andThen (parse_word cb k) (\<lambda>w. ret (Redirect fd kind (TWord w))) in
      andThen peek_kind (\<lambda>t.
        case t of
          TkWord w \<Rightarrow>
            if w = ''-'' then andThen p_next (\<lambda>_. ret (Redirect fd kind TCloseFd))
            else (case parse_unsigned 32 w of
                    Some target_fd \<Rightarrow> andThen p_next (\<lambda>_. ret (Redirect fd kind (TFd target_fd)))
                  | None \<Rightarrow> to_word)
        | _ \<Rightarrow> to_word))"

definition or_fd :: "nat option \<Rightarrow> nat \<Rightarrow> nat option" where
  "or_fd fd d = (case fd of Some n \<Rightarrow> Some n | None \<Rightarrow> Some d)"

definition parse_redirect :: "parse_cb \<Rightarrow> nat \<Rightarrow> redirect pact" where
  "parse_redirect cb k =
     andThen p_next (\<lambda>t.
       case tk_kind t of
         TkRedirect fd op \<Rightarrow>
           (let plain = (\<lambda>default_fd kind. andThen (parse_word cb k)
                  (\<lambda>w. ret (Redirect (or_fd fd default_fd) kind (TWord w)))) in
            case op of
              Less \<Rightarrow> plain 0 Read
            | Greater \<Rightarrow> plain 1 Write
            | GreaterGreater \<Rightarrow> plain 1 Append
            | LessGreater \<Rightarrow> plain 0 ReadWrite
            | GreaterPipe \<Rightarrow> plain 1 Clobber
            | GreaterAmp \<Rightarrow> parse_dup_redirect cb k (or_fd fd 1) Write
            | LessAmp \<Rightarrow> parse_dup_redirect cb k (or_fd fd 0) Read)
       | HereDoc fd delimiter quoted strip_tabs \<Rightarrow>
           andThen (modify (ps_pending_update (\<lambda>ps. ps @ [(delimiter, quoted, strip_tabs)]))) (\<lambda>_.
           ret (Redirect (or_fd fd 0) Read (THeredoc (Heredoc delimiter quoted strip_tabs
                  (if quoted then HBLiteral [] else HBParts [])))))
       | _ \<Rightarrow> fail (ParseError (tk_span t) ''expected redirect operator''))"

section \<open>Simple commands\<close>

text \<open>The look-ahead for a function definition: a plain first word with \<open>(\<close> rhs after it.\<close>

definition is_plain_name :: "string \<Rightarrow> bool" where
  "is_plain_name w \<longleftrightarrow> CHR ''$'' \<notin> set w \<and> CHR ''('' \<notin> set w \<and> CHR ''{'' \<notin> set w \<and> BTICK \<notin> set w"

definition check_function_def :: "token \<Rightarrow> unit pact" where
  "check_function_def t =
     (case tk_kind t of
        TkWord w \<Rightarrow>
          if is_plain_name w then
            andThen (gets ps_peeked) (\<lambda>saved_peeked.
            andThen (gets (\<lambda>p. lx_pos (ps_lexer p))) (\<lambda>saved_pos.
            andThen p_next (\<lambda>_.
            andThen peek_kind (\<lambda>t1.
              if t1 = LParen
              then fail (ParseError (tk_span t) ''shell function definitions are not supported'')
              else modify (\<lambda>p. p\<lparr>ps_peeked := saved_peeked,
                                 ps_lexer := set_pos saved_pos (ps_lexer p)\<rparr>)))))
          else ret ()
      | _ \<Rightarrow> ret ())"

definition ends_command :: "token_kind \<Rightarrow> bool" where
  "ends_command t \<longleftrightarrow> t \<in> {Eof, Newline, Semi, Amp, AndAnd, OrOr, Pipe, RParen, RBrace}"

definition is_redirect_token :: "token_kind \<Rightarrow> bool" where
  "is_redirect_token t =
     (case t of TkRedirect _ _ \<Rightarrow> True | HereDoc _ _ _ _ \<Rightarrow> True | _ \<Rightarrow> False)"

definition is_word_token :: "token_kind \<Rightarrow> bool" where
  "is_word_token t =
     (case t of TkWord _ \<Rightarrow> True | SingleQuote _ \<Rightarrow> True | DoubleQuoteOpen \<Rightarrow> True | _ \<Rightarrow> False)"

definition assignment_of :: "bool \<Rightarrow> token_kind \<Rightarrow> (string \<times> string) option" where
  "assignment_of saw_name t =
     (case t of TkWord w \<Rightarrow> if saw_name then None else split_assignment w | _ \<Rightarrow> None)"

fun simple_loop :: "parse_cb \<Rightarrow> nat \<Rightarrow> simple_command \<Rightarrow> bool \<Rightarrow> command pact" where
  "simple_loop cb 0 sc saw_name = noFuel"
| "simple_loop cb (Suc k) sc saw_name =
     andThen p_peek (\<lambda>t.
       if ends_command (tk_kind t) then ret (Simple sc)
       else if is_redirect_token (tk_kind t) then
         andThen (parse_redirect cb k) (\<lambda>redir.
         simple_loop cb k (SimpleCommand (sc_assignments sc) (sc_name sc) (sc_args sc)
           (sc_redirects sc @ [redir])) saw_name)
       else if is_word_token (tk_kind t) then
         (case assignment_of saw_name (tk_kind t) of
            Some (name, value_str) \<Rightarrow>
              andThen p_next (\<lambda>_.
              andThen (on_tls (parse_word_str_inner cb value_str (sp_start (tk_span t) + length name + 1)))
                (\<lambda>value.
              simple_loop cb k (SimpleCommand (sc_assignments sc @ [(name, value)]) (sc_name sc)
                (sc_args sc) (sc_redirects sc)) saw_name))
          | None \<Rightarrow>
              andThen (if saw_name then ret () else check_function_def t) (\<lambda>_.
              andThen (parse_word cb k) (\<lambda>word.
                if saw_name
                then simple_loop cb k (SimpleCommand (sc_assignments sc) (sc_name sc)
                       (sc_args sc @ [word]) (sc_redirects sc)) True
                else simple_loop cb k (SimpleCommand (sc_assignments sc) (Some word)
                       (sc_args sc) (sc_redirects sc)) True)))
       else fail (ParseError (tk_span t)
              (''unexpected token '' @ debug_kind (tk_kind t) @ '' in command'')))"

definition parse_simple_command :: "parse_cb \<Rightarrow> nat \<Rightarrow> command pact" where
  "parse_simple_command cb k = simple_loop cb k empty_command False"

section \<open>The grammar\<close>

definition unsupported :: "token_kind \<Rightarrow> string option" where
  "unsupported t =
     (case t of
        TkWord w \<Rightarrow>
          if w = ''if'' then Some (''if statements are not supported '' @ [CHR 0xE2, CHR 0x80, CHR 0x94]
                                @ '' use && / || for conditionals'')
          else if w \<in> {''for'', ''while'', ''until''} then Some ''loops are not supported in this shell''
          else if w = ''case'' then Some ''case statements are not supported''
          else if w = ''select'' then Some ''select is not supported''
          else None
      | _ \<Rightarrow> None)"

definition command_to_simple :: "command \<Rightarrow> simple_command pact" where
  "command_to_simple cmd =
     (case cmd of
        Simple sc \<Rightarrow> ret sc
      | _ \<Rightarrow> (\<lambda>p. (Err (ParseError (span_eof (lx_pos (ps_lexer p)))
               ''only simple commands are supported as pipeline stages''), p)))"

text \<open>
  The functions between \<open>parse_script\<close> and \<open>parse_command\<close> take \<open>parse_command\<close> as their argument
  \<open>pc\<close>, and the two that go back to \<open>parse_script\<close> take it as \<open>ps\<close>; \<open>parse_command\<close> ties the knot.
\<close>

fun stages_loop :: "command pact \<Rightarrow> nat \<Rightarrow> bool \<Rightarrow> simple_command list \<Rightarrow> command pact" where
  "stages_loop pc 0 negated stages = noFuel"
| "stages_loop pc (Suc k) negated stages =
     andThen peek_kind (\<lambda>t.
       if t = Pipe then
         andThen p_next (\<lambda>_. andThen (skip_newlines k False) (\<lambda>_.
         andThen pc (\<lambda>cmd.
         andThen (command_to_simple cmd) (\<lambda>sc.
         stages_loop pc k negated (stages @ [sc])))))
       else ret (Pipeline stages negated))"

definition parse_pipeline :: "command pact \<Rightarrow> nat \<Rightarrow> bool \<Rightarrow> command pact" where
  "parse_pipeline pc k negated =
     andThen pc (\<lambda>first.
     andThen peek_kind (\<lambda>t.
       if t \<noteq> Pipe then
         ret (case first of Simple sc \<Rightarrow> if negated then Pipeline [sc] True else first | _ \<Rightarrow> first)
       else
         andThen (command_to_simple first) (\<lambda>first_sc. stages_loop pc k negated [first_sc])))"

definition parse_pipeline_cmd :: "command pact \<Rightarrow> nat \<Rightarrow> command pact" where
  "parse_pipeline_cmd pc k =
     andThen peek_kind (\<lambda>t.
       if t = Bang then andThen p_next (\<lambda>_. parse_pipeline pc k True)
       else parse_pipeline pc k False)"

fun list_item_loop :: "command pact \<Rightarrow> nat \<Rightarrow> command \<Rightarrow> command pact" where
  "list_item_loop pc 0 lhs = noFuel"
| "list_item_loop pc (Suc k) lhs =
     andThen peek_kind (\<lambda>t.
       if t = AndAnd then
         andThen p_next (\<lambda>_. andThen (skip_newlines k False) (\<lambda>_.
         andThen (parse_pipeline_cmd pc k) (\<lambda>rhs. list_item_loop pc k (AndCmd lhs rhs))))
       else if t = OrOr then
         andThen p_next (\<lambda>_. andThen (skip_newlines k False) (\<lambda>_.
         andThen (parse_pipeline_cmd pc k) (\<lambda>rhs. list_item_loop pc k (OrCmd lhs rhs))))
       else ret lhs)"

definition parse_list_item :: "command pact \<Rightarrow> nat \<Rightarrow> command pact" where
  "parse_list_item pc k =
     andThen (parse_pipeline_cmd pc k) (\<lambda>first.
     andThen (list_item_loop pc k first) (\<lambda>lhs.
     andThen peek_kind (\<lambda>t.
       if t = Amp then andThen p_next (\<lambda>_. ret (Background lhs)) else ret lhs)))"

fun script_loop :: "command pact \<Rightarrow> nat \<Rightarrow> script \<Rightarrow> script pact" where
  "script_loop pc 0 cmds = noFuel"
| "script_loop pc (Suc k) cmds =
     andThen peek_kind (\<lambda>t.
       if t \<in> {Eof, RParen, RBrace} then ret cmds
       else andThen (parse_list_item pc k) (\<lambda>c.
            andThen skip_list_separator (\<lambda>_.
            andThen (skip_newlines k False) (\<lambda>_.
            script_loop pc k (cmds @ [c])))))"

definition parse_script :: "command pact \<Rightarrow> nat \<Rightarrow> script pact" where
  "parse_script pc k = andThen (skip_newlines k False) (\<lambda>_. script_loop pc k [])"

definition parse_subshell :: "script pact \<Rightarrow> nat \<Rightarrow> command pact" where
  "parse_subshell ps k =
     andThen peek_span (\<lambda>start.
     andThen p_next (\<lambda>_.
     andThen (skip_newlines k False) (\<lambda>_.
     andThen ps (\<lambda>body.
     andThen p_peek (\<lambda>t.
       if tk_kind t = RParen then andThen p_next (\<lambda>_. ret (Subshell body))
       else if tk_kind t = Eof then fail (ParseError start ''unclosed subshell, missing `)`'')
       else fail (ParseError (tk_span t) ''expected `)` to close subshell''))))))"

definition parse_group :: "script pact \<Rightarrow> nat \<Rightarrow> command pact" where
  "parse_group ps k =
     andThen peek_span (\<lambda>start.
     andThen p_next (\<lambda>_.
     andThen (skip_newlines k False) (\<lambda>_.
     andThen ps (\<lambda>body.
     andThen skip_list_separator (\<lambda>_.
     andThen (skip_newlines k False) (\<lambda>_.
     andThen p_peek (\<lambda>t.
       if tk_kind t = RBrace then andThen p_next (\<lambda>_. ret (Group body))
       else if tk_kind t = Eof then fail (ParseError start ''unclosed group, missing `}`'')
       else fail (ParseError (tk_span t) ''expected `}` to close group''))))))))"

fun parse_command :: "parse_cb \<Rightarrow> nat \<Rightarrow> command pact" where
  "parse_command cb 0 = noFuel"
| "parse_command cb (Suc k) =
     andThen p_peek (\<lambda>t.
       if tk_kind t = LParen then parse_subshell (parse_script (parse_command cb k) k) k
       else if tk_kind t = LBrace then parse_group (parse_script (parse_command cb k) k) k
       else (case unsupported (tk_kind t) of
               Some msg \<Rightarrow> fail (ParseError (tk_span t) msg)
             | None \<Rightarrow> parse_simple_command cb k))"

section \<open>Entry point\<close>

definition grammar_fuel :: "string \<Rightarrow> nat" where
  "grammar_fuel src = 2 * length src + 4"

definition parse_with :: "parse_cb \<Rightarrow> string \<Rightarrow> script tact" where
  "parse_with cb src =
     andThen (\<lambda>t. case parse_script (parse_command cb (grammar_fuel src)) (grammar_fuel src)
                         (parser_new src t) of (r, p) \<Rightarrow> (r, ps_tls p))
       (fill_heredoc_bodies cb)"

fun parse_n :: "nat \<Rightarrow> string \<Rightarrow> script tact" where
  "parse_n 0 src = noFuel"
| "parse_n (Suc n) src = parse_with (parse_n n) src"

text \<open>
  A nested parse is of a part of the source, which is shorter, or of a body in the queue.
\<close>

definition nesting :: "string \<Rightarrow> tls \<Rightarrow> nat" where
  "nesting src t =
     Suc (length src + Max (set (length src # map (\<lambda>(_, b). length b) (hd_queue t))))"

definition parse :: "string \<Rightarrow> script tact" where
  "parse src = (\<lambda>t. parse_n (nesting src t) src t)"

definition tls_init :: tls where
  "tls_init = \<lparr>hd_queue = [], hd_borrowed = False\<rparr>"

end
