(* ===== verification/LexerTotal.thy ===== *)
theory LexerTotal
  imports Parser
begin

text \<open>
  The lexer as the parser relies on it. The locale \<open>token_source\<close> states the contract: a call
  returns a token or an error, stays in its source, never goes back, and takes input for every
  token but the end. \<open>next_token\<close> is shown to keep it.
\<close>

section \<open>Scanning functions keep the source\<close>

definition settled :: "('a, 'e) outcome \<Rightarrow> bool" where
  "settled r \<longleftrightarrow> r \<noteq> OutOfFuel \<and> r \<noteq> SourceLimit"

lemma settled_simps [simp]:
  "settled (Ok a)" "settled (Err e)" "settled Panic" "\<not> settled OutOfFuel" "\<not> settled SourceLimit"
  by (simp_all add: settled_def)

text \<open>\<open>l'\<close> is \<open>l\<close> some whole characters further on.\<close>

definition ahead :: "lexer \<Rightarrow> lexer \<Rightarrow> bool" where
  "ahead l l' \<longleftrightarrow> (\<exists>n. l' = (advance ^^ n) l)"

lemma ahead_refl [simp]: "ahead l l"
  unfolding ahead_def by (rule exI [of _ 0]) simp

lemma ahead_trans [trans]: "ahead l l' \<Longrightarrow> ahead l' l'' \<Longrightarrow> ahead l l''"
  unfolding ahead_def by (metis comp_apply funpow_add)

lemma ahead_advance [simp, intro]: "ahead l (advance l)"
  unfolding ahead_def by (rule exI [of _ 1]) simp

lemma ahead_src: "ahead l l' \<Longrightarrow> lx_src l' = lx_src l"
proof -
  have "lx_src ((advance ^^ n) l) = lx_src l" for n
    by (induction n) (simp_all add: advance_def set_pos_def)
  then show "ahead l l' \<Longrightarrow> lx_src l' = lx_src l" by (auto simp: ahead_def)
qed

lemma ahead_left: "ahead l l' \<Longrightarrow> left l' \<le> left l"
proof -
  have "left ((advance ^^ n) l) \<le> left l" for n
    by (induction n) (auto intro: le_trans [OF left_advance_le])
  then show "ahead l l' \<Longrightarrow> left l' \<le> left l" by (auto simp: ahead_def)
qed

lemma ahead_advance_while [simp, intro]: "ahead l (advance_while P l)"
proof (induction P l rule: advance_while.induct)
  case (1 P l)
  show ?case
  proof (subst advance_while.simps, cases "peek l")
    case (Some c)
    then show "ahead l (case peek l of None \<Rightarrow> l | Some c \<Rightarrow> if P c then advance_while P (advance l) else l)"
      using 1 ahead_advance [of l] ahead_trans by auto
  qed simp
qed

lemma ahead_eat [simp, intro]: "ahead l (snd (eat c l))"
  by (simp add: eat_def)

lemma ahead_skip_whitespace [simp, intro]: "ahead l (skip_whitespace_inline l)"
  by (simp add: skip_whitespace_inline_def)

lemma ahead_skip_comment [simp, intro]: "ahead l (skip_comment l)"
  by (simp add: skip_comment_def)

lemma ahead_skip_quoted [simp, intro]: "ahead l (skip_quoted l)"
  unfolding skip_quoted_def by (meson ahead_trans ahead_advance ahead_advance_while ahead_eat)

lemma ahead_skip_escaped [simp, intro]: "ahead l (skip_escaped l)"
  using ahead_trans [OF ahead_advance [of l] ahead_advance [of "advance l"]]
  by (auto simp: skip_escaped_def Let_def)

lemma ahead_backtick [simp, intro]: "ahead l (backtick_loop l)"
proof (induction l rule: backtick_loop.induct)
  case (1 l)
  show ?case
    by (subst backtick_loop.simps)
       (use 1 ahead_trans [OF ahead_advance [of l]] ahead_trans [OF ahead_skip_escaped [of l]]
        in \<open>auto split: option.split\<close>)
qed

lemma ahead_dq_text [simp, intro]: "ahead l (dq_text_loop l)"
proof (induction l rule: dq_text_loop.induct)
  case (1 l)
  show ?case
    by (subst dq_text_loop.simps)
       (use 1 ahead_trans [OF ahead_advance [of l]] ahead_trans [OF ahead_skip_escaped [of l]]
        in \<open>auto split: option.split\<close>)
qed

text \<open>A lexer computation that returns, without a panic, and only moves ahead.\<close>

definition scans :: "lexer \<Rightarrow> ('a, parse_error) outcome \<times> lexer \<Rightarrow> bool" where
  "scans l x \<longleftrightarrow> settled (fst x) \<and> fst x \<noteq> Panic \<and> ahead l (snd x)"

lemma scans_ahead: "ahead l l' \<Longrightarrow> scans l' x \<Longrightarrow> scans l x"
  using ahead_trans by (auto simp: scans_def)

lemma scans_pair [simp]: "scans l (Ok a, l') = ahead l l'" "scans l (Err e, l') = ahead l l'"
  by (simp_all add: scans_def)

lemma scans_tok [simp]: "scans l (tok k s l') = ahead l l'"
  by (simp add: tok_def)

lemma scans_andThen:
  assumes "scans l (m l0)" "\<And>a l'. m l0 = (Ok a, l') \<Longrightarrow> scans l' (f a l')"
  shows "scans l (andThen m f l0)"
proof (cases "m l0")
  case (Pair r l')
  then have a: "ahead l l'" "settled r" "r \<noteq> Panic" using assms(1) by (auto simp: scans_def)
  show ?thesis
  proof (cases r)
    case (Ok v)
    then have "scans l (f v l')" using assms(2) Pair scans_ahead [OF a(1)] by simp
    then show ?thesis using Ok Pair by (simp add: andThen_def)
  qed (use a Pair in \<open>simp_all add: andThen_def\<close>)
qed

lemma scans_balanced: "scans l (balanced_loop a b e d l)"
proof (induction a b e d l rule: balanced_loop.induct)
  case (1 a b e d l)
  show ?case
  proof (cases "peek l")
    case (Some c)
    note IH = 1(1) [OF Some, THEN scans_ahead [OF ahead_skip_quoted]]
      1(2-4) [OF Some, THEN scans_ahead [OF ahead_advance]]
    show ?thesis
      using IH by (subst balanced_loop.simps) (simp add: Some)
  qed (subst balanced_loop.simps, simp)
qed

lemma scans_lex_dollar: "scans l (lex_dollar l)"
proof -
  have b: "scans l (balanced_loop a b e d l')" if "ahead l l'" for a b e d l'
    using scans_balanced scans_ahead that by blast
  have a2: "ahead l (advance (advance l))" by (meson ahead_trans ahead_advance)
  have w: "ahead l (advance_while P (advance l))" for P
    by (meson ahead_trans ahead_advance ahead_advance_while)
  show ?thesis
    using b a2 w by (auto simp: lex_dollar_def consume_balanced_def consume_balanced_depth_def Let_def
        split: option.split)
qed

lemma scans_word_loop: "scans l (word_loop l)"
proof (induction l rule: word_loop.induct)
  case (1 l)
  have d: "scans (advance l) (lex_dollar (advance l))" by (rule scans_lex_dollar)
  show ?case
  proof (subst word_loop.simps, cases "peek l")
    case (Some c)
    have dollar: "scans l (case lex_dollar (advance l) of (Ok _, l1) \<Rightarrow> word_loop l1 | (r, l1) \<Rightarrow> (r, l1))"
      if "c = CHR ''$''" "c \<noteq> BSLASH"
    proof (cases "lex_dollar (advance l)")
      case (Pair r l1)
      then have "ahead (advance l) l1" "settled r" "r \<noteq> Panic" using d by (auto simp: scans_def)
      then have a: "ahead l l1" using ahead_trans ahead_advance by blast
      show ?thesis
      proof (cases r)
        case (Ok u)
        then have "scans l1 (word_loop l1)" using 1(2) [OF Some that(2,1)] Pair by simp
        from scans_ahead [OF a this] show ?thesis using Pair Ok by simp
      qed (use Pair a \<open>settled r\<close> \<open>r \<noteq> Panic\<close> in auto)
    qed
    have bt: "ahead l (backtick_loop (advance l))" by (meson ahead_trans ahead_advance ahead_backtick)
    show "scans l (case peek l of None \<Rightarrow> (Ok (), l) | Some c \<Rightarrow>
          if c = BSLASH then word_loop (skip_escaped l)
          else if c = CHR ''$'' then
            (case lex_dollar (advance l) of
               (Ok _, l1) \<Rightarrow> word_loop l1
             | (r, l1) \<Rightarrow> (r, l1))
          else if c = BTICK then word_loop (backtick_loop (advance l))
          else if is_word_char c then word_loop (advance l)
          else (Ok (), l))"
      using Some 1(1) [OF Some, THEN scans_ahead [OF ahead_skip_escaped]]
        1(3) [OF Some, THEN scans_ahead [OF bt]]
        1(4) [OF Some, THEN scans_ahead [OF ahead_advance]] dollar
      by simp
  qed simp
qed

lemma scans_lex_word: "scans l (lex_word s l)"
  unfolding lex_word_def by (rule scans_andThen [OF scans_word_loop]) simp

section \<open>Every token takes input\<close>

text \<open>A scan from \<open>l0\<close> that, if it returns a token, has taken at least a byte.\<close>

definition takes :: "lexer \<Rightarrow> (token, parse_error) outcome \<times> lexer \<Rightarrow> bool" where
  "takes l x \<longleftrightarrow> scans l x \<and> (\<forall>t. fst x = Ok t \<longrightarrow>
     left (snd x) < left l \<and> (\<forall>w. tk_kind t = TkWord w \<longrightarrow> length w \<le> length (lx_src l)))"

lemma takes_ahead: "ahead l l' \<Longrightarrow> takes l' x \<Longrightarrow> takes l x"
  using scans_ahead [of l l' x] by (fastforce simp: takes_def dest: ahead_src ahead_left)

lemma left_less_ahead: "peek l = Some c \<Longrightarrow> ahead (advance l) l' \<Longrightarrow> left l' < left l"
  using left_advance_peek [of l c] ahead_left [of "advance l" l'] by simp

text \<open>Any token but a word, after at least one character.\<close>

lemma takes_tok:
  assumes "peek l = Some c" "ahead (advance l) l'" "\<And>w. k \<noteq> TkWord w"
  shows "takes l (tok k s l')"
  using assms left_less_ahead [OF assms(1,2)] ahead_trans [OF ahead_advance assms(2)]
  by (simp add: takes_def) (simp add: tok_def)

definition starts_word :: "char \<Rightarrow> bool" where
  "starts_word c \<longleftrightarrow> c = BSLASH \<or> c = CHR ''$'' \<or> c = BTICK \<or> is_word_char c"

lemma word_loop_step:
  assumes "peek l = Some c" "starts_word c" "word_loop l = (Ok u, l')"
  shows "left l' < left l"
proof -
  have w: "ahead l1 l'" if "word_loop l1 = (Ok u, l')" for l1
    using scans_word_loop [of l1] that by (simp add: scans_def)
  have d: "ahead (advance l) l1" if "lex_dollar (advance l) = (r, l1)" for r l1
    using scans_lex_dollar [of "advance l"] that by (simp add: scans_def)
  have e: "ahead (advance l) (skip_escaped l)"
    by (simp add: skip_escaped_def Let_def)
  have b: "ahead (advance l) (backtick_loop (advance l))" by (rule ahead_backtick)
  note run = assms(3) [unfolded word_loop.simps [of l] assms(1) option.case]
  have "ahead (advance l) l'"
  proof (cases "c = BSLASH")
    case True
    then have "word_loop (skip_escaped l) = (Ok u, l')" using run by simp
    then show ?thesis using e w ahead_trans by blast
  next
    case nb: False
    show ?thesis
    proof (cases "c = CHR ''$''")
      case True
      obtain r l1 where r: "lex_dollar (advance l) = (r, l1)" by fastforce
      then obtain v where "r = Ok v" using run nb True by (cases r) auto
      then have "word_loop l1 = (Ok u, l')" using run nb True r by simp
      then show ?thesis using d [OF r] w ahead_trans by blast
    next
      case nd: False
      show ?thesis
      proof (cases "c = BTICK")
        case True
        then have "word_loop (backtick_loop (advance l)) = (Ok u, l')" using run nb nd by simp
        then show ?thesis using b w ahead_trans by blast
      next
        case False
        then have "word_loop (advance l) = (Ok u, l')" using run nb nd assms(2) by (simp add: starts_word_def)
        then show ?thesis by (rule w)
      qed
    qed
  qed
  then show ?thesis by (rule left_less_ahead [OF assms(1)])
qed

lemma takes_lex_word:
  assumes "peek l = Some c" "starts_word c"
  shows "takes l (lex_word s l)"
  using scans_lex_word [of l s] word_loop_step [OF assms] scans_word_loop [of l]
  by (cases "word_loop l"; cases "fst (word_loop l)")
     (auto simp: takes_def lex_word_def andThen_def slice_def scans_def dest: ahead_src)

lemma takes_single_quote: "peek l = Some SQUOTE \<Longrightarrow> takes l (lex_single_quote s l)"
  using ahead_trans [OF ahead_advance [of l] ahead_advance_while]
    ahead_trans [OF ahead_advance_while ahead_advance]
  by (auto simp: lex_single_quote_def Let_def intro!: takes_tok) (auto simp: takes_def)

lemma takes_double:
  "peek l = Some c \<Longrightarrow> (\<And>w. two \<noteq> TkWord w) \<Longrightarrow> (\<And>w. one \<noteq> TkWord w) \<Longrightarrow> takes l (lex_double c two one s l)"
  by (auto simp: lex_double_def eat_def intro!: takes_tok)

lemma scans_delimiter: "scans l (lex_heredoc_delimiter l)"
proof -
  have q: "scans l (quoted_delimiter q s (advance l))" for q s
    using ahead_trans [OF ahead_advance [of l] ahead_advance_while]
      ahead_trans [OF ahead_trans [OF ahead_advance [of l] ahead_advance_while] ahead_advance]
    by (simp add: quoted_delimiter_def Let_def)
  show ?thesis by (auto simp: lex_heredoc_delimiter_def Let_def q)
qed

lemma takes_andThen:
  assumes "peek l = Some c" "scans (advance l) (m l0)"
    "\<And>a l'. m l0 = (Ok a, l') \<Longrightarrow> ahead (advance l) l' \<Longrightarrow> takes l (f a l')"
  shows "takes l (andThen m f l0)"
proof (cases "m l0")
  case (Pair r l')
  then have a: "ahead (advance l) l'" "settled r" "r \<noteq> Panic" using assms(2) by (auto simp: scans_def)
  then have "ahead l l'" using ahead_trans by blast
  then show ?thesis using assms(3) Pair a
    by (cases r) (auto simp: andThen_def takes_def)
qed

lemma word_char_cases:
  assumes "\<not> is_word_char c"
  shows "c \<in> {CHR '' '', TAB, NL, CHR ''|'', CHR ''&'', CHR '';'', CHR ''('', CHR '')'',
     CHR ''{'', CHR ''}'', CHR ''<'', CHR ''>'', DQUOTE, SQUOTE}"
  using assms by (simp add: is_word_char_def)

lemma digit_starts_word: "is_ascii_digit c \<Longrightarrow> starts_word c"
proof -
  assume d: "is_ascii_digit c"
  have "\<not> is_ascii_digit x" if "x \<in> {CHR '' '', TAB, NL, CHR ''|'', CHR ''&'', CHR '';'', CHR ''('',
      CHR '')'', CHR ''{'', CHR ''}'', CHR ''<'', CHR ''>'', DQUOTE, SQUOTE}" for x
    using that by (auto simp: is_ascii_digit_def char_consts)
  then have "is_word_char c" using d word_char_cases by blast
  then show ?thesis by (simp add: starts_word_def)
qed

lemma advance_while_first: "peek l = Some c \<Longrightarrow> \<not> P c \<Longrightarrow> advance_while P l = l"
  by (subst advance_while.simps) simp

lemma takes_redirect:
  assumes c: "peek l = Some c" "c = CHR ''<'' \<or> c = CHR ''>'' \<or> is_ascii_digit c"
  shows "takes l (lex_redirect s None l)"
proof -
  define l1 where "l1 = advance_while is_ascii_digit l"
  have a1: "ahead l l1" by (simp add: l1_def)
  show ?thesis
  proof (cases "peek l1 = Some CHR ''<'' \<or> peek l1 = Some CHR ''>''")
    case True
    then obtain d where d: "peek l1 = Some d" by blast
    have a2: "ahead (advance l1) (advance (advance l1))" by simp
    have a3: "ahead (advance l1) (skip_whitespace_inline (snd (eat x (advance (advance l1)))))" for x
      by (meson ahead_trans ahead_advance ahead_eat ahead_skip_whitespace)
    have h: "takes l1 (andThen lex_heredoc_delimiter (\<lambda>(delim, quoted). tok (HereDoc fd delim quoted st) s)
          (skip_whitespace_inline (snd (eat x (advance (advance l1))))))" for fd st x
    proof (rule takes_andThen [OF d])
      show "scans (advance l1) (lex_heredoc_delimiter (skip_whitespace_inline (snd (eat x (advance (advance l1))))))"
        by (rule scans_ahead [OF a3 scans_delimiter])
    qed (auto intro!: takes_tok [OF d])
    have "takes l1 (lex_redirect s None l)"
      using True h d a2
      by (auto simp: lex_redirect_def l1_def [symmetric] Let_def split: prod.split intro!: takes_tok)
         (metis snd_conv)+
    then show ?thesis by (rule takes_ahead [OF a1])
  next
    case False
    then have dig: "is_ascii_digit c"
      using c advance_while_first [OF c(1), of is_ascii_digit]
      by (auto simp: l1_def is_ascii_digit_def)
    have "set_pos (lx_pos l) l1 = l"
      using ahead_src [OF a1] by (cases l; cases l1) (simp add: set_pos_def)
    then have "lex_redirect s None l = lex_word s l"
      using False by (simp add: lex_redirect_def l1_def [symmetric] Let_def)
    then show ?thesis using takes_lex_word [OF c(1) digit_starts_word [OF dig]] by simp
  qed
qed

lemma dq_text_step:
  assumes "peek l = Some c" "c \<notin> {DQUOTE, CHR ''$'', BTICK}"
  shows "ahead (advance l) (dq_text_loop l)"
proof (cases "c = BSLASH")
  case True
  have "ahead (advance l) (skip_escaped l)" by (simp add: skip_escaped_def Let_def)
  then have "ahead (advance l) (dq_text_loop (skip_escaped l))" using ahead_trans ahead_dq_text by blast
  then show ?thesis using True assms by (subst dq_text_loop.simps) simp
next
  case False
  then show ?thesis using assms by (subst dq_text_loop.simps) simp
qed

lemma takes_dq: "peek l = Some c \<Longrightarrow> takes l (lex_dq_fragment l)"
  using dq_text_step [of l c] takes_lex_word [of l c]
  by (auto simp: lex_dq_fragment_def Let_def starts_word_def intro!: takes_tok)

lemma dq_no_eof: "fst (lex_dq_fragment l) \<noteq> Ok (Token Eof sp)"
  by (auto simp: lex_dq_fragment_def Let_def tok_def lex_word_def andThen_def
      split: option.split prod.split outcome.split)

section \<open>The contract\<close>

text \<open>Reading tokens up to the end or an error.\<close>

fun drain :: "(bool \<Rightarrow> ('l, token, parse_error) act) \<Rightarrow> nat \<Rightarrow> 'l \<Rightarrow> (unit, parse_error) outcome" where
  "drain nxt 0 l = OutOfFuel"
| "drain nxt (Suc k) l =
     (case nxt False l of
        (Ok t, l') \<Rightarrow> if tk_kind t = Eof then Ok () else drain nxt k l'
      | (Err e, _) \<Rightarrow> Err e
      | _ \<Rightarrow> Panic)"

text \<open>
  What the parser relies on: \<open>nxt\<close> is the lexer's \<open>next_token\<close>, \<open>src\<close> its source, \<open>room\<close> the
  number of bytes still to be read.
\<close>

locale token_source =
  fixes nxt :: "bool \<Rightarrow> ('l, token, parse_error) act"
    and src :: "'l \<Rightarrow> string"
    and room :: "'l \<Rightarrow> nat"
  assumes nxt_settled: "settled (fst (nxt dq l)) \<and> fst (nxt dq l) \<noteq> Panic"
    and nxt_source: "src (snd (nxt dq l)) = src l"
    and nxt_room: "room (snd (nxt dq l)) \<le> room l"
    and nxt_takes: "fst (nxt dq l) = Ok t \<Longrightarrow> tk_kind t \<noteq> Eof \<Longrightarrow> room (snd (nxt dq l)) < room l"
    and nxt_word: "fst (nxt dq l) = Ok t \<Longrightarrow> tk_kind t = TkWord w \<Longrightarrow> length w \<le> length (src l)"
begin

text \<open>It takes no more calls than there are bytes.\<close>

lemma drain_settles: "room l < k \<Longrightarrow> settled (drain nxt k l) \<and> drain nxt k l \<noteq> Panic"
proof (induction k arbitrary: l)
  case (Suc k)
  obtain r l' where n: "nxt False l = (r, l')" by fastforce
  then have "settled r" "r \<noteq> Panic" using nxt_settled [of False l] by auto
  moreover have "room l' < k" if "r = Ok t" "tk_kind t \<noteq> Eof" for t
    using nxt_takes [of False l t] that n Suc.prems by simp
  ultimately show ?case using n Suc.IH by (cases r) auto
qed simp

end

lemma not_word_char_token:
  assumes "c \<notin> {CHR '' '', TAB, NL, CHR ''|'', CHR ''&'', CHR '';'', CHR ''('', CHR '')'',
     CHR ''{'', CHR ''}'', CHR ''<'', CHR ''>'', DQUOTE, SQUOTE}"
  shows "starts_word c"
  using assms by (simp add: starts_word_def is_word_char_def)

lemma next_token_spec:
  "scans l0 (next_token dq l0) \<and>
   (\<forall>t. fst (next_token dq l0) = Ok t \<longrightarrow> tk_kind t \<noteq> Eof \<longrightarrow> takes l0 (next_token dq l0))"
proof (induction dq l0 rule: next_token.induct)
  case (1 dq l0)
  show ?case
  proof (cases dq)
    case True
    then have eq: "next_token dq l0 = lex_dq_fragment l0" by (subst next_token.simps) simp
    show ?thesis
    proof (cases "peek l0")
      case None
      then show ?thesis unfolding eq by (simp add: lex_dq_fragment_def)
    next
      case (Some c)
      then show ?thesis unfolding eq using takes_dq [OF Some] by (simp add: takes_def)
    qed
  next
    case False
    define l where "l = skip_whitespace_inline l0"
    have a: "ahead l0 l" by (simp add: l_def)
    show ?thesis
    proof (cases "peek l")
      case None
      then have "next_token dq l0 = (Ok (Token Eof (span_eof (lx_pos l))), l)"
        using False by (subst next_token.simps) (simp add: l_def Let_def)
      then show ?thesis using a by simp
    next
      case (Some c)
      show ?thesis
      proof (cases "c = CHR ''#''")
        case True
        then have eq: "next_token dq l0 = next_token False (skip_comment l)"
          using Some False by (subst next_token.simps) (simp add: l_def Let_def)
        have "ahead l0 (skip_comment l)" using a ahead_trans ahead_skip_comment by blast
        then show ?thesis
          using 1 [OF False l_def refl Some True] scans_ahead takes_ahead unfolding eq by blast
      next
        case nh: False
        have nws: "c \<noteq> CHR '' ''" "c \<noteq> TAB"
          using advance_while_stop [of "\<lambda>c. c = CHR '' '' \<or> c = TAB" l0 c] Some
          by (auto simp: l_def skip_whitespace_inline_def)
        have w: "takes l (lex_word (lx_pos l) l)"
          if "c \<notin> {NL, CHR ''|'', CHR ''&'', CHR '';'', CHR ''('', CHR '')'',
             CHR ''{'', CHR ''}'', CHR ''<'', CHR ''>'', DQUOTE, SQUOTE}"
          by (rule takes_lex_word [OF Some not_word_char_token]) (use that nws in simp)
        have "takes l (next_token dq l0)"
          unfolding next_token.simps [of dq l0] l_def [symmetric] Let_def
          using Some False nh w takes_redirect [OF Some] takes_single_quote [of l]
          by (simp add: takes_double takes_tok)
        then show ?thesis using a takes_ahead scans_ahead by (simp add: takes_def)
      qed
    qed
  qed
qed

interpretation lexer: token_source next_token lx_src left
proof
  fix dq l t w
  note spec = next_token_spec [of l dq]
  show "settled (fst (next_token dq l)) \<and> fst (next_token dq l) \<noteq> Panic"
    and "lx_src (snd (next_token dq l)) = lx_src l" and "left (snd (next_token dq l)) \<le> left l"
    using spec by (auto simp: scans_def ahead_src ahead_left)
  show "left (snd (next_token dq l)) < left l" if "fst (next_token dq l) = Ok t" "tk_kind t \<noteq> Eof"
    using spec that by (auto simp: takes_def)
  show "length w \<le> length (lx_src l)" if "fst (next_token dq l) = Ok t" "tk_kind t = TkWord w"
    using spec that by (auto simp: takes_def)
qed

end
