(* ===== verification/Printer.thy ===== *)
theory Printer
  imports LexerTotal
begin

text \<open>
  A printer for tokens, and the lexer on what it prints: every sequence of tokens of the forms the
  printer knows is lexed back from its text. Tokens are separated by a space, except inside double
  quotes; words are printed with a backslash before every character that is not a plain one.
\<close>

section \<open>Moving over known text\<close>

text \<open>A byte that is not ASCII.\<close>

definition high :: "char \<Rightarrow> bool" where
  "high c \<longleftrightarrow> 128 \<le> byte c"

lemma utf8_step_ascii: "\<not> high c \<Longrightarrow> utf8_step (c # s) = (True, 1)"
  by (simp add: utf8_step_def high_def)

lemma in_range_high: "in_range lo hi s \<Longrightarrow> 128 \<le> lo \<Longrightarrow> \<exists>d r. s = d # r \<and> high d"
  by (cases s) (auto simp: in_range_def high_def)

text \<open>The bytes after the first of a step of \<open>n\<close> bytes.\<close>

definition tail_of :: "string \<Rightarrow> nat \<Rightarrow> bool" where
  "tail_of s n \<longleftrightarrow> (\<exists>v r. s = v @ r \<and> n = Suc (length v) \<and> list_all high v)"

lemma tail_1: "tail_of s (Suc 0)"
  unfolding tail_of_def by (intro exI [of _ "[]"] exI [of _ s]) simp

lemma tail_Suc: "in_range lo hi s \<Longrightarrow> 128 \<le> lo \<Longrightarrow> tail_of (tl s) n \<Longrightarrow> tail_of s (Suc n)"
  unfolding tail_of_def by (drule in_range_high, assumption) (metis append_Cons length_Cons list.pred_inject(2) list.sel(3))

lemma tail_2: "in_range lo hi s \<Longrightarrow> 128 \<le> lo \<Longrightarrow> tail_of s 2"
  using tail_Suc [of lo hi s 1] tail_1 by (simp add: numeral_2_eq_2)

lemma tail_3: "in_range lo hi s \<Longrightarrow> 128 \<le> lo \<Longrightarrow> in_range 128 191 (tl s) \<Longrightarrow> tail_of s 3"
  using tail_Suc [of lo hi s 2] tail_2 by simp

lemma tail_4:
  "in_range lo hi s \<Longrightarrow> 128 \<le> lo \<Longrightarrow> in_range 128 191 (tl s) \<Longrightarrow> in_range 128 191 (tl (tl s)) \<Longrightarrow> tail_of s 4"
  using tail_Suc [of lo hi s 3] tail_3 by simp

lemma utf8_step_high: "utf8_step (c # s) = (ok, n) \<Longrightarrow> tail_of s n"
  unfolding utf8_step_def Let_def
  by (auto split: if_split_asm intro: tail_1 tail_2 tail_3 tail_4)

definition skip :: "string \<Rightarrow> lexer \<Rightarrow> lexer" where
  "skip u l = set_pos (lx_pos l + length u) l"

lemma skip_Nil [simp]: "skip [] l = l"
  by (simp add: skip_def set_pos_def)

lemma skip_skip [simp]: "skip v (skip u l) = skip (u @ v) l"
  by (simp add: skip_def set_pos_def add.assoc)

lemma remaining_skip: "remaining l = u @ r \<Longrightarrow> remaining (skip u l) = r"
proof -
  assume r: "remaining l = u @ r"
  have "drop (lx_pos l + length u) (lx_src l) = drop (length u) (remaining l)"
    by (simp add: remaining_def add.commute)
  then show ?thesis by (simp add: skip_def remaining_set_pos r)
qed

lemma slice_skip: "remaining l = u @ r \<Longrightarrow> slice (skip u l) (lx_pos l) (lx_pos (skip u l)) = u"
  by (simp add: slice_def skip_def set_pos_def remaining_def)

lemma pos_skip: "lx_pos (skip u l) = lx_pos l + length u"
  by (simp add: skip_def set_pos_def)

lemma peek_first: "remaining l = c # r \<Longrightarrow> peek l = Some c"
  by (simp add: peek_def)

lemma advance_ascii: "remaining l = c # r \<Longrightarrow> \<not> high c \<Longrightarrow> advance l = skip [c] l"
  by (simp add: advance_def utf8_step_ascii skip_def)

lemma advance_over:
  assumes "remaining l = c # s"
  shows "\<exists>v r. s = v @ r \<and> list_all high v \<and> advance l = skip (c # v) l"
proof -
  obtain ok n where st: "utf8_step (c # s) = (ok, n)" by fastforce
  from utf8_step_high [OF st] show ?thesis
    using st assms by (auto simp: tail_of_def advance_def skip_def)
qed

lemma high_prefix:
  "v @ r = u @ d # w \<Longrightarrow> list_all high v \<Longrightarrow> \<not> high d \<Longrightarrow> \<exists>u'. u = v @ u' \<and> r = u' @ d # w"
  by (induction v arbitrary: u) (auto simp: Cons_eq_append_conv)

lemma advance_while_upto:
  "remaining l = u @ d # r \<Longrightarrow> \<forall>c \<in> set u. P c \<Longrightarrow> \<not> P d \<Longrightarrow> \<not> high d \<Longrightarrow> advance_while P l = skip u l"
proof (induction "length u" arbitrary: u l rule: less_induct)
  case less
  show ?case
  proof (cases u)
    case Nil
    then show ?thesis using less.prems by (simp add: peek_first advance_while_first)
  next
    case (Cons c s)
    then obtain v t where v: "s @ d # r = v @ t" "list_all high v" "advance l = skip (c # v) l"
      using advance_over [of l c "s @ d # r"] less.prems(1) by auto
    then obtain s' where s': "s = v @ s'" "t = s' @ d # r" using high_prefix less.prems(4) by metis
    have "remaining (advance l) = s' @ d # r"
      using less.prems(1) Cons s' v(3) by (simp add: remaining_skip)
    then have "advance_while P (advance l) = skip s' (advance l)"
      using less.hyps less.prems Cons s' by simp
    then show ?thesis
      using less.prems Cons s' v(3) by (subst advance_while.simps) (simp add: peek_first)
  qed
qed

section \<open>Words\<close>

text \<open>
  The text of a word without expansions: word characters and escaped ASCII characters. \<open>unq\<close> is what it
  stands for; \<open>enc\<close> escapes all but plain characters.
\<close>

fun wordy :: "string \<Rightarrow> bool" where
  "wordy [] = True"
| "wordy [c] = (c \<noteq> BSLASH \<and> is_word_char c \<and> c \<noteq> CHR ''$'' \<and> c \<noteq> BTICK)"
| "wordy (c # d # s) =
     (if c = BSLASH then \<not> high d \<and> d \<noteq> NL \<and> wordy s
      else is_word_char c \<and> c \<noteq> CHR ''$'' \<and> c \<noteq> BTICK \<and> wordy (d # s))"

fun unq :: "string \<Rightarrow> string" where
  "unq [] = []"
| "unq [c] = [c]"
| "unq (c # d # s) = (if c = BSLASH then d # unq s else c # unq (d # s))"

definition plain_char :: "char \<Rightarrow> bool" where
  "plain_char c \<longleftrightarrow> is_ident_char c \<or> high c \<or> c \<in> set ''./-+,:@%''"

definition enc :: "string \<Rightarrow> string" where
  "enc s = concat (map (\<lambda>c. if plain_char c then [c] else [BSLASH, c]) s)"

lemma enc_simps [simp]:
  "enc [] = []" "enc (c # s) = (if plain_char c then c # enc s else BSLASH # c # enc s)"
  by (simp_all add: enc_def)

lemma wordy_Cons: "c \<noteq> BSLASH \<Longrightarrow> wordy (c # s) \<longleftrightarrow> is_word_char c \<and> c \<noteq> CHR ''$'' \<and> c \<noteq> BTICK \<and> wordy s"
  by (cases s) auto

lemma unq_Cons: "c \<noteq> BSLASH \<Longrightarrow> unq (c # s) = c # unq s"
  by (cases s) auto

lemma high_distinct:
  "high c \<Longrightarrow> is_word_char c \<and> c \<noteq> BSLASH \<and> c \<noteq> CHR ''$'' \<and> c \<noteq> BTICK \<and> c \<noteq> CHR ''#'' \<and> c \<noteq> CHR ''!''
     \<and> c \<noteq> CHR ''='' \<and> \<not> is_ident_char c"
  by (auto simp: high_def is_word_char_def char_consts is_ident_char_def is_ascii_alphanumeric_def
      is_ascii_alphabetic_def is_ascii_digit_def)

lemma ident_distinct:
  "is_ident_char c \<Longrightarrow> is_word_char c \<and> c \<noteq> BSLASH \<and> c \<noteq> CHR ''$'' \<and> c \<noteq> BTICK \<and> c \<noteq> CHR ''#'' \<and> c \<noteq> CHR ''!''
     \<and> c \<noteq> CHR ''='' \<and> \<not> high c"
  by (auto simp: high_def is_word_char_def char_consts is_ident_char_def is_ascii_alphanumeric_def
      is_ascii_alphabetic_def is_ascii_digit_def)

lemma plain_distinct:
  "plain_char c \<Longrightarrow> is_word_char c \<and> c \<noteq> BSLASH \<and> c \<noteq> CHR ''$'' \<and> c \<noteq> BTICK \<and> c \<noteq> CHR ''#'' \<and> c \<noteq> CHR ''!''
     \<and> c \<noteq> CHR ''=''"
proof -
  assume c: "plain_char c"
  show ?thesis
  proof (cases "is_ident_char c \<or> high c")
    case True
    then show ?thesis using high_distinct ident_distinct by blast
  next
    case False
    then have "c \<in> set ''./-+,:@%''" using c unfolding plain_char_def by blast
    then show ?thesis by (auto simp: is_word_char_def char_consts)
  qed
qed

lemma not_plain_low: "\<not> plain_char c \<Longrightarrow> \<not> high c"
  by (simp add: plain_char_def)

lemma wordy_enc: "NL \<notin> set s \<Longrightarrow> wordy (enc s)"
  by (induction s) (auto simp: wordy_Cons plain_distinct not_plain_low)

lemma unq_enc [simp]: "unq (enc s) = s"
  by (induction s) (auto simp: unq_Cons plain_distinct)

lemma wordy_high: "wordy (v @ w) \<Longrightarrow> list_all high v \<Longrightarrow> wordy w"
  by (induction v) (auto simp: wordy_Cons high_distinct)

lemma word_loop_over:
  "remaining l = u @ d # r \<Longrightarrow> wordy u \<Longrightarrow> \<not> high d \<Longrightarrow> word_loop l = word_loop (skip u l)"
proof (induction "length u" arbitrary: u l rule: less_induct)
  case less
  show ?case
  proof (cases u)
    case (Cons c s)
    show ?thesis
    proof (cases "c = BSLASH")
      case True
      then obtain e s' where s: "s = e # s'" "\<not> high e" "wordy s'"
        using less.prems Cons by (cases s) auto
      have b: "\<not> high BSLASH" by (simp add: high_def char_consts)
      have "skip_escaped l = skip [BSLASH, e] l"
        using less.prems(1) Cons True s(1,2) b
        by (simp add: skip_escaped_def Let_def advance_ascii remaining_skip peek_first)
      moreover have "word_loop (skip [BSLASH, e] l) = word_loop (skip s' (skip [BSLASH, e] l))"
        using less.prems Cons True s by (intro less.hyps) (simp_all add: remaining_skip)
      ultimately show ?thesis
        using less.prems(1) Cons True s(1) by (subst word_loop.simps) (simp add: peek_first)
    next
      case False
      then have c: "is_word_char c" "c \<noteq> CHR ''$''" "c \<noteq> BTICK" "wordy s"
        using less.prems Cons by (auto simp: wordy_Cons)
      obtain v t where v: "s @ d # r = v @ t" "list_all high v" "advance l = skip (c # v) l"
        using advance_over [of l c "s @ d # r"] less.prems(1) Cons by auto
      then obtain s' where s': "s = v @ s'" "t = s' @ d # r" using high_prefix less.prems(3) by metis
      have "word_loop (advance l) = word_loop (skip s' (advance l))"
        using less.prems Cons s' v c by (intro less.hyps) (auto simp: remaining_skip intro: wordy_high)
      then show ?thesis
        using less.prems(1) Cons False c s' v(3) by (subst word_loop.simps) (simp add: peek_first)
    qed
  qed simp
qed

text \<open>What may come after a word: the loop stops before it.\<close>

lemma word_loop_stop: "remaining l = CHR '' '' # r \<Longrightarrow> word_loop l = (Ok (), l)"
  by (subst word_loop.simps) (simp add: peek_first is_word_char_def char_consts)

lemma valid_name_cases:
  "is_valid_name x \<Longrightarrow> \<exists>c s. x = c # s \<and> is_name_start c \<and> is_ident_char c \<and> (\<forall>d \<in> set s. is_ident_char d)"
  by (cases x) (auto simp: is_valid_name_def list_all_iff)

lemma word_loop_name:
  assumes l: "remaining l = CHR ''$'' # x @ d # r" and x: "is_valid_name x" and d: "\<not> is_ident_char d" "\<not> high d"
  shows "word_loop l = word_loop (skip (CHR ''$'' # x) l)"
proof -
  obtain c s where c: "x = c # s" "is_name_start c" "is_ident_char c" "\<forall>d \<in> set s. is_ident_char d"
    using valid_name_cases [OF x] by blast
  have h: "\<not> high (CHR ''$'')" "\<not> high c" using ident_distinct [OF c(3)] by (simp_all add: high_def)
  let ?l1 = "skip [CHR ''$''] l"
  have l1: "advance l = ?l1" using advance_ascii [OF l] h by simp
  have r1: "remaining ?l1 = c # s @ d # r" using l c by (simp add: remaining_skip)
  have "c \<noteq> CHR ''{''" "c \<noteq> CHR ''(''" "is_dollar_char c" "is_ascii_alphabetic c \<or> c = CHR ''_''"
    using c(2) by (auto simp: is_name_start_def is_dollar_char_def is_ascii_alphanumeric_def is_ascii_alphabetic_def)
  moreover have "advance_while is_ident_char (advance ?l1) = skip s (skip [c] ?l1)"
    unfolding advance_ascii [OF r1 h(2)]
    by (rule advance_while_upto [where d = d and r = r]) (use r1 c d in \<open>simp_all add: remaining_skip del: skip_skip\<close>)
  ultimately have "lex_dollar ?l1 = (Ok (), skip s (skip [c] ?l1))"
    by (simp add: lex_dollar_def peek_first [OF r1])
  then show ?thesis
    by (subst word_loop.simps) (simp add: peek_first [OF l] l1 c(1) char_consts)
qed

text \<open>What stands after a dollar: a name, or one character for a special variable.\<close>

definition dollar_name :: "string \<Rightarrow> bool" where
  "dollar_name n \<longleftrightarrow> is_valid_name n \<or> (\<exists>c. n = [c] \<and> special_of c \<noteq> None)"

lemma special_char:
  assumes "special_of c \<noteq> None"
  shows "is_dollar_char c \<and> \<not> (is_ascii_alphabetic c \<or> c = CHR ''_'') \<and> \<not> high c \<and> c \<noteq> CHR ''{'' \<and> c \<noteq> CHR ''(''
    \<and> c \<noteq> CHR ''='' \<and> c \<noteq> NL"
proof (cases "is_ascii_digit c")
  case True
  then show ?thesis
    by (auto simp: is_dollar_char_def is_ascii_alphanumeric_def is_ascii_alphabetic_def is_ascii_digit_def high_def char_consts)
next
  case False
  then have "c \<in> {CHR ''*'', CHR ''@'', CHR ''#'', CHR ''$'', CHR ''?'', CHR ''!''}"
    using assms by (auto simp: special_of_def split: if_splits)
  then show ?thesis
    by (auto simp: is_dollar_char_def is_ascii_alphabetic_def high_def char_consts)
qed

lemma word_loop_dollar:
  assumes l: "remaining l = CHR ''$'' # x @ d # r" and x: "dollar_name x" and d: "\<not> is_ident_char d" "\<not> high d"
  shows "word_loop l = word_loop (skip (CHR ''$'' # x) l)"
proof (cases "is_valid_name x")
  case True
  then show ?thesis using word_loop_name [OF l _ d] by blast
next
  case False
  then obtain c where c: "x = [c]" "special_of c \<noteq> None" using x by (auto simp: dollar_name_def)
  note sc = special_char [OF c(2)]
  have h: "\<not> high (CHR ''$'')" by (simp add: high_def)
  let ?l1 = "skip [CHR ''$''] l"
  have l1: "advance l = ?l1" using advance_ascii [OF l] h by simp
  have r1: "remaining ?l1 = c # d # r" using l c by (simp add: remaining_skip)
  have "lex_dollar ?l1 = (Ok (), skip [c] ?l1)"
    using sc advance_ascii [OF r1] by (simp add: lex_dollar_def peek_first [OF r1] del: skip_skip)
  then show ?thesis
    by (subst word_loop.simps) (simp add: peek_first [OF l] l1 c(1) char_consts)
qed

section \<open>Tokens\<close>

fun op_text :: "redirect_op \<Rightarrow> string" where
  "op_text Less = ''<''"
| "op_text Greater = ''>''"
| "op_text GreaterGreater = ''>>''"
| "op_text LessGreater = ''<>''"
| "op_text GreaterPipe = ''>|''"
| "op_text GreaterAmp = ''>&''"
| "op_text LessAmp = ''<&''"

definition dq_enc :: "string \<Rightarrow> string" where
  "dq_enc s = concat (map (\<lambda>c. if c \<in> {DQUOTE, BSLASH, CHR ''$'', BTICK} then [BSLASH, c] else [c]) s)"

fun tk_text :: "token_kind \<Rightarrow> string" where
  "tk_text (TkWord w) = w"
| "tk_text (SingleQuote s) = SQUOTE # s @ [SQUOTE]"
| "tk_text DoubleQuoteOpen = [DQUOTE]"
| "tk_text DoubleQuoteClose = [DQUOTE]"
| "tk_text (DQText s) = dq_enc s"
| "tk_text Pipe = ''|''"
| "tk_text OrOr = ''||''"
| "tk_text AndAnd = ''&&''"
| "tk_text Amp = ''&''"
| "tk_text Semi = '';''"
| "tk_text LParen = ''(''"
| "tk_text RParen = '')''"
| "tk_text LBrace = ''{''"
| "tk_text RBrace = ''}''"
| "tk_text Bang = ''!''"
| "tk_text Newline = [NL]"
| "tk_text (TkRedirect fd op) = (case fd of Some n \<Rightarrow> show_nat n | None \<Rightarrow> []) @ op_text op"
| "tk_text _ = []"

definition word_text :: "string \<Rightarrow> bool" where
  "word_text w \<longleftrightarrow> (\<exists>u x. w = u @ x \<and> wordy u \<and> (x = [] \<or> (\<exists>n. x = CHR ''$'' # n \<and> dollar_name n)))"

fun ok_token :: "token_kind \<Rightarrow> bool" where
  "ok_token (TkWord w) = (w \<noteq> [] \<and> word_text w \<and> hd w \<noteq> CHR ''#'' \<and> hd w \<noteq> CHR ''!'')"
| "ok_token (SingleQuote s) = (SQUOTE \<notin> set s)"
| "ok_token (TkRedirect (Some n) op) = (n < 2 ^ 32)"
| "ok_token k = (k \<in> {Pipe, OrOr, AndAnd, Amp, Semi, LParen, RParen, LBrace, RBrace, Bang, Newline, DoubleQuoteOpen})"

definition blank :: "char \<Rightarrow> bool" where
  "blank c \<longleftrightarrow> c = CHR '' '' \<or> c = TAB"

lemma skip_no_blank: "remaining l = c # r \<Longrightarrow> \<not> blank c \<Longrightarrow> skip_whitespace_inline l = l"
  by (simp add: skip_whitespace_inline_def advance_while_first peek_first blank_def)

lemma skip_blank: "remaining l = CHR '' '' # c # r \<Longrightarrow> \<not> blank c \<Longrightarrow> skip_whitespace_inline l = skip '' '' l"
  using skip_no_blank [of "skip '' '' l" c r] unfolding skip_whitespace_inline_def
  by (subst advance_while.simps) (simp add: peek_first advance_ascii high_def remaining_skip)

lemma next_token_blank:
  "remaining l = CHR '' '' # c # r \<Longrightarrow> \<not> blank c \<Longrightarrow> next_token False l = next_token False (skip '' '' l)"
  using skip_no_blank [of "skip '' '' l" c r]
  by (subst (1 2) next_token.simps) (simp add: skip_blank remaining_skip)

text \<open>A token by its first character.\<close>

lemma next_token_at:
  "remaining l = c # r \<Longrightarrow> \<not> blank c \<Longrightarrow> next_token False l =
     (let start = lx_pos l in
      if c = CHR ''#'' then next_token False (skip_comment l)
      else if c = NL then tok Newline start (advance l)
      else if c = CHR '';'' then lex_double CHR '';'' SemiSemi Semi start l
      else if c = CHR ''&'' then lex_double CHR ''&'' AndAnd Amp start l
      else if c = CHR ''|'' then lex_double CHR ''|'' OrOr Pipe start l
      else if c = CHR ''('' then tok LParen start (advance l)
      else if c = CHR '')'' then tok RParen start (advance l)
      else if c = CHR ''{'' then tok LBrace start (advance l)
      else if c = CHR ''}'' then tok RBrace start (advance l)
      else if c = CHR ''!'' then tok Bang start (advance l)
      else if c = DQUOTE then tok DoubleQuoteOpen start (advance l)
      else if c = SQUOTE then lex_single_quote start l
      else if c = CHR ''<'' \<or> c = CHR ''>'' then lex_redirect start None l
      else if is_ascii_digit c then
        (if is_fd_redirect l then lex_redirect start None l else lex_word start l)
      else lex_word start l)"
  by (subst next_token.simps) (simp add: skip_no_blank peek_first Let_def)

lemma starts_word_not:
  "starts_word c \<Longrightarrow> \<not> blank c \<and> c \<notin> {NL, CHR '';'', CHR ''&'', CHR ''|'', CHR ''('', CHR '')'', CHR ''{'', CHR ''}'',
     DQUOTE, SQUOTE, CHR ''<'', CHR ''>''}"
  by (auto simp: starts_word_def is_word_char_def blank_def char_consts)

lemma next_token_word:
  assumes "remaining l = c # r" "starts_word c" "c \<noteq> CHR ''#''" "c \<noteq> CHR ''!''"
  shows "next_token False l =
     (if is_ascii_digit c \<and> is_fd_redirect l then lex_redirect (lx_pos l) None l else lex_word (lx_pos l) l)"
  using next_token_at [OF assms(1)] starts_word_not [OF assms(2)] assms(3,4) by (simp add: Let_def)

lemmas token_steps = next_token_at blank_def char_consts tok_def Let_def advance_ascii high_def

lemma lex_double_text:
  "remaining l = c # d # r \<Longrightarrow> \<not> high c \<Longrightarrow> \<not> high d \<Longrightarrow>
     lex_double c two one start l
       = tok (if d = c then two else one) start (if d = c then skip [c, d] l else skip [c] l)"
  by (simp add: lex_double_def eat_def advance_ascii remaining_skip peek_first)

lemma lex_symbol:
  assumes "remaining l = tk_text k @ d # r" "d = CHR '' '' \<or> k = DoubleQuoteOpen"
    "k \<in> {Pipe, OrOr, AndAnd, Amp, Semi, LParen, RParen, LBrace, RBrace, Bang, Newline, DoubleQuoteOpen}"
  shows "\<exists>sp. next_token False l = (Ok (Token k sp), skip (tk_text k) l)"
  using assms by (auto simp: token_steps lex_double_text)

lemma lex_single:
  assumes l: "remaining l = SQUOTE # s @ SQUOTE # r" and s: "SQUOTE \<notin> set s"
  shows "\<exists>sp. next_token False l = (Ok (Token (SingleQuote s) sp), skip (SQUOTE # s @ [SQUOTE]) l)"
proof -
  have h: "\<not> high SQUOTE" by (simp add: high_def char_consts)
  let ?l1 = "skip [SQUOTE] l"
  have r1: "remaining ?l1 = s @ SQUOTE # r" using l by (simp add: remaining_skip)
  have w: "advance_while (\<lambda>c. c \<noteq> SQUOTE) ?l1 = skip s ?l1"
    by (rule advance_while_upto [OF r1]) (use s h in auto)
  have r2: "remaining (skip s ?l1) = SQUOTE # r" using r1 by (rule remaining_skip)
  have "lex_single_quote (lx_pos l) l = (Ok (Token (SingleQuote s) (span_from (lx_pos l) (skip [SQUOTE] (skip s ?l1)))), skip [SQUOTE] (skip s ?l1))"
    using advance_ascii [OF l h] advance_ascii [OF r2 h] slice_skip [OF r1]
    by (simp add: lex_single_quote_def Let_def w peek_first [OF r2] tok_def del: skip_skip)
  moreover have "next_token False l = lex_single_quote (lx_pos l) l"
    using next_token_at [OF l] by (simp add: blank_def char_consts Let_def)
  ultimately show ?thesis by simp
qed

lemma show_digits: "\<forall>c \<in> set (show_nat n). is_ascii_digit c"
  using show_nat_digits by blast

lemma lex_op:
  assumes l: "remaining l = show_nat n @ op_text op @ CHR '' '' # r" and n: "n < 2 ^ 32"
  shows "\<exists>sp. next_token False l = (Ok (Token (TkRedirect (Some n) op) sp), skip (show_nat n @ op_text op) l)"
proof -
  obtain c s where c: "show_nat n = c # s" using show_nat_nonempty by (metis neq_Nil_conv)
  then have digit: "is_ascii_digit c" using show_digits by (metis list.set_intros(1))
  obtain d t where d: "op_text op @ CHR '' '' # r = d # t" "d = CHR ''<'' \<or> d = CHR ''>''" by (cases op) auto
  have nd: "\<not> is_ascii_digit d" "\<not> high d" using d(2) by (auto simp: is_ascii_digit_def high_def)
  have fd: "is_fd_redirect l"
    using show_digits [of n] nd(1) d c
    by (auto simp: is_fd_redirect_def l Let_def takeWhile_append dropWhile_append)
  have w: "advance_while is_ascii_digit l = skip (show_nat n) l"
    by (rule advance_while_upto [of l "show_nat n" d t]) (use l d show_digits nd in auto)
  obtain l1 where l1: "l1 = skip (show_nat n) l" by blast
  have r1: "remaining l1 = op_text op @ CHR '' '' # r" unfolding l1 using l by (rule remaining_skip)
  have p: "parse_unsigned 32 (show_nat n) = Some n" by (rule parse_unsigned_show) (use n in simp)
  have sl: "slice l1 (lx_pos l) (lx_pos l1) = show_nat n" unfolding l1 by (rule slice_skip [OF l])
  have end_pos: "skip (show_nat n @ op_text op) l = skip (op_text op) l1" by (simp add: l1)
  have "\<exists>sp. lex_redirect (lx_pos l) None l = (Ok (Token (TkRedirect (Some n) op) sp), skip (show_nat n @ op_text op) l)"
    unfolding end_pos using r1 p sl
    by (cases op) (simp_all add: lex_redirect_def Let_def w [folded l1] peek_first advance_ascii high_def remaining_skip tok_def)
  moreover have "next_token False l = lex_redirect (lx_pos l) None l"
    using next_token_word [of l c "s @ op_text op @ CHR '' '' # r"] digit_starts_word [OF digit] digit fd l c
    by (simp add: ident_distinct is_ident_char_def is_ascii_alphanumeric_def)
  ultimately show ?thesis by simp
qed

lemma word_text_chars: "word_text w \<Longrightarrow> w = c # s \<Longrightarrow> starts_word c"
  by (cases s) (auto simp: word_text_def starts_word_def Cons_eq_append_conv wordy_Cons split: if_splits)

lemma word_loop_text:
  assumes l: "remaining l = w @ CHR '' '' # r" and w: "word_text w"
  shows "word_loop l = (Ok (), skip w l)"
proof -
  have h: "\<not> high (CHR '' '')" "\<not> high (CHR ''$'')" "\<not> is_ident_char (CHR '' '')"
    by (simp_all add: high_def is_ident_char_def is_ascii_alphanumeric_def is_ascii_alphabetic_def is_ascii_digit_def)
  obtain u x where u: "w = u @ x" "wordy u" "x = [] \<or> (\<exists>n. x = CHR ''$'' # n \<and> dollar_name n)"
    using w by (auto simp: word_text_def)
  have r1: "remaining (skip u l) = x @ CHR '' '' # r" using l u(1) by (simp add: remaining_skip)
  have stop: "word_loop (skip w l) = (Ok (), skip w l)"
    by (rule word_loop_stop [of _ r]) (rule remaining_skip [OF l])
  show ?thesis
  proof (cases "x = []")
    case True
    then show ?thesis using word_loop_over [of l u "CHR '' ''" r] l u h stop by simp
  next
    case False
    then obtain n where n: "x = CHR ''$'' # n" "dollar_name n" using u(3) by blast
    have "word_loop l = word_loop (skip u l)"
      using word_loop_over [of l u "CHR ''$''" "n @ CHR '' '' # r"] l u n h by simp
    also have "\<dots> = word_loop (skip x (skip u l))"
      using word_loop_dollar [of "skip u l" n "CHR '' ''" r] r1 n h by simp
    finally show ?thesis using stop u(1) by simp
  qed
qed

lemma word_text_digit: "word_text (d # w) \<Longrightarrow> is_ascii_digit d \<Longrightarrow> word_text w"
  using ident_distinct [of d]
  by (auto simp: word_text_def Cons_eq_append_conv wordy_Cons is_ident_char_def is_ascii_alphanumeric_def)
     ((metis append.right_neutral | blast)+)

lemma after_digits:
  "word_text w \<Longrightarrow> \<exists>d t. dropWhile is_ascii_digit (w @ CHR '' '' # r) = d # t \<and> (d = CHR '' '' \<or> starts_word d)"
proof (induction w)
  case Nil
  show ?case by (simp add: is_ascii_digit_def)
next
  case (Cons c w)
  then show ?case using word_text_digit [of c w] word_text_chars [of "c # w" c w] by simp
qed

lemma not_fd_word:
  assumes "remaining l = w @ CHR '' '' # r" "word_text w"
  shows "\<not> is_fd_redirect l"
proof -
  obtain d t where "dropWhile is_ascii_digit (remaining l) = d # t" "d = CHR '' '' \<or> starts_word d"
    using after_digits [OF assms(2)] assms(1) by metis
  then show ?thesis using starts_word_not [of d] by (auto simp: is_fd_redirect_def Let_def)
qed

lemma lex_word_text:
  assumes l: "remaining l = w @ CHR '' '' # r" and w: "ok_token (TkWord w)"
  shows "\<exists>sp. next_token False l = (Ok (Token (TkWord w) sp), skip w l)"
proof -
  obtain c s where c: "w = c # s" using w by (cases w) auto
  have "next_token False l = lex_word (lx_pos l) l"
    using next_token_word [of l c "s @ CHR '' '' # r"] word_text_chars [of w c s] w l c not_fd_word [OF l] by simp
  then show ?thesis
    using word_loop_text [OF l] w slice_skip [OF l] by (simp add: lex_word_def andThen_def)
qed

section \<open>Inside double quotes\<close>

lemma dq_enc_simps [simp]:
  "dq_enc [] = []"
  "dq_enc (c # s) = (if c \<in> {DQUOTE, BSLASH, CHR ''$'', BTICK} then BSLASH # c # dq_enc s else c # dq_enc s)"
  by (simp_all add: dq_enc_def)

lemma unescape_plain: "c \<noteq> BSLASH \<Longrightarrow> unescape_dq (c # s) = c # unescape_dq s"
  by (cases s) auto

lemma unescape_dq_enc [simp]: "unescape_dq (dq_enc s) = s"
  by (induction s) (auto simp: unescape_plain)

lemma dq_enc_high: "dq_enc s = v @ t \<Longrightarrow> list_all high v \<Longrightarrow> \<exists>s'. s = v @ s' \<and> t = dq_enc s'"
proof (induction v arbitrary: s)
  case (Cons c v)
  then obtain d s' where s: "s = d # s'" by (cases s) auto
  have "\<not> high BSLASH" by (simp add: high_def char_consts)
  then have "d = c" "dq_enc s' = v @ t" using Cons.prems s by (auto split: if_splits)
  then show ?case using Cons.IH [of s'] Cons.prems(2) s by auto
qed simp

lemma dq_text_loop_over:
  "remaining l = dq_enc s @ d # r \<Longrightarrow> d = DQUOTE \<or> d = CHR ''$'' \<Longrightarrow> dq_text_loop l = skip (dq_enc s) l"
proof (induction "length s" arbitrary: s l rule: less_induct)
  case less
  have h: "\<not> high d" "\<not> high BSLASH" using less.prems(2) by (auto simp: high_def char_consts)
  show ?case
  proof (cases s)
    case Nil
    then show ?thesis using less.prems by (subst dq_text_loop.simps) (auto simp: peek_first)
  next
    case (Cons c s1)
    show ?thesis
    proof (cases "c \<in> {DQUOTE, BSLASH, CHR ''$'', BTICK}")
      case True
      then have "\<not> high c" by (auto simp: high_def char_consts)
      then have "skip_escaped l = skip [BSLASH, c] l"
        using less.prems(1) Cons True h
        by (simp add: skip_escaped_def Let_def advance_ascii remaining_skip peek_first)
      moreover have "dq_text_loop (skip [BSLASH, c] l) = skip (dq_enc s1) (skip [BSLASH, c] l)"
        using less.prems Cons True by (intro less.hyps) (auto simp: remaining_skip)
      moreover have "BSLASH \<notin> {DQUOTE, CHR ''$'', BTICK}" by (simp add: char_consts)
      ultimately show ?thesis
        using less.prems(1) Cons True by (subst dq_text_loop.simps) (simp add: peek_first)
    next
      case False
      then obtain v t where v: "dq_enc s1 @ d # r = v @ t" "list_all high v" "advance l = skip (c # v) l"
        using advance_over [of l c "dq_enc s1 @ d # r"] less.prems(1) Cons by auto
      then obtain u where u: "dq_enc s1 = v @ u" "t = u @ d # r" using high_prefix h(1) by metis
      then obtain s' where s': "s1 = v @ s'" "u = dq_enc s'" using dq_enc_high v(2) by metis
      have r2: "remaining (advance l) = dq_enc s' @ d # r"
        using less.prems(1) Cons False v(3) u(1) s'(2) by (simp add: remaining_skip)
      have "dq_text_loop (advance l) = skip (dq_enc s') (advance l)"
        by (rule less.hyps [OF _ r2 less.prems(2)]) (use Cons s' in simp)
      then show ?thesis
        using less.prems(1) Cons False v(3) u(1) s'(2) by (subst dq_text_loop.simps) (simp add: peek_first)
    qed
  qed
qed

lemma lex_dq_text:
  assumes l: "remaining l = dq_enc s @ d # r" and "s \<noteq> []" "d = DQUOTE \<or> d = CHR ''$''"
  shows "\<exists>sp. next_token True l = (Ok (Token (DQText s) sp), skip (dq_enc s) l)"
proof -
  obtain c t where c: "remaining l = c # t" "c \<notin> {DQUOTE, CHR ''$'', BTICK}"
    using assms by (cases s) (auto simp: char_consts split: if_splits)
  have "next_token True l = lex_dq_fragment l" by (subst next_token.simps) simp
  then show ?thesis
    using c(2) dq_text_loop_over [OF l assms(3)] slice_skip [OF l]
    by (simp add: lex_dq_fragment_def Let_def peek_first [OF c(1)] tok_def)
qed

lemma lex_dq_close:
  assumes "remaining l = DQUOTE # r"
  shows "\<exists>sp. next_token True l = (Ok (Token DoubleQuoteClose sp), skip [DQUOTE] l)"
  using advance_ascii [OF assms]
  by (subst next_token.simps) (simp add: lex_dq_fragment_def Let_def peek_first [OF assms] tok_def high_def char_consts)

lemma lex_dq_var:
  assumes l: "remaining l = CHR ''$'' # n @ DQUOTE # r" and n: "is_valid_name n"
  shows "\<exists>sp. next_token True l = (Ok (Token (TkWord (CHR ''$'' # n)) sp), skip (CHR ''$'' # n) l)"
proof -
  have q: "\<not> is_ident_char DQUOTE" "\<not> high DQUOTE"
    by (simp_all add: char_consts high_def is_ident_char_def is_ascii_alphanumeric_def is_ascii_alphabetic_def is_ascii_digit_def)
  have "remaining (skip (CHR ''$'' # n) l) = DQUOTE # r" using remaining_skip [of l "CHR ''$'' # n"] l by simp
  then have "word_loop l = (Ok (), skip (CHR ''$'' # n) l)"
    using word_loop_name [OF l n q] by (subst (asm) (2) word_loop.simps) (simp add: peek_first is_word_char_def char_consts)
  then show ?thesis
    using slice_skip [of l "CHR ''$'' # n"] l
    by (subst next_token.simps) (simp add: lex_dq_fragment_def Let_def peek_first [OF l] lex_word_def andThen_def char_consts)
qed

section \<open>Sequences of tokens\<close>

text \<open>Whether the lexer is inside double quotes after a token.\<close>

fun mode_after :: "token_kind \<Rightarrow> bool \<Rightarrow> bool" where
  "mode_after DoubleQuoteOpen dq = True"
| "mode_after DoubleQuoteClose dq = False"
| "mode_after _ dq = dq"

fun render :: "bool \<Rightarrow> token_kind list \<Rightarrow> string" where
  "render dq [] = '' ''"
| "render dq (k # ks) = (if dq then [] else '' '') @ tk_text k @ render (mode_after k dq) ks"

text \<open>
  The sequences the lexer gives back: outside of double quotes any tokens with a text, inside a text
  and a variable, each at most once and in this order.
\<close>

fun lexable :: "bool \<Rightarrow> token_kind list \<Rightarrow> bool" where
  "lexable False [] = True"
| "lexable False (k # ks) = (ok_token k \<and> lexable (mode_after k False) ks)"
| "lexable True (DoubleQuoteClose # ks) = lexable False ks"
| "lexable True (TkWord w # DoubleQuoteClose # ks) =
     ((\<exists>n. w = CHR ''$'' # n \<and> is_valid_name n) \<and> lexable False ks)"
| "lexable True (DQText s # DoubleQuoteClose # ks) = (s \<noteq> [] \<and> lexable False ks)"
| "lexable True (DQText s # TkWord w # DoubleQuoteClose # ks) =
     (s \<noteq> [] \<and> (\<exists>n. w = CHR ''$'' # n \<and> is_valid_name n) \<and> lexable False ks)"
| "lexable True _ = False"

inductive lexes :: "bool \<Rightarrow> lexer \<Rightarrow> token_kind list \<Rightarrow> bool" where
  lexes_Nil: "lexes dq l []"
| lexes_Cons: "next_token dq l = (Ok (Token k sp), l') \<Longrightarrow> lexes (mode_after k dq) l' ks \<Longrightarrow> lexes dq l (k # ks)"

lemma render_False: "\<exists>r. render False ks = CHR '' '' # r"
  by (cases ks) auto

lemma lex_ok_token:
  assumes "remaining l = tk_text k @ d # r" "ok_token k" "d = CHR '' '' \<or> k = DoubleQuoteOpen"
  shows "\<exists>sp. next_token False l = (Ok (Token k sp), skip (tk_text k) l)"
proof (cases k)
  case (TkWord w)
  then show ?thesis using lex_word_text [of l w r] assms by simp
next
  case (SingleQuote s)
  then show ?thesis using lex_single [of l s "d # r"] assms by simp
next
  case (TkRedirect fd op)
  then obtain n where "fd = Some n" using assms(2) by (cases fd) auto
  then show ?thesis using lex_op [of l n op r] assms TkRedirect by simp
qed (use lex_symbol [OF assms(1,3)] assms(2) in simp_all)

lemma tk_text_first: "ok_token k \<Longrightarrow> \<exists>c s. tk_text k = c # s \<and> \<not> blank c"
proof (cases k)
  case (TkWord w)
  then show "ok_token k \<Longrightarrow> ?thesis" using word_text_chars [of w] starts_word_not by (cases w) auto
next
  case (TkRedirect fd op)
  moreover assume "ok_token k"
  ultimately obtain n where n: "fd = Some n" by (cases fd) auto
  obtain c s where "show_nat n = c # s" using show_nat_nonempty by (metis neq_Nil_conv)
  moreover from this have "is_ascii_digit c" using show_digits by (metis list.set_intros(1))
  ultimately show ?thesis
    using TkRedirect n digit_starts_word starts_word_not by auto
qed (auto simp: blank_def char_consts)

lemma advance_while_end: "remaining l = [] \<Longrightarrow> advance_while P l = l"
  by (subst advance_while.simps) (simp add: peek_None [THEN iffD2])

lemma lexes_close:
  assumes "remaining l = DQUOTE # r" "\<And>l'. remaining l' = r \<Longrightarrow> lexes False l' ks"
  shows "lexes True l (DoubleQuoteClose # ks)"
  using lex_dq_close [OF assms(1)] assms(2) [of "skip [DQUOTE] l"] remaining_skip [of l "[DQUOTE]" r] assms(1)
  by (auto intro: lexes_Cons)

lemma lexes_var:
  assumes "remaining l = w @ DQUOTE # r" "\<exists>n. w = CHR ''$'' # n \<and> is_valid_name n"
    "\<And>l'. remaining l' = DQUOTE # r \<Longrightarrow> lexes True l' ks"
  shows "lexes True l (TkWord w # ks)"
proof -
  obtain n where n: "w = CHR ''$'' # n" "is_valid_name n" using assms(2) by blast
  show ?thesis
    using lex_dq_var [of l n r] n assms(1) assms(3) [OF remaining_skip [OF assms(1)]] by (auto intro: lexes_Cons)
qed

lemma lexes_text:
  assumes "remaining l = dq_enc s @ d # r" "s \<noteq> []" "d = DQUOTE \<or> d = CHR ''$''"
    "\<And>l'. remaining l' = d # r \<Longrightarrow> lexes True l' ks"
  shows "lexes True l (DQText s # ks)"
  using lex_dq_text [OF assms(1-3)] assms(4) [OF remaining_skip [OF assms(1)]] by (auto intro: lexes_Cons)

lemma lexes_render:
  "remaining l = render dq ks \<Longrightarrow> lexable dq ks \<Longrightarrow> lexes dq l (ks @ [Eof])"
proof (induction dq ks arbitrary: l rule: lexable.induct)
  case 1
  then have r: "remaining (skip '' '' l) = []" by (intro remaining_skip) simp
  have w: "skip_whitespace_inline l = skip '' '' l"
    using 1 advance_while_end [OF r] unfolding skip_whitespace_inline_def
    by (subst advance_while.simps) (simp add: peek_first advance_ascii high_def)
  have "next_token False l = (Ok (Token Eof (span_eof (lx_pos (skip '' '' l)))), skip '' '' l)"
    using r by (subst next_token.simps) (simp add: w Let_def peek_None [THEN iffD2])
  then show ?case by (auto intro: lexes.intros)
next
  case (2 k ks)
  have ok: "ok_token k" using "2.prems"(2) by simp
  obtain c s where c: "tk_text k = c # s" "\<not> blank c" using tk_text_first [OF ok] by blast
  let ?l1 = "skip '' '' l"
  have r1: "remaining ?l1 = tk_text k @ render (mode_after k False) ks"
    using "2.prems"(1) by (simp add: remaining_skip)
  have n: "next_token False l = next_token False ?l1"
    using next_token_blank [of l c] "2.prems"(1) c by simp
  obtain d r where d: "render (mode_after k False) ks = d # r" "d = CHR '' '' \<or> k = DoubleQuoteOpen"
  proof (cases "k = DoubleQuoteOpen")
    case True
    with "2.prems"(2) have "lexable True ks" by simp
    then obtain k' ks' where "ks = k' # ks'" by (cases ks) auto
    have "render True ks \<noteq> []" using \<open>lexable True ks\<close>
      by (cases "(True, ks)" rule: lexable.cases) (auto split: if_splits)
    then show ?thesis using that True by (cases "render True ks") auto
  next
    case False
    with "2.prems"(2) have "mode_after k False = False" by (cases k) auto
    then show ?thesis using that render_False by metis
  qed
  obtain sp where "next_token False ?l1 = (Ok (Token k sp), skip (tk_text k) ?l1)"
    using lex_ok_token [of ?l1 k d r] r1 d "2.prems"(2) by auto
  moreover have "lexes (mode_after k False) (skip (tk_text k) ?l1) (ks @ [Eof])"
    by (rule "2.IH") (use r1 "2.prems"(2) in \<open>auto intro: remaining_skip simp del: skip_skip\<close>)
  ultimately show ?case using n by (auto intro: lexes_Cons)
next
  case (3 ks)
  then show ?case by (auto intro: lexes_close)
next
  case (4 w ks)
  then show ?case by (auto intro!: lexes_var lexes_close)
next
  case (5 s ks)
  then show ?case by (auto intro!: lexes_text lexes_close)
next
  case (6 s w ks)
  then show ?case by (auto intro!: lexes_text [of _ _ "CHR ''$''"] lexes_var lexes_close)
qed simp_all

end
