(* ===== verification/LexerText.thy ===== *)
theory LexerText
  imports Printer
begin

text \<open>
  The lexer on any text. A grammar says what the text of each token is, where it may end and what
  may stand between two tokens; the lexer cuts every source into such pieces, without losing or
  moving a byte, and fails only where no token of the grammar can be completed. It moves by whole
  characters, so its slices of the source, which panic in Rust off a character boundary and are total
  in the model, are all taken on boundaries.
\<close>

section \<open>What is read by a move\<close>

definition reads :: "lexer \<Rightarrow> string \<Rightarrow> lexer \<Rightarrow> bool" where
  "reads l u l' \<longleftrightarrow> ahead l l' \<and> remaining l = u @ remaining l' \<and> lx_pos l' = lx_pos l + length u"

lemma reads_Nil [simp]: "reads l [] l"
  by (simp add: reads_def)

lemma reads_trans: "reads l u l1 \<Longrightarrow> reads l1 v l2 \<Longrightarrow> reads l (u @ v) l2"
  using ahead_trans by (auto simp: reads_def)

lemma reads_slice: "reads l u l' \<Longrightarrow> slice l' (lx_pos l) (lx_pos l') = u"
  by (auto simp: reads_def slice_def remaining_def dest: ahead_src)

lemma reads_advance:
  assumes "peek l = Some c"
  shows "\<exists>v. reads l (c # v) (advance l) \<and> list_all high v \<and> (v \<noteq> [] \<longrightarrow> high c)"
proof -
  obtain s where s: "remaining l = c # s" using assms by (auto simp: peek_def split: list.splits)
  have r: "reads l (c # v) (advance l)" if "s = v @ r" "advance l = skip (c # v) l" for v r
    unfolding reads_def
    using that s remaining_skip [of l "c # v" r] pos_skip [of "c # v" l] ahead_advance [of l]
    by (simp del: ahead_advance)
  show ?thesis
  proof (cases "high c")
    case False
    then show ?thesis using r [of "[]" s] advance_ascii [OF s] by (intro exI [of _ "[]"]) simp
  next
    case True
    then show ?thesis using advance_over [OF s] r by blast
  qed
qed

lemma reads_ascii: "peek l = Some c \<Longrightarrow> \<not> high c \<Longrightarrow> reads l [c] (advance l)"
  using reads_advance [of l c] by auto

lemma reads_first: "peek l = Some c \<Longrightarrow> \<exists>s. remaining l = c # s"
  by (auto simp: peek_def split: list.splits)

text \<open>A test that holds of all bytes above ASCII or of none treats the bytes of a character alike.\<close>

definition whole_test :: "(char \<Rightarrow> bool) \<Rightarrow> bool" where
  "whole_test P \<longleftrightarrow> (\<forall>c. high c \<longrightarrow> P c) \<or> (\<forall>c. high c \<longrightarrow> \<not> P c)"

definition ends_run :: "(char \<Rightarrow> bool) \<Rightarrow> string \<Rightarrow> bool" where
  "ends_run P r \<longleftrightarrow> (case r of [] \<Rightarrow> True | c # _ \<Rightarrow> \<not> P c)"

lemma reads_while:
  assumes "whole_test P"
  shows "\<exists>u. reads l u (advance_while P l) \<and> list_all P u \<and> ends_run P (remaining (advance_while P l))"
proof (induction "left l" arbitrary: l rule: less_induct)
  case less
  show ?case
  proof (cases "\<exists>c. peek l = Some c \<and> P c")
    case True
    then obtain c where c: "peek l = Some c" "P c" by blast
    obtain v where v: "reads l (c # v) (advance l)" "list_all high v" "v \<noteq> [] \<longrightarrow> high c"
      using reads_advance [OF c(1)] by blast
    then have "list_all P (c # v)" using assms c(2) by (auto simp: whole_test_def list_all_iff)
    moreover obtain u where u: "reads (advance l) u (advance_while P (advance l))" "list_all P u"
        "ends_run P (remaining (advance_while P (advance l)))"
      using less left_advance_peek [OF c(1)] by blast
    moreover have "advance_while P l = advance_while P (advance l)"
      using c by (subst advance_while.simps) simp
    ultimately show ?thesis using reads_trans [OF v(1) u(1)]
      by (intro exI [of _ "(c # v) @ u"]) simp
  next
    case False
    then have "advance_while P l = l" by (subst advance_while.simps) (auto split: option.split)
    then show ?thesis using False
      by (intro exI [of _ "[]"]) (auto simp: ends_run_def peek_def split: list.split)
  qed
qed

section \<open>Balanced text\<close>

text \<open>
  The inside of a pair of brackets: single quotes hide what they enclose, and other brackets of the
  same kind come in pairs.
\<close>

inductive inside :: "char \<Rightarrow> char \<Rightarrow> string \<Rightarrow> bool" for a b where
  inside_Nil: "inside a b []"
| inside_char: "x \<notin> {SQUOTE, a, b} \<Longrightarrow> inside a b t \<Longrightarrow> inside a b (x # t)"
| inside_quote: "SQUOTE \<notin> set q \<Longrightarrow> inside a b t \<Longrightarrow> inside a b (SQUOTE # q @ SQUOTE # t)"
| inside_nest: "inside a b s \<Longrightarrow> inside a b t \<Longrightarrow> inside a b (a # s @ b # t)"

text \<open>A text that closes \<open>n\<close> open brackets.\<close>

inductive closes :: "char \<Rightarrow> char \<Rightarrow> nat \<Rightarrow> string \<Rightarrow> bool" for a b where
  closes_0: "closes a b 0 []"
| closes_Suc: "inside a b t \<Longrightarrow> closes a b n u \<Longrightarrow> closes a b (Suc n) (t @ b # u)"

inductive_simps closes_Suc_simp: "closes a b (Suc n) u"

lemma inside_over: "list_all (\<lambda>x. x \<notin> {SQUOTE, a, b}) v \<Longrightarrow> inside a b t \<Longrightarrow> inside a b (v @ t)"
  by (induction v) (auto intro: inside_char)

lemma closes_over:
  "(\<And>t. inside a b t \<Longrightarrow> inside a b (p @ t)) \<Longrightarrow> closes a b (Suc n) u \<Longrightarrow> closes a b (Suc n) (p @ u)"
  unfolding closes_Suc_simp by (metis append_assoc)

lemma closes_open: "closes a b (Suc (Suc n)) u \<Longrightarrow> closes a b (Suc n) (a # u)"
  unfolding closes_Suc_simp by (metis append_Cons append_assoc inside_nest)

lemma closes_close: "closes a b n u \<Longrightarrow> closes a b (Suc n) (b # u)"
  using closes_Suc [OF inside_Nil] by simp

lemma closes_cases:
  assumes "closes a b (Suc n) u"
  obtains (char) x v where "u = x # v" "x \<notin> {SQUOTE, a, b}" "closes a b (Suc n) v"
    | (quote) q v where "u = SQUOTE # q @ SQUOTE # v" "SQUOTE \<notin> set q" "closes a b (Suc n) v"
    | (nest) v where "u = a # v" "closes a b (Suc (Suc n)) v"
    | (close) v where "u = b # v" "closes a b n v"
proof -
  obtain t w where u: "u = t @ b # w" "inside a b t" "closes a b n w"
    using assms unfolding closes_Suc_simp by blast
  from u(2) show ?thesis
  proof cases
    case inside_Nil
    then show ?thesis using u close by simp
  next
    case (inside_char x t')
    then show ?thesis using u char [of x "t' @ b # w"] closes_Suc by simp
  next
    case (inside_quote q t')
    then show ?thesis using u quote [of q "t' @ b # w"] closes_Suc by simp
  next
    case (inside_nest s t')
    from this(2,3) have "closes a b (Suc (Suc n)) (s @ b # t' @ b # w)" using u(3) closes_Suc by blast
    then show ?thesis using u inside_nest nest by simp
  qed
qed

lemma high_high: "high c \<Longrightarrow> \<not> high d \<Longrightarrow> c \<noteq> d"
  by auto

lemma ascii_chars [simp]:
  "\<not> high SQUOTE" "\<not> high DQUOTE" "\<not> high BSLASH" "\<not> high BTICK" "\<not> high NL" "\<not> high TAB"
  "\<not> high CHR ''$''" "\<not> high CHR ''{''" "\<not> high CHR ''}''" "\<not> high CHR ''(''" "\<not> high CHR '')''"
  "\<not> high CHR '' ''" "\<not> high CHR ''#''" "\<not> high CHR ''-''" "\<not> high CHR ''<''" "\<not> high CHR ''>''"
  by (simp_all add: high_def char_consts)

lemma whole_not: "\<not> high d \<Longrightarrow> whole_test (\<lambda>c. c \<noteq> d)"
  by (auto simp: whole_test_def)

text \<open>A quoted string with its quotes, or all the rest when it is not closed.\<close>

lemma reads_quoted:
  assumes "peek l = Some SQUOTE"
  obtains (closed) q where "reads l (SQUOTE # q @ [SQUOTE]) (skip_quoted l)" "SQUOTE \<notin> set q"
  | (unclosed) "remaining (skip_quoted l) = []" "SQUOTE \<notin> set (tl (remaining l))"
proof -
  define l2 where "l2 = advance_while (\<lambda>c. c \<noteq> SQUOTE) (advance l)"
  obtain q where q: "reads (advance l) q l2" "list_all (\<lambda>c. c \<noteq> SQUOTE) q"
      "ends_run (\<lambda>c. c \<noteq> SQUOTE) (remaining l2)"
    using reads_while [OF whole_not [OF ascii_chars(1)], of "advance l"] unfolding l2_def by blast
  have r: "reads l (SQUOTE # q) l2"
    using reads_trans [OF reads_ascii [OF assms] q(1)] by simp
  have s: "skip_quoted l = snd (eat SQUOTE l2)" by (simp add: skip_quoted_def l2_def)
  have nq: "SQUOTE \<notin> set q" using q(2) by (auto simp: list_all_iff)
  show ?thesis
  proof (cases "remaining l2")
    case Nil
    then have "skip_quoted l = l2" using s by (simp add: eat_def peek_def)
    then show ?thesis using Nil r nq unclosed by (auto simp: reads_def)
  next
    case (Cons c rest)
    then have p: "peek l2 = Some SQUOTE" using q(3) by (simp add: ends_run_def peek_def)
    then have "skip_quoted l = advance l2" using s by (simp add: eat_def)
    then show ?thesis using closed [of q] nq reads_trans [OF r reads_ascii [OF p]] by simp
  qed
qed

text \<open>The brackets a word may have.\<close>

definition bracket :: "char \<Rightarrow> char \<Rightarrow> bool" where
  "bracket a b \<longleftrightarrow> (a, b) \<in> {(CHR ''{'', CHR ''}''), (CHR ''('', CHR '')'')}"

lemma bracket_facts:
  assumes "bracket a b"
  shows "\<not> high a" "\<not> high b" "a \<noteq> b" "a \<noteq> SQUOTE" "b \<noteq> SQUOTE"
  using assms by (auto simp: bracket_def char_consts)

lemma balanced_closed:
  "bracket a b \<Longrightarrow> 0 < d \<Longrightarrow> balanced_loop a b e d l = (Ok u, l') \<Longrightarrow> \<exists>t. reads l t l' \<and> closes a b d t"
proof (induction a b e d l rule: balanced_loop.induct)
  case (1 a b e d l)
  note br = bracket_facts [OF 1(5)]
  obtain n where d: "d = Suc n" using 1(6) by (cases d) auto
  show ?case
  proof (cases "peek l")
    case None
    then show ?thesis using 1(7) by (subst (asm) balanced_loop.simps) simp
  next
    case (Some c)
    note run = 1(7) [unfolded balanced_loop.simps [of a b e d l] Some option.case]
    consider "c = SQUOTE" | "c = a" | "c = b" | "c \<notin> {SQUOTE, a, b}" by blast
    then show ?thesis
    proof cases
      case 1
      with run have run': "balanced_loop a b e d (skip_quoted l) = (Ok u, l')" by simp
      show ?thesis
      proof (rule reads_quoted [of l])
        show "peek l = Some SQUOTE" using Some 1 by simp
      next
        fix q assume q: "reads l (SQUOTE # q @ [SQUOTE]) (skip_quoted l)" "SQUOTE \<notin> set q"
        obtain t where t: "reads (skip_quoted l) t l'" "closes a b d t"
          using "1.IH"(1) [OF Some 1 "1.prems"(1,2) run'] by blast
        have "closes a b d ((SQUOTE # q @ [SQUOTE]) @ t)"
          unfolding d by (rule closes_over) (use t(2) d inside_quote [OF q(2)] in simp_all)
        then show ?thesis using reads_trans [OF q(1) t(1)] by blast
      next
        assume "remaining (skip_quoted l) = []"
        then show ?thesis using run' by (subst (asm) balanced_loop.simps) (simp add: peek_def)
      qed
    next
      case 2
      with run br have run': "balanced_loop a b e (d + 1) (advance l) = (Ok u, l')" by simp
      obtain t where t: "reads (advance l) t l'" "closes a b (d + 1) t"
        using "1.IH"(2) [OF Some _ 2 "1.prems"(1) _ run'] br 2 by auto
      then show ?thesis using reads_trans [OF reads_ascii [OF Some] t(1)] br 2 d
        by (intro exI [of _ "a # t"]) (simp add: closes_open)
    next
      case 3
      have r: "reads l [b] (advance l)" using reads_ascii [OF Some] 3 br by simp
      show ?thesis
      proof (cases n)
        case 0
        then show ?thesis using run r 3 br d closes_close [OF closes_0]
          by (intro exI [of _ "[b]"]) simp
      next
        case (Suc m)
        with run br 3 d have run': "balanced_loop a b e (d - 1) (advance l) = (Ok u, l')" by simp
        obtain t where t: "reads (advance l) t l'" "closes a b (d - 1) t"
          using "1.IH"(3) [OF Some _ _ 3 _ "1.prems"(1) _ run'] br 3 d Suc by auto
        then show ?thesis using reads_trans [OF r t(1)] d
          by (intro exI [of _ "b # t"]) (simp add: closes_close)
      qed
    next
      case 4
      with run have run': "balanced_loop a b e d (advance l) = (Ok u, l')" by simp
      obtain t where t: "reads (advance l) t l'" "closes a b d t"
        using "1.IH"(4) [OF Some _ _ _ "1.prems"(1,2) run'] 4 by auto
      obtain v where v: "reads l (c # v) (advance l)" "list_all high v" "v \<noteq> [] \<longrightarrow> high c"
        using reads_advance [OF Some] by blast
      have "list_all (\<lambda>x. x \<notin> {SQUOTE, a, b}) (c # v)"
        using v(2) 4 br by (auto simp: list_all_iff)
      then have "closes a b d ((c # v) @ t)"
        unfolding d using t(2) d inside_over by (intro closes_over) blast+
      then show ?thesis using reads_trans [OF v(1) t(1)] by blast
    qed
  qed
qed

lemma closes_high: "closes a b (Suc n) (v @ t) \<Longrightarrow> list_all high v \<Longrightarrow> bracket a b \<Longrightarrow> closes a b (Suc n) t"
proof (induction v)
  case (Cons x v)
  then have "high x" by simp
  with bracket_facts [OF Cons.prems(3)] have x: "x \<noteq> a" "x \<noteq> b" "x \<noteq> SQUOTE" by auto
  from Cons.prems(1) have "closes a b (Suc n) (x # (v @ t))" by simp
  then have "closes a b (Suc n) (v @ t)" using x by (cases rule: closes_cases) auto
  then show ?case using Cons by simp
qed simp

lemma closes_last: "closes a b (Suc n) t \<Longrightarrow> \<exists>s. t = s @ [b]"
proof (induction n arbitrary: t)
  case 0
  then show ?case by (auto simp: closes_Suc_simp elim: closes.cases)
next
  case (Suc n)
  then obtain s u where "t = s @ b # u" "closes a b (Suc n) u" by (auto simp: closes_Suc_simp [of _ _ "Suc n"])
  then show ?case using Suc.IH by fastforce
qed

lemma first_split: "q @ x # r = q' @ x # r' \<Longrightarrow> x \<notin> set q \<Longrightarrow> x \<notin> set q' \<Longrightarrow> q = q' \<and> r = r'"
  by (induction q arbitrary: q') (auto simp: Cons_eq_append_conv append_eq_Cons_conv)

lemma skip_quoted_closed:
  assumes "remaining l = SQUOTE # q @ SQUOTE # r" "SQUOTE \<notin> set q"
  shows "remaining (skip_quoted l) = r"
proof -
  have p: "peek l = Some SQUOTE" using assms(1) by (rule peek_first)
  show ?thesis
  proof (rule reads_quoted [OF p])
    fix q' assume "reads l (SQUOTE # q' @ [SQUOTE]) (skip_quoted l)" "SQUOTE \<notin> set q'"
    then have "q @ SQUOTE # r = q' @ SQUOTE # remaining (skip_quoted l)"
      using assms(1) by (simp add: reads_def)
    then show ?thesis using assms(2) \<open>SQUOTE \<notin> set q'\<close> first_split by metis
  qed (use assms in simp)
qed

lemma balanced_open:
  "bracket a b \<Longrightarrow> 0 < d \<Longrightarrow> closes a b d t \<Longrightarrow> remaining l = t @ r \<Longrightarrow> fst (balanced_loop a b e d l) = Ok ()"
proof (induction "length t" arbitrary: t d l rule: less_induct)
  case less
  note br = bracket_facts [OF less.prems(1)]
  obtain n where d: "d = Suc n" using less.prems(2) by (cases d) auto
  from less.prems(3) have "closes a b (Suc n) t" by (simp add: d)
  then show ?case
  proof (cases rule: closes_cases)
    case (char x v)
    obtain w s where w: "v @ r = w @ s" "list_all high w" "remaining (advance l) = s"
      using advance_over [of l x "v @ r"] less.prems(4) char(1) remaining_skip [of l "x # _"] by auto
    obtain v' where v: "v = v' @ [b]" using closes_last [OF char(3)] by blast
    then obtain v2 where v2: "v' = w @ v2" "s = v2 @ b # r"
      using w high_prefix [of w s v' b r] br(2) by auto
    have "closes a b d (v2 @ [b])" using closes_high [of a b n w "v2 @ [b]"] char(3) v v2 w(2) d less.prems(1) by simp
    then have "fst (balanced_loop a b e d (advance l)) = Ok ()"
      using less.hyps [of "v2 @ [b]" d "advance l"] less.prems(1,2) char(1) v v2 w(3) by simp
    then show ?thesis using char(1,2) less.prems(4) by (subst balanced_loop.simps) (simp add: peek_first)
  next
    case (quote q v)
    have "remaining (skip_quoted l) = v @ r"
      using skip_quoted_closed [of l q "v @ r"] quote(1,2) less.prems(4) by simp
    then have "fst (balanced_loop a b e d (skip_quoted l)) = Ok ()"
      using less.hyps [of v d "skip_quoted l"] less.prems(1,2) quote d by simp
    then show ?thesis using quote(1) less.prems(4) by (subst balanced_loop.simps) (simp add: peek_first)
  next
    case (nest v)
    have "remaining (advance l) = v @ r"
      using advance_ascii [of l a "v @ r"] br(1) nest(1) less.prems(4) remaining_skip [of l "[a]"] by simp
    then have "fst (balanced_loop a b e (d + 1) (advance l)) = Ok ()"
      using less.hyps [of v "d + 1" "advance l"] less.prems(1) nest d by simp
    then show ?thesis using nest(1) less.prems(4) br by (subst balanced_loop.simps) (simp add: peek_first)
  next
    case (close v)
    have rem: "remaining (advance l) = v @ r"
      using advance_ascii [of l b "v @ r"] br(2) close(1) less.prems(4) remaining_skip [of l "[b]"] by simp
    show ?thesis
    proof (cases n)
      case 0
      then show ?thesis using close(1) less.prems(4) br d
        by (subst balanced_loop.simps) (simp add: peek_first)
    next
      case (Suc m)
      then have "fst (balanced_loop a b e (d - 1) (advance l)) = Ok ()"
        using less.hyps [of v "d - 1" "advance l"] less.prems(1) close d rem by simp
      then show ?thesis using close(1) less.prems(4) br d Suc
        by (subst balanced_loop.simps) (simp add: peek_first)
    qed
  qed
qed

text \<open>The error is the message about the bracket, at the place given.\<close>

definition unterminated :: "char \<Rightarrow> char \<Rightarrow> string" where
  "unterminated a b = ''unterminated `'' @ [a] @ ''...'' @ [b] @ ''`''"

lemma balanced_error:
  "fst (balanced_loop a b e d l) = Err x \<Longrightarrow> x = ParseError (span_eof e) (unterminated a b)"
proof (induction a b e d l rule: balanced_loop.induct)
  case (1 a b e d l)
  show ?case
  proof (cases "peek l")
    case (Some c)
    note run = 1(5) [unfolded balanced_loop.simps [of a b e d l] Some option.case unterminated_def [symmetric]]
    consider "c = SQUOTE" | "c = a" "c \<noteq> SQUOTE" | "c = b" "c \<noteq> a" "c \<noteq> SQUOTE"
      | "c \<noteq> SQUOTE" "c \<noteq> a" "c \<noteq> b" by blast
    then show ?thesis
    proof cases
      case 1
      then show ?thesis using "1.IH"(1) [OF Some 1] run by simp
    next
      case 2
      then show ?thesis using "1.IH"(2) [OF Some 2(2,1)] run by simp
    next
      case 3
      then show ?thesis using "1.IH"(3) [OF Some 3(3,2,1)] run by (cases "d - 1 = 0") simp_all
    next
      case 4
      then show ?thesis using "1.IH"(4) [OF Some 4] run by simp
    qed
  qed (use 1(5) in \<open>subst (asm) balanced_loop.simps, simp add: unterminated_def\<close>)
qed

lemma balanced_result:
  assumes "bracket a b" "0 < d" "balanced_loop a b e d l = (r, l')"
  obtains (closed) t where "r = Ok ()" "reads l t l'" "closes a b d t"
  | (unclosed) "r = Err (ParseError (span_eof e) (unterminated a b))"
      "\<And>t s. remaining l = t @ s \<Longrightarrow> \<not> closes a b d t"
proof -
  have s: "settled r" "r \<noteq> Panic" using scans_balanced [of l a b e d] assms(3) by (auto simp: scans_def)
  show ?thesis
  proof (cases r)
    case (Ok u)
    then show ?thesis using balanced_closed [OF assms(1,2)] assms(3) closed by auto
  next
    case (Err x)
    then show ?thesis
      using balanced_error [of a b e d l x] balanced_open [OF assms(1,2), of _ l _ e] assms(3) unclosed by auto
  qed (use s in simp_all)
qed

section \<open>The grammar of words\<close>

text \<open>The bytes that end a word.\<close>

definition separator :: "char \<Rightarrow> bool" where
  "separator c \<longleftrightarrow> c \<in> {CHR '' '', TAB, NL, CHR ''|'', CHR ''&'', CHR '';'', CHR ''('', CHR '')'',
     CHR ''{'', CHR ''}'', CHR ''<'', CHR ''>'', DQUOTE, SQUOTE}"

text \<open>The inside of backticks.\<close>

inductive ticked :: "string \<Rightarrow> bool" where
  ticked_Nil: "ticked []"
| ticked_char: "c \<notin> {NL, BSLASH, BTICK} \<Longrightarrow> ticked b \<Longrightarrow> ticked (c # b)"
| ticked_escape: "ticked b \<Longrightarrow> ticked (BSLASH # c # b)"

text \<open>
  \<open>word_form stop r w\<close>: the pieces of \<open>w\<close> make up a word in front of the rest \<open>r\<close>, which satisfies
  \<open>stop\<close>. Backticks that a newline or the end of the source cuts off belong to the word.
\<close>

inductive word_form :: "(string \<Rightarrow> bool) \<Rightarrow> string \<Rightarrow> string \<Rightarrow> bool" for stop r where
  word_end: "stop r \<Longrightarrow> word_form stop r []"
| word_plain: "\<not> separator c \<Longrightarrow> c \<notin> {BSLASH, CHR ''$'', BTICK} \<Longrightarrow> word_form stop r w \<Longrightarrow>
    word_form stop r (c # w)"
| word_escape: "word_form stop r w \<Longrightarrow> word_form stop r (BSLASH # c # w)"
| word_escape_end: "stop r \<Longrightarrow> r = [] \<Longrightarrow> word_form stop r [BSLASH]"
| word_dollar: "ends_run (\<lambda>c. c \<in> {CHR ''{'', CHR ''('', CHR ''$''}) (w @ r) \<Longrightarrow> word_form stop r w \<Longrightarrow>
    word_form stop r (CHR ''$'' # w)"
| word_pid: "word_form stop r w \<Longrightarrow> word_form stop r (CHR ''$'' # CHR ''$'' # w)"
| word_group: "bracket a b \<Longrightarrow> inside a b t \<Longrightarrow> word_form stop r w \<Longrightarrow>
    word_form stop r (CHR ''$'' # a # t @ b # w)"
| word_tick: "ticked b \<Longrightarrow> word_form stop r w \<Longrightarrow> word_form stop r (BTICK # b @ BTICK # w)"
| word_tick_cut: "stop r \<Longrightarrow> ticked b \<Longrightarrow> ends_run (\<lambda>c. c \<noteq> NL) r \<Longrightarrow> word_form stop r (BTICK # b)"
| word_tick_end: "stop r \<Longrightarrow> ticked b \<Longrightarrow> r = [] \<Longrightarrow> word_form stop r (BTICK # b @ [BSLASH])"

inductive_cases word_form_NilE: "word_form stop r []"
inductive_cases word_form_ConsE: "word_form stop r (c # w)"

text \<open>A word ends at a separator or with the source.\<close>

abbreviation word_ends :: "string \<Rightarrow> bool" where
  "word_ends \<equiv> ends_run (\<lambda>c. \<not> separator c)"

text \<open>A bracket after a dollar that nothing closes, at position \<open>p\<close>, and the error for it.\<close>

definition unclosed :: "string \<Rightarrow> bool" where
  "unclosed r \<longleftrightarrow> (\<exists>a b s. bracket a b \<and> r = CHR ''$'' # a # s \<and> (\<forall>t s'. s = t @ b # s' \<longrightarrow> \<not> inside a b t))"

definition unclosed_error :: "nat \<Rightarrow> string \<Rightarrow> parse_error \<Rightarrow> bool" where
  "unclosed_error p r e \<longleftrightarrow> unclosed r \<and>
     (if r ! 1 = CHR ''{'' then e = ParseError (span_eof (p + 2)) (unterminated CHR ''{'' CHR ''}'')
      else e = ParseError (span_eof (p + (if take 3 r = ''$(('' then 3 else 2)))
                 (unterminated CHR ''('' CHR '')''))"

text \<open>What a scan of a word from \<open>l\<close> gives.\<close>

definition word_result :: "lexer \<Rightarrow> (unit, parse_error) outcome \<times> lexer \<Rightarrow> bool" where
  "word_result l x \<longleftrightarrow>
     (\<exists>w. fst x = Ok () \<and> reads l w (snd x) \<and> word_form word_ends (remaining (snd x)) w) \<or>
     (\<exists>w r e. fst x = Err e \<and> remaining l = w @ r \<and> word_form unclosed r w \<and> unclosed_error (lx_pos l + length w) r e)"

lemma word_result_step:
  assumes "word_result l1 x" "reads l u l1"
    "\<And>stop r w. remaining l1 = w @ r \<Longrightarrow> word_form stop r w \<Longrightarrow> word_form stop r (u @ w)"
  shows "word_result l x"
proof -
  consider (word) w where "fst x = Ok ()" "reads l1 w (snd x)" "word_form word_ends (remaining (snd x)) w"
    | (error) w r e where "fst x = Err e" "remaining l1 = w @ r" "word_form unclosed r w"
        "unclosed_error (lx_pos l1 + length w) r e"
    using assms(1) unfolding word_result_def by blast
  then show ?thesis
  proof cases
    case word
    then show ?thesis
      unfolding word_result_def using reads_trans [OF assms(2)] assms(3) [of w] by (auto simp: reads_def)
  next
    case error
    then show ?thesis
      unfolding word_result_def using assms(2) assms(3) [of w r unclosed]
      by (intro disjI2 exI [of _ "u @ w"] exI [of _ r] exI [of _ e]) (simp add: reads_def add.assoc)
  qed
qed

lemma separator_word_char: "is_word_char c \<longleftrightarrow> \<not> separator c"
  by (simp add: is_word_char_def separator_def)

lemma separator_ascii: "separator c \<Longrightarrow> \<not> high c"
  by (auto simp: separator_def high_def char_consts)

lemma word_over_high: "list_all high v \<Longrightarrow> word_form stop r w \<Longrightarrow> word_form stop r (v @ w)"
proof (induction v)
  case (Cons c v)
  then have "high c" by simp
  then have "\<not> separator c" "c \<notin> {BSLASH, CHR ''$'', BTICK}" using separator_ascii by auto
  then show ?case using Cons by (auto intro: word_plain)
qed simp

lemma word_over_plain:
  "list_all (\<lambda>c. \<not> separator c \<and> c \<notin> {BSLASH, CHR ''$'', BTICK}) v \<Longrightarrow> word_form stop r w \<Longrightarrow> word_form stop r (v @ w)"
  by (induction v) (auto intro: word_plain)

lemma word_at_newline:
  assumes "word_form stop r w" "ends_run (\<lambda>c. c \<noteq> NL) (w @ r)"
  shows "w = []"
proof (cases w)
  case (Cons c v)
  then have "c = NL" using assms(2) by (simp add: ends_run_def)
  then have "word_form stop r (NL # v)" using Cons assms(1) by simp
  then show ?thesis by (rule word_form_ConsE) (auto simp: separator_def char_consts)
qed

section \<open>Scanning a word\<close>

lemma reads_escaped:
  assumes "peek l = Some BSLASH"
  shows "(reads l [BSLASH] (skip_escaped l) \<and> remaining (skip_escaped l) = [])
    \<or> (\<exists>c v. reads l (BSLASH # c # v) (skip_escaped l) \<and> list_all high v)"
proof -
  have a: "reads l [BSLASH] (advance l)" by (rule reads_ascii [OF assms]) simp
  show ?thesis
  proof (cases "peek (advance l)")
    case None
    then show ?thesis using a by (simp add: skip_escaped_def Let_def peek_None)
  next
    case (Some c)
    then show ?thesis
      using reads_advance [OF Some] reads_trans [OF a] by (fastforce simp: skip_escaped_def Let_def)
  qed
qed

lemma ticked_high: "list_all high v \<Longrightarrow> ticked b \<Longrightarrow> ticked (v @ b)"
proof (induction v)
  case (Cons c v)
  then have "c \<notin> {NL, BSLASH, BTICK}" by auto
  then show ?case using Cons by (simp add: ticked_char)
qed simp

lemma reads_backtick:
  "\<exists>b. ticked b \<and>
     (reads l (b @ [BTICK]) (backtick_loop l)
      \<or> reads l b (backtick_loop l) \<and> ends_run (\<lambda>c. c \<noteq> NL) (remaining (backtick_loop l))
      \<or> reads l (b @ [BSLASH]) (backtick_loop l) \<and> remaining (backtick_loop l) = [])"
  (is "\<exists>b. ticked b \<and> ?P l b")
proof (induction "left l" arbitrary: l rule: less_induct)
  case less
  have step: "\<exists>b. ticked b \<and> ?P l b"
    if "reads l u l1" "left l1 < left l" "backtick_loop l = backtick_loop l1" "\<And>b. ticked b \<Longrightarrow> ticked (u @ b)" for u l1
  proof -
    note st = that
    obtain b where "ticked b" "?P l1 b" using less.hyps [OF st(2)] by blast
    then show ?thesis using reads_trans [OF st(1)] st(3,4) by (intro exI [of _ "u @ b"]) auto
  qed
  show ?case
  proof (cases "peek l")
    case None
    then have "backtick_loop l = l" by (subst backtick_loop.simps) simp
    then show ?thesis using None by (intro exI [of _ "[]"]) (simp add: ticked_Nil peek_None ends_run_def)
  next
    case (Some c)
    consider "c = NL" | "c = BSLASH" | "c = BTICK" | "c \<notin> {NL, BSLASH, BTICK}" by blast
    then show ?thesis
    proof cases
      case 1
      then have "backtick_loop l = l" using Some by (subst backtick_loop.simps) simp
      then show ?thesis using 1 reads_first [OF Some]
        by (intro exI [of _ "[]"]) (auto simp: ticked_Nil ends_run_def)
    next
      case 2
      then have eq: "backtick_loop l = backtick_loop (skip_escaped l)"
        using Some by (subst backtick_loop.simps) (simp add: char_consts)
      from reads_escaped [of l] Some 2
      consider "reads l [BSLASH] (skip_escaped l)" "remaining (skip_escaped l) = []"
        | c v where "reads l (BSLASH # c # v) (skip_escaped l)" "list_all high v" by blast
      then show ?thesis
      proof cases
        case 1
        then have "backtick_loop (skip_escaped l) = skip_escaped l"
          by (subst backtick_loop.simps) (simp add: peek_def)
        then show ?thesis using 1 eq by (intro exI [of _ "[]"]) (simp add: ticked_Nil)
      next
        case 2
        then show ?thesis
          using step [OF 2(1) left_skip_escaped [OF Some] eq] ticked_escape ticked_high by simp
      qed
    next
      case 3
      then have "backtick_loop l = advance l" using Some by (subst backtick_loop.simps) (simp add: char_consts)
      then show ?thesis using 3 reads_ascii [OF Some] by (intro exI [of _ "[]"]) (simp add: ticked_Nil)
    next
      case 4
      then have eq: "backtick_loop l = backtick_loop (advance l)" using Some by (subst backtick_loop.simps) simp
      obtain v where v: "reads l (c # v) (advance l)" "list_all high v" using reads_advance [OF Some] by blast
      show ?thesis
        using step [OF v(1) left_advance_peek [OF Some] eq] v(2) 4 ticked_char ticked_high by simp
    qed
  qed
qed

text \<open>The characters a name after a dollar is made of are plain ones.\<close>

lemma dollar_char_plain:
  assumes "is_dollar_char c \<or> is_ident_char c"
  shows "\<not> high c" "\<not> separator c" "c \<notin> {BSLASH, BTICK, CHR ''{'', CHR ''(''}"
proof -
  have "c \<in> {CHR ''_'', CHR ''@'', CHR ''*'', CHR ''#'', CHR ''?'', CHR ''$'', CHR ''!''}
      \<or> is_ascii_alphanumeric c"
    using assms by (auto simp: is_dollar_char_def is_ident_char_def)
  then show "\<not> high c" "\<not> separator c" "c \<notin> {BSLASH, BTICK, CHR ''{'', CHR ''(''}"
    by (auto simp: high_def separator_def char_consts is_ascii_alphanumeric_def is_ascii_alphabetic_def
        is_ascii_digit_def)
qed

lemma ident_not_dollar: "is_ident_char c \<Longrightarrow> c \<noteq> CHR ''$''"
  by (auto simp: is_ident_char_def is_ascii_alphanumeric_def is_ascii_alphabetic_def is_ascii_digit_def)

lemma ident_plain: "is_ident_char c \<Longrightarrow> \<not> separator c \<and> c \<notin> {BSLASH, CHR ''$'', BTICK}"
  using dollar_char_plain [OF disjI2] ident_not_dollar by simp

lemma whole_ident: "whole_test is_ident_char"
  using dollar_char_plain(1) by (auto simp: whole_test_def)

lemma group_result:
  assumes "peek l0 = Some CHR ''$''" "bracket a b" "peek (advance l0) = Some a"
    and "balanced_loop a b p (if a = CHR ''('' \<and> dbl then 2 else 1) l2 = (x, l1)"
    and "dbl \<Longrightarrow> a = CHR ''('' \<and> peek (advance (advance l0)) = Some CHR ''('' \<and> l2 = advance (advance (advance l0))"
    and "\<not> dbl \<Longrightarrow> l2 = advance (advance l0)"
    and "a = CHR ''('' \<Longrightarrow> \<not> dbl \<Longrightarrow> peek (advance (advance l0)) \<noteq> Some CHR ''(''"
    and "p = lx_pos l2"
  shows "(x = Ok () \<and> (\<exists>t. inside a b t \<and> reads l0 (CHR ''$'' # a # t @ [b]) l1))
    \<or> (\<exists>e. x = Err e \<and> unclosed_error (lx_pos l0) (remaining l0) e)"
proof -
  note br = bracket_facts [OF assms(2)]
  define l where "l = advance (advance l0)"
  have r: "reads l0 [CHR ''$'', a] l"
    using reads_trans [OF reads_ascii [OF assms(1)] reads_ascii [OF assms(3)]] br(1) by (simp add: l_def)
  define pre where "pre = (if dbl then ''('' else [])"
  define d where "d = (if a = CHR ''('' \<and> dbl then 2 else 1 :: nat)"
  have pre: "reads l pre l2"
    using assms(5,6) reads_ascii [of l "CHR ''(''"] by (cases dbl) (auto simp: pre_def l_def)
  have open_close: "closes a b d t \<longleftrightarrow> closes a b 1 (pre @ t)" for t
  proof (cases dbl)
    case True
    then have "a = CHR ''(''" using assms(5) by simp
    then show ?thesis using True br closes_open [of a b 0 t]
      by (auto simp: d_def pre_def numeral_2_eq_2 elim: closes_cases)
  next
    case False
    then show ?thesis by (simp add: d_def pre_def)
  qed
  have one: "closes a b 1 u \<longleftrightarrow> (\<exists>t. u = t @ [b] \<and> inside a b t)" for u
    by (auto simp: closes_Suc_simp [of _ _ 0, simplified] elim: closes.cases intro: closes_0)
  show ?thesis
  proof (rule balanced_result [OF assms(2) _ assms(4)])
    fix t assume t: "x = Ok ()" "reads l2 t l1" "closes a b (if a = CHR ''('' \<and> dbl then 2 else 1) t"
    then obtain t' where "pre @ t = t' @ [b]" "inside a b t'"
      using open_close [of t] one by (auto simp: d_def)
    then show ?thesis using t(1) reads_trans [OF r reads_trans [OF pre t(2)]] by auto
  next
    assume e: "x = Err (ParseError (span_eof p) (unterminated a b))"
      and no: "\<And>t s. remaining l2 = t @ s \<Longrightarrow> \<not> closes a b (if a = CHR ''('' \<and> dbl then 2 else 1) t"
    have rem: "remaining l0 = CHR ''$'' # a # pre @ remaining l2" using r pre by (simp add: reads_def)
    have "\<not> inside a b t" if "pre @ remaining l2 = t @ b # s" for t s
    proof
      assume "inside a b t"
      then have c: "closes a b 1 (t @ [b])" using one by blast
      have "\<exists>v. t @ [b] = pre @ v \<and> remaining l2 = v @ s"
        using that br assms(5) by (cases dbl) (auto simp: pre_def append_eq_Cons_conv Cons_eq_append_conv)
      then show False using c no open_close unfolding d_def by metis
    qed
    then have u: "unclosed (remaining l0)" unfolding unclosed_def rem using assms(2) by blast
    have pos: "p = lx_pos l0 + (if dbl then 3 else 2)"
      using r pre assms(8) by (simp add: reads_def pre_def)
    have "remaining l2 = [] \<or> hd (remaining l2) \<noteq> CHR ''(''" if "a = CHR ''(''" "\<not> dbl"
      using assms(6,7) that by (auto simp: peek_def split: list.splits)
    then have "take 3 (remaining l0) = ''$(('' \<longleftrightarrow> a = CHR ''('' \<and> dbl"
      unfolding rem by (cases "remaining l2") (auto simp: pre_def numeral_3_eq_3)
    then have "unclosed_error (lx_pos l0) (remaining l0) (ParseError (span_eof p) (unterminated a b))"
      unfolding unclosed_error_def using u assms(2,5) pos rem
      by (auto simp: bracket_def)
    then show ?thesis using e by blast
  qed simp
qed

lemma dollar_result:
  assumes p: "peek l0 = Some CHR ''$''" and run: "lex_dollar (advance l0) = (x, l1)"
  shows "(x = Ok () \<and> (\<exists>u. reads l0 u l1 \<and>
            (\<forall>stop r w. remaining l1 = w @ r \<longrightarrow> word_form stop r w \<longrightarrow> word_form stop r (u @ w))))
    \<or> (\<exists>e. x = Err e \<and> unclosed_error (lx_pos l0) (remaining l0) e)"
    (is "?ok \<or> ?err")
proof -
  have d: "reads l0 ''$'' (advance l0)" by (rule reads_ascii [OF p]) simp
  have group: "?ok \<or> ?err" if "bracket a b" "(x = Ok () \<and> (\<exists>t. inside a b t \<and> reads l0 (CHR ''$'' # a # t @ [b]) l1)) \<or> ?err" for a b
    using that(2) word_group [OF that(1)] by fastforce
  have dollar: "?ok" if "x = Ok ()" "l1 = advance l0" "ends_run (\<lambda>c. c \<in> {CHR ''{'', CHR ''('', CHR ''$''}) (remaining l1)"
    using that d word_dollar by fastforce
  show ?thesis
  proof (cases "peek (advance l0)")
    case None
    then have "x = Ok ()" "l1 = advance l0" using run by (simp_all add: lex_dollar_def)
    then show ?thesis using None dollar by (simp add: ends_run_def peek_None)
  next
    case (Some c)
    obtain s where s: "remaining (advance l0) = c # s" using reads_first [OF Some] by blast
    consider "c = CHR ''{''" | "c = CHR ''(''" "peek (advance (advance l0)) = Some CHR ''(''"
      | "c = CHR ''(''" "peek (advance (advance l0)) \<noteq> Some CHR ''(''"
      | "c = CHR ''$''" | "is_dollar_char c" "c \<noteq> CHR ''$''" "c \<noteq> CHR ''{''" "c \<noteq> CHR ''(''"
      | "\<not> is_dollar_char c" "c \<noteq> CHR ''{''" "c \<noteq> CHR ''(''" "c \<noteq> CHR ''$''"
      by blast
    then show ?thesis
    proof cases
      case 1
      then have b: "balanced_loop CHR ''{'' CHR ''}'' (lx_pos (advance (advance l0))) 1 (advance (advance l0)) = (x, l1)"
        using run Some by (simp add: lex_dollar_def consume_balanced_def consume_balanced_depth_def)
      show ?thesis
        by (rule group [OF _ group_result [OF p, where a = "CHR ''{''" and b = "CHR ''}''" and dbl = False]])
           (use b 1 Some in \<open>simp_all add: bracket_def\<close>)
    next
      case 2
      then have b: "balanced_loop CHR ''('' CHR '')'' (lx_pos (advance (advance (advance l0)))) 2
          (advance (advance (advance l0))) = (x, l1)"
        using run Some by (simp add: lex_dollar_def consume_balanced_depth_def Let_def)
      show ?thesis
        by (rule group [OF _ group_result [OF p _ _ , where dbl = True]]) (use b 2 Some in \<open>simp_all add: bracket_def\<close>)
    next
      case 3
      then have b: "balanced_loop CHR ''('' CHR '')'' (lx_pos (advance (advance l0))) 1 (advance (advance l0)) = (x, l1)"
        using run Some by (simp add: lex_dollar_def consume_balanced_depth_def Let_def)
      show ?thesis
        by (rule group [OF _ group_result [OF p _ _ , where dbl = False]]) (use b 3 Some in \<open>simp_all add: bracket_def\<close>)
    next
      case 4
      then have "x = Ok ()" "l1 = advance (advance l0)"
        using run Some by (auto simp: lex_dollar_def is_dollar_char_def is_ascii_alphabetic_def)
      moreover have "reads l0 ''$$'' (advance (advance l0))"
        using reads_trans [OF d reads_ascii [OF Some]] 4 by simp
      ultimately show ?thesis using word_pid by fastforce
    next
      case 5
      note pl = dollar_char_plain [OF disjI1 [OF 5(1)]]
      have a: "reads (advance l0) [c] (advance (advance l0))" by (rule reads_ascii [OF Some pl(1)])
      have e: "x = Ok ()" "l1 = (if is_ascii_alphabetic c \<or> c = CHR ''_''
          then advance_while is_ident_char (advance (advance l0)) else advance (advance l0))"
        using run Some 5 by (simp_all add: lex_dollar_def)
      obtain v where v: "reads (advance (advance l0)) v l1" "list_all is_ident_char v" "x = Ok ()"
      proof (cases "is_ascii_alphabetic c \<or> c = CHR ''_''")
        case True
        then show thesis using that e reads_while [OF whole_ident, of "advance (advance l0)"] by auto
      next
        case False
        then show thesis using that [of "[]"] e by simp
      qed
      have pv: "list_all (\<lambda>c. \<not> separator c \<and> c \<notin> {BSLASH, CHR ''$'', BTICK}) (c # v)"
        using v(2) pl 5(2) ident_plain by (auto simp: list_all_iff)
      have "word_form stop r (CHR ''$'' # c # v @ w)" if "word_form stop r w" for stop r w
        using word_over_plain [OF pv that] 5 by (intro word_dollar) (simp_all add: ends_run_def)
      moreover have "reads l0 (CHR ''$'' # c # v) l1" using reads_trans [OF d reads_trans [OF a v(1)]] by simp
      ultimately have ?ok using v(3) by (intro conjI exI [of _ "CHR ''$'' # c # v"]) simp_all
      then show ?thesis ..
    next
      case 6
      then show ?thesis using run Some dollar s by (simp add: lex_dollar_def ends_run_def)
    qed
  qed
qed

lemma word_result_loop: "word_result l (word_loop l)"
proof (induction "left l" arbitrary: l rule: less_induct)
  case less
  show ?case
  proof (cases "peek l")
    case None
    then have "word_loop l = (Ok (), l)" by (subst word_loop.simps) simp
    then show ?thesis using None
      by (auto simp: word_result_def peek_None ends_run_def intro!: exI [of _ "[]"] word_end)
  next
    case (Some c)
    obtain s where s: "remaining l = c # s" using reads_first [OF Some] by blast
    consider "c = BSLASH" | "c = CHR ''$''" | "c = BTICK"
      | "\<not> separator c" "c \<notin> {BSLASH, CHR ''$'', BTICK}" | "separator c" "c \<notin> {BSLASH, CHR ''$'', BTICK}" by blast
    then show ?thesis
    proof cases
      case 1
      then have eq: "word_loop l = word_loop (skip_escaped l)" using Some by (subst word_loop.simps) simp
      have IH: "word_result (skip_escaped l) (word_loop (skip_escaped l))"
        by (rule less [OF left_skip_escaped [OF Some]])
      from reads_escaped [of l] Some 1
      consider "reads l [BSLASH] (skip_escaped l)" "remaining (skip_escaped l) = []"
        | c v where "reads l (BSLASH # c # v) (skip_escaped l)" "list_all high v" by blast
      then show ?thesis
      proof cases
        case 1
        then show ?thesis unfolding eq
          by (intro word_result_step [OF IH 1(1)]) (auto elim: word_form_NilE intro: word_escape_end)
      next
        case 2
        then show ?thesis unfolding eq
          by (intro word_result_step [OF IH 2(1)]) (auto intro: word_escape word_over_high)
      qed
    next
      case 2
      obtain x l1 where d: "lex_dollar (advance l) = (x, l1)" by fastforce
      have eq: "word_loop l = (case x of Ok _ \<Rightarrow> word_loop l1 | _ \<Rightarrow> (x, l1))"
        using Some 2 d by (subst word_loop.simps) (simp add: char_consts split: outcome.split)
      from dollar_result [OF Some [unfolded 2] d] show ?thesis
      proof (elim disjE conjE exE)
        fix u assume x: "x = Ok ()" and u: "reads l u l1"
          "\<forall>stop r w. remaining l1 = w @ r \<longrightarrow> word_form stop r w \<longrightarrow> word_form stop r (u @ w)"
        have "left l1 < left l"
          using scans_lex_dollar [of "advance l"] d left_less_ahead [OF Some] by (auto simp: scans_def)
        then have "word_result l (word_loop l1)" using less u by (intro word_result_step [OF _ u(1)]) auto
        then show ?thesis unfolding eq using x by simp
      next
        fix e assume "x = Err e" "unclosed_error (lx_pos l) (remaining l) e"
        then have "word_form unclosed (remaining l) []" by (auto simp: unclosed_error_def intro: word_end)
        then show ?thesis unfolding eq word_result_def using \<open>x = Err e\<close> \<open>unclosed_error _ _ _\<close>
          by (intro disjI2 exI [of _ "[]"] exI [of _ "remaining l"] exI [of _ e]) simp
      qed
    next
      case 3
      then have eq: "word_loop l = word_loop (backtick_loop (advance l))"
        using Some by (subst word_loop.simps) (simp add: char_consts)
      have IH: "word_result (backtick_loop (advance l)) (word_loop (backtick_loop (advance l)))"
        by (rule less, rule left_less_ahead [OF Some]) simp
      have a: "reads l [BTICK] (advance l)" using reads_ascii [OF Some] 3 by simp
      obtain b where b: "ticked b" and
        "reads (advance l) (b @ [BTICK]) (backtick_loop (advance l))
         \<or> reads (advance l) b (backtick_loop (advance l)) \<and> ends_run (\<lambda>c. c \<noteq> NL) (remaining (backtick_loop (advance l)))
         \<or> reads (advance l) (b @ [BSLASH]) (backtick_loop (advance l)) \<and> remaining (backtick_loop (advance l)) = []"
        using reads_backtick [of "advance l"] by blast
      then consider (closed) "reads l (BTICK # b @ [BTICK]) (backtick_loop (advance l))"
        | (cut) "reads l (BTICK # b) (backtick_loop (advance l))"
            "ends_run (\<lambda>c. c \<noteq> NL) (remaining (backtick_loop (advance l)))"
        | (last) "reads l (BTICK # b @ [BSLASH]) (backtick_loop (advance l))" "remaining (backtick_loop (advance l)) = []"
        using reads_trans [OF a] by (metis append_Cons append_Nil)
      then show ?thesis
      proof cases
        case closed
        then show ?thesis unfolding eq
          by (intro word_result_step [OF IH closed]) (auto intro: word_tick [OF b])
      next
        case cut
        have "word_form stop r ((BTICK # b) @ w)"
          if "remaining (backtick_loop (advance l)) = w @ r" "word_form stop r w" for stop r w
          using word_at_newline [OF that(2)] cut(2) that b by (auto elim: word_form_NilE intro: word_tick_cut)
        then show ?thesis unfolding eq by (rule word_result_step [OF IH cut(1)])
      next
        case last
        then show ?thesis unfolding eq
          by (intro word_result_step [OF IH last(1)])
             (auto elim: word_form_NilE intro: word_tick_end [OF _ b])
      qed
    next
      case 4
      then have eq: "word_loop l = word_loop (advance l)"
        using Some by (subst word_loop.simps) (simp add: separator_word_char)
      obtain v where v: "reads l (c # v) (advance l)" "list_all high v" using reads_advance [OF Some] by blast
      show ?thesis unfolding eq
        by (rule word_result_step [OF less [OF left_advance_peek [OF Some]] v(1)])
           (use 4 v(2) in \<open>auto intro: word_plain word_over_high\<close>)
    next
      case 5
      then have "word_loop l = (Ok (), l)"
        using Some by (subst word_loop.simps) (simp add: separator_word_char)
      then show ?thesis using 5 s
        by (auto simp: word_result_def ends_run_def intro!: exI [of _ "[]"] word_end)
    qed
  qed
qed

lemma lex_word_result:
  assumes "lex_word (lx_pos l) l = (x, l')"
  shows "(\<exists>w. x = Ok (Token (TkWord w) (Span (lx_pos l) (length w))) \<and> reads l w l'
            \<and> word_form word_ends (remaining l') w)
    \<or> (\<exists>w r e. x = Err e \<and> remaining l = w @ r \<and> word_form unclosed r w
            \<and> unclosed_error (lx_pos l + length w) r e)"
proof -
  obtain y l1 where w: "word_loop l = (y, l1)" by fastforce
  with word_result_loop [of l]
  consider (word) w where "y = Ok ()" "reads l w l1" "word_form word_ends (remaining l1) w"
    | (error) w r e where "y = Err e" "remaining l = w @ r" "word_form unclosed r w"
        "unclosed_error (lx_pos l + length w) r e"
    unfolding word_result_def by auto
  then show ?thesis
  proof cases
    case word
    then have "x = Ok (Token (TkWord w) (Span (lx_pos l) (length w)))" "l' = l1"
      using assms w reads_slice [OF word(2)]
      by (auto simp: lex_word_def andThen_def span_from_def reads_def)
    then show ?thesis using word by blast
  next
    case error
    then show ?thesis using assms w by (auto simp: lex_word_def andThen_def)
  qed
qed

section \<open>The grammar of tokens\<close>

text \<open>A text in double quotes and what it stands for, in front of the rest \<open>r\<close>.\<close>

inductive dq_form :: "string \<Rightarrow> string \<Rightarrow> string \<Rightarrow> bool" for r where
  dq_end: "ends_run (\<lambda>c. c \<notin> {DQUOTE, CHR ''$'', BTICK}) r \<Longrightarrow> dq_form r [] []"
| dq_plain: "c \<notin> {DQUOTE, CHR ''$'', BTICK, BSLASH} \<Longrightarrow> dq_form r t s \<Longrightarrow> dq_form r (c # t) (c # s)"
| dq_escape: "c \<in> {DQUOTE, CHR ''$'', BTICK, BSLASH} \<Longrightarrow> dq_form r t s \<Longrightarrow> dq_form r (BSLASH # c # t) (c # s)"
| dq_join: "dq_form r t s \<Longrightarrow> dq_form r (BSLASH # NL # t) s"
| dq_keep: "c \<notin> {DQUOTE, CHR ''$'', BTICK, BSLASH, NL} \<Longrightarrow> dq_form r t s \<Longrightarrow>
    dq_form r (BSLASH # c # t) (BSLASH # c # s)"
| dq_last: "r = [] \<Longrightarrow> dq_form r [BSLASH] [BSLASH]"

text \<open>The delimiter of a here-document, as written.\<close>

fun delimiter_form :: "bool \<Rightarrow> string \<Rightarrow> string \<Rightarrow> string \<Rightarrow> bool" where
  "delimiter_form True d u r \<longleftrightarrow> (\<exists>q \<in> {SQUOTE, DQUOTE}. u = q # d @ [q] \<and> q \<notin> set d \<and> NL \<notin> set d)"
| "delimiter_form False d u r \<longleftrightarrow> u = d \<and> d \<noteq> [] \<and> hd d \<notin> {SQUOTE, DQUOTE}
     \<and> (\<forall>c \<in> set d. c \<notin> {NL, CHR '' '', TAB}) \<and> ends_run (\<lambda>c. c \<notin> {NL, CHR '' '', TAB}) r"

text \<open>The number in front of a redirection, if it has one and it fits 32 bits.\<close>

definition fd_number :: "string \<Rightarrow> nat option" where
  "fd_number ds =
     (let n = foldl (\<lambda>n c. 10 * n + (byte c - 48)) 0 ds in if ds = [] \<or> 2 ^ 32 \<le> n then None else Some n)"

text \<open>What comes before the delimiter: the number, the operator, a dash and blanks.\<close>

definition heredoc_head :: "string \<Rightarrow> bool \<Rightarrow> string \<Rightarrow> string \<Rightarrow> bool" where
  "heredoc_head ds strip h r \<longleftrightarrow>
     (\<exists>b. h = ds @ ''<<'' @ (if strip then ''-'' else []) @ b \<and> list_all is_ascii_digit ds \<and> list_all blank b
       \<and> (strip \<or> ends_run (\<lambda>c. c = CHR ''-'') (b @ r)))"

text \<open>The characters that would make a longer operator.\<close>

fun longer_op :: "redirect_op \<Rightarrow> string" where
  "longer_op Less = ''<>&''"
| "longer_op Greater = ''>|&''"
| "longer_op _ = []"

abbreviation not_next :: "string \<Rightarrow> string \<Rightarrow> bool" where
  "not_next cs \<equiv> ends_run (\<lambda>c. c \<in> set cs)"

text \<open>Where a word begins: not at a comment, a negation or the number of a redirection.\<close>

definition word_begins :: "bool \<Rightarrow> string \<Rightarrow> bool" where
  "word_begins dq s \<longleftrightarrow> (\<exists>c v. s = c # v \<and>
     (if dq then c \<in> {CHR ''$'', BTICK}
      else \<not> separator c \<and> c \<noteq> CHR ''#'' \<and> c \<noteq> CHR ''!''
        \<and> (\<forall>ds x y. s = ds @ x # y \<longrightarrow> list_all is_ascii_digit ds \<longrightarrow> x \<notin> {CHR ''<'', CHR ''>''})))"

text \<open>\<open>written dq k t r\<close>: inside or outside of double quotes, \<open>t\<close> is the token \<open>k\<close> in front of \<open>r\<close>.\<close>

fun written :: "bool \<Rightarrow> token_kind \<Rightarrow> string \<Rightarrow> string \<Rightarrow> bool" where
  "written dq (TkWord w) t r \<longleftrightarrow> t = w \<and> word_begins dq (w @ r) \<and> word_form word_ends r w"
| "written True (DQText s) t r \<longleftrightarrow> t \<noteq> [] \<and> dq_form r t s"
| "written True DoubleQuoteClose t r \<longleftrightarrow> t = [DQUOTE]"
| "written False DoubleQuoteOpen t r \<longleftrightarrow> t = [DQUOTE]"
| "written False (SingleQuote s) t r \<longleftrightarrow> t = SQUOTE # s @ [SQUOTE] \<and> SQUOTE \<notin> set s"
| "written False Pipe t r \<longleftrightarrow> t = ''|'' \<and> not_next ''|'' r"
| "written False OrOr t r \<longleftrightarrow> t = ''||''"
| "written False Amp t r \<longleftrightarrow> t = ''&'' \<and> not_next ''&'' r"
| "written False AndAnd t r \<longleftrightarrow> t = ''&&''"
| "written False Semi t r \<longleftrightarrow> t = '';'' \<and> not_next '';'' r"
| "written False SemiSemi t r \<longleftrightarrow> t = '';;''"
| "written False LParen t r \<longleftrightarrow> t = ''(''"
| "written False RParen t r \<longleftrightarrow> t = '')''"
| "written False LBrace t r \<longleftrightarrow> t = ''{''"
| "written False RBrace t r \<longleftrightarrow> t = ''}''"
| "written False Bang t r \<longleftrightarrow> t = ''!''"
| "written False Newline t r \<longleftrightarrow> t = [NL]"
| "written False (TkRedirect fd op) t r \<longleftrightarrow>
     (\<exists>ds. t = ds @ op_text op \<and> list_all is_ascii_digit ds \<and> fd = fd_number ds \<and> not_next (longer_op op) r)"
| "written False (HereDoc fd d quoted strip) t r \<longleftrightarrow>
     (\<exists>ds h u. t = h @ u \<and> fd = fd_number ds \<and> heredoc_head ds strip h (u @ r) \<and> delimiter_form quoted d u r)"
| "written _ _ t r \<longleftrightarrow> False"

text \<open>The texts at position \<open>p\<close> that begin a token but do not complete it, and the error for each.\<close>

inductive fails :: "bool \<Rightarrow> nat \<Rightarrow> string \<Rightarrow> parse_error \<Rightarrow> bool" where
  fails_dq: "fails True p [] (ParseError (span_eof p) ''unterminated double-quoted string'')"
| fails_word: "word_begins dq (w @ r) \<Longrightarrow> word_form unclosed r w \<Longrightarrow> unclosed_error (p + length w) r e \<Longrightarrow>
    fails dq p (w @ r) e"
| fails_quote: "SQUOTE \<notin> set q \<Longrightarrow>
    fails False p (SQUOTE # q) (ParseError (Span p (Suc (length q))) ''unterminated single-quoted string'')"
| fails_delimiter: "heredoc_head ds strip h r \<Longrightarrow> ends_run (\<lambda>c. c \<noteq> NL) r \<Longrightarrow>
    fails False p (h @ r) (ParseError (span_eof (p + length h)) ''expected heredoc delimiter after <<'')"
| fails_delimiter_quote: "heredoc_head ds strip h (q # d @ r) \<Longrightarrow> q \<in> {SQUOTE, DQUOTE} \<Longrightarrow> q \<notin> set d \<Longrightarrow>
    NL \<notin> set d \<Longrightarrow> ends_run (\<lambda>c. c \<noteq> NL) r \<Longrightarrow>
    fails False p (h @ q # d @ r)
      (ParseError (Span (p + length h) (Suc (length d))) ''unterminated heredoc delimiter quote'')"

text \<open>What may stand before a token: blanks and a comment up to the end of its line.\<close>

definition gap :: "bool \<Rightarrow> string \<Rightarrow> string \<Rightarrow> bool" where
  "gap dq g r \<longleftrightarrow> (if dq then g = []
     else \<exists>b x. g = b @ x \<and> list_all blank b
       \<and> (x = [] \<or> (\<exists>y. x = CHR ''#'' # y \<and> NL \<notin> set y \<and> ends_run (\<lambda>c. c \<noteq> NL) r)))"

text \<open>A source at position \<open>p\<close> as a sequence of tokens up to its end or to an error.\<close>

inductive lexemes :: "bool \<Rightarrow> nat \<Rightarrow> string \<Rightarrow> token list \<Rightarrow> (unit, parse_error) outcome \<Rightarrow> bool" where
  lexemes_end: "gap False g [] \<Longrightarrow> lexemes False p g [Token Eof (span_eof (p + length g))] (Ok ())"
| lexemes_token: "gap dq g (t @ s) \<Longrightarrow> written dq k t s \<Longrightarrow>
    lexemes (mode_after k dq) (p + length g + length t) s ts x \<Longrightarrow>
    lexemes dq p (g @ t @ s) (Token k (Span (p + length g) (length t)) # ts) x"
| lexemes_error: "gap dq g r \<Longrightarrow> fails dq (p + length g) r e \<Longrightarrow> lexemes dq p (g @ r) [] (Err e)"

section \<open>Scanning a token\<close>

definition token_result :: "bool \<Rightarrow> lexer \<Rightarrow> (token, parse_error) outcome \<times> lexer \<Rightarrow> bool" where
  "token_result dq l x \<longleftrightarrow>
     (\<exists>k t. fst x = Ok (Token k (Span (lx_pos l) (length t))) \<and> reads l t (snd x)
        \<and> written dq k t (remaining (snd x))) \<or>
     (\<exists>e. fst x = Err e \<and> fails dq (lx_pos l) (remaining l) e)"

lemma token_result_tok:
  "reads l t l' \<Longrightarrow> written dq k t (remaining l') \<Longrightarrow> token_result dq l (tok k (lx_pos l) l')"
  by (auto simp: token_result_def tok_def span_from_def reads_def)

lemma token_result_word:
  assumes "word_begins dq (remaining l)"
  shows "token_result dq l (lex_word (lx_pos l) l)"
proof (cases "lex_word (lx_pos l) l")
  case (Pair x l')
  from lex_word_result [OF Pair] show ?thesis
  proof (elim disjE exE conjE)
    fix w assume w: "x = Ok (Token (TkWord w) (Span (lx_pos l) (length w)))" "reads l w l'"
      "word_form word_ends (remaining l') w"
    then have "written dq (TkWord w) w (remaining l')" using assms by (simp add: reads_def)
    then show ?thesis using w Pair by (auto simp: token_result_def)
  next
    fix w r e assume "x = Err e" "remaining l = w @ r" "word_form unclosed r w"
      "unclosed_error (lx_pos l + length w) r e"
    then show ?thesis using assms Pair fails_word [of dq w r] by (simp add: token_result_def)
  qed
qed

lemma dq_over_high:
  "list_all high v \<Longrightarrow> dq_form r t (unescape_dq t) \<Longrightarrow> dq_form r (v @ t) (unescape_dq (v @ t))"
proof (induction v)
  case (Cons c v)
  then have "c \<notin> {DQUOTE, CHR ''$'', BTICK, BSLASH}" by auto
  then show ?case using Cons by (simp add: unescape_plain dq_plain)
qed simp

lemma reads_dq_text:
  "\<exists>t. reads l t (dq_text_loop l) \<and> dq_form (remaining (dq_text_loop l)) t (unescape_dq t)
     \<and> (\<forall>c. peek l = Some c \<longrightarrow> c \<notin> {DQUOTE, CHR ''$'', BTICK} \<longrightarrow> t \<noteq> [])"
proof (induction "left l" arbitrary: l rule: less_induct)
  case less
  have step: ?case
    if st: "reads l u l1" "left l1 < left l" "dq_text_loop l = dq_text_loop l1" "u \<noteq> []"
      "\<And>r t. dq_form r t (unescape_dq t) \<Longrightarrow> dq_form r (u @ t) (unescape_dq (u @ t))" for u l1
  proof -
    obtain t where "reads l1 t (dq_text_loop l1)" "dq_form (remaining (dq_text_loop l1)) t (unescape_dq t)"
      using less.hyps [OF st(2)] by blast
    then show ?thesis using reads_trans [OF st(1)] st(3-5) by (intro exI [of _ "u @ t"]) auto
  qed
  show ?case
  proof (cases "peek l")
    case None
    then have "dq_text_loop l = l" by (subst dq_text_loop.simps) simp
    moreover have "remaining l = []" using None by (simp add: peek_None)
    ultimately show ?thesis using None by (intro exI [of _ "[]"]) (simp add: ends_run_def dq_end)
  next
    case (Some c)
    consider "c \<in> {DQUOTE, CHR ''$'', BTICK}" | "c = BSLASH" "c \<notin> {DQUOTE, CHR ''$'', BTICK}"
      | "c \<notin> {DQUOTE, CHR ''$'', BTICK, BSLASH}" by blast
    then show ?thesis
    proof cases
      case 1
      then have "dq_text_loop l = l" using Some by (subst dq_text_loop.simps) simp
      then show ?thesis using 1 Some reads_first [OF Some]
        by (intro exI [of _ "[]"]) (auto simp: ends_run_def intro: dq_end)
    next
      case 2
      then have eq: "dq_text_loop l = dq_text_loop (skip_escaped l)" using Some by (subst dq_text_loop.simps) simp
      from reads_escaped [of l] Some 2
      consider "reads l [BSLASH] (skip_escaped l)" "remaining (skip_escaped l) = []"
        | c v where "reads l (BSLASH # c # v) (skip_escaped l)" "list_all high v" by blast
      then show ?thesis
      proof cases
        case 1
        then have "dq_text_loop (skip_escaped l) = skip_escaped l"
          by (subst dq_text_loop.simps) (simp add: peek_def)
        then show ?thesis using 1 eq by (intro exI [of _ "[BSLASH]"]) (simp add: dq_last)
      next
        case (2 d v)
        have "dq_form r ((BSLASH # d # v) @ t) (unescape_dq ((BSLASH # d # v) @ t))"
          if "dq_form r t (unescape_dq t)" for r t
          using dq_over_high [OF 2(2) that] dq_escape dq_join dq_keep by simp
        then show ?thesis by (intro step [OF 2(1) left_skip_escaped [OF Some] eq]) auto
      qed
    next
      case 3
      then have eq: "dq_text_loop l = dq_text_loop (advance l)" using Some by (subst dq_text_loop.simps) simp
      obtain v where v: "reads l (c # v) (advance l)" "list_all high v" using reads_advance [OF Some] by blast
      have "dq_form r ((c # v) @ t) (unescape_dq ((c # v) @ t))" if "dq_form r t (unescape_dq t)" for r t
        using dq_over_high [OF v(2) that] 3 dq_plain unescape_plain by simp
      then show ?thesis by (intro step [OF v(1) left_advance_peek [OF Some] eq]) auto
    qed
  qed
qed

lemma token_result_dq: "token_result True l (lex_dq_fragment l)"
proof (cases "peek l")
  case None
  then have "remaining l = []" by (simp add: peek_None)
  then show ?thesis using None by (simp add: token_result_def lex_dq_fragment_def fails_dq)
next
  case (Some c)
  obtain s where s: "remaining l = c # s" using reads_first [OF Some] by blast
  consider "c = DQUOTE" | "c = CHR ''$'' \<or> c = BTICK" "c \<noteq> DQUOTE" | "c \<notin> {DQUOTE, CHR ''$'', BTICK}" by blast
  then show ?thesis
  proof cases
    case 1
    then show ?thesis using Some reads_ascii [OF Some]
      by (simp add: lex_dq_fragment_def Let_def token_result_tok)
  next
    case 2
    then have "word_begins True (remaining l)" using s by (auto simp: word_begins_def)
    then show ?thesis using 2 Some token_result_word by (simp add: lex_dq_fragment_def Let_def)
  next
    case 3
    obtain t where t: "reads l t (dq_text_loop l)" "dq_form (remaining (dq_text_loop l)) t (unescape_dq t)" "t \<noteq> []"
      using reads_dq_text [of l] Some 3 by blast
    then show ?thesis using Some 3 reads_slice [OF t(1)]
      by (simp add: lex_dq_fragment_def Let_def token_result_tok)
  qed
qed

lemma token_result_single:
  assumes "peek l = Some SQUOTE"
  shows "token_result False l (lex_single_quote (lx_pos l) l)"
proof -
  define l2 where "l2 = advance_while (\<lambda>c. c \<noteq> SQUOTE) (advance l)"
  obtain q where q: "reads (advance l) q l2" "list_all (\<lambda>c. c \<noteq> SQUOTE) q"
      "ends_run (\<lambda>c. c \<noteq> SQUOTE) (remaining l2)"
    using reads_while [OF whole_not [OF ascii_chars(1)], of "advance l"] unfolding l2_def by blast
  have r: "reads l (SQUOTE # q) l2" using reads_trans [OF reads_ascii [OF assms] q(1)] by simp
  have nq: "SQUOTE \<notin> set q" using q(2) by (auto simp: list_all_iff)
  show ?thesis
  proof (cases "remaining l2")
    case Nil
    then have "remaining l = SQUOTE # q" "lx_pos l2 = lx_pos l + Suc (length q)" using r by (simp_all add: reads_def)
    then show ?thesis using Nil fails_quote [OF nq]
      by (simp add: token_result_def lex_single_quote_def l2_def [symmetric] Let_def peek_None span_from_def)
  next
    case (Cons c rest)
    then have p: "peek l2 = Some SQUOTE" using q(3) by (simp add: ends_run_def peek_def)
    have "reads l (SQUOTE # q @ [SQUOTE]) (advance l2)" using reads_trans [OF r reads_ascii [OF p]] by simp
    then show ?thesis using p nq reads_slice [OF q(1)]
      by (simp add: lex_single_quote_def l2_def [symmetric] Let_def token_result_tok)
  qed
qed

lemma token_result_double:
  assumes "peek l = Some c" "\<not> high c" "\<And>r. written False two [c, c] r"
    "\<And>r. not_next [c] r \<Longrightarrow> written False one [c] r"
  shows "token_result False l (lex_double c two one (lx_pos l) l)"
proof -
  have a: "reads l [c] (advance l)" by (rule reads_ascii [OF assms(1,2)])
  show ?thesis
  proof (cases "peek (advance l) = Some c")
    case True
    then show ?thesis using reads_trans [OF a reads_ascii [OF True assms(2)]] assms(3)
      by (simp add: lex_double_def eat_def token_result_tok)
  next
    case False
    then have "not_next [c] (remaining (advance l))"
      by (auto simp: ends_run_def peek_def split: list.splits)
    then show ?thesis using a False assms(4) by (simp add: lex_double_def eat_def token_result_tok)
  qed
qed

text \<open>The delimiter after the blanks.\<close>

lemma delimiter_quoted:
  assumes "peek l = Some q" "q \<in> {SQUOTE, DQUOTE}" "quoted_delimiter q (lx_pos l) (advance l) = (x, l')"
  shows "(\<exists>d u. x = Ok (d, True) \<and> reads l u l' \<and> delimiter_form True d u (remaining l'))
    \<or> (\<exists>d r. x = Err (ParseError (Span (lx_pos l) (Suc (length d))) ''unterminated heredoc delimiter quote'')
        \<and> remaining l = q # d @ r \<and> q \<notin> set d \<and> NL \<notin> set d \<and> ends_run (\<lambda>c. c \<noteq> NL) r)"
proof -
  define l1 where "l1 = advance_while (\<lambda>c. c \<noteq> NL \<and> c \<noteq> q) (advance l)"
  have nq: "\<not> high q" using assms(2) by auto
  then have wt: "whole_test (\<lambda>c. c \<noteq> NL \<and> c \<noteq> q)" by (auto simp: whole_test_def)
  obtain d where d: "reads (advance l) d l1" "list_all (\<lambda>c. c \<noteq> NL \<and> c \<noteq> q) d"
      "ends_run (\<lambda>c. c \<noteq> NL \<and> c \<noteq> q) (remaining l1)"
    using reads_while [OF wt, of "advance l"] unfolding l1_def by blast
  have r: "reads l (q # d) l1" using reads_trans [OF reads_ascii [OF assms(1) nq] d(1)] by simp
  have n: "q \<notin> set d" "NL \<notin> set d" using d(2) by (auto simp: list_all_iff)
  show ?thesis
  proof (cases "peek l1 = Some q")
    case True
    then have x: "x = Ok (d, True)" "l' = advance l1"
      using assms(3) reads_slice [OF d(1)] by (simp_all add: quoted_delimiter_def l1_def [symmetric] Let_def)
    have "reads l (q # d @ [q]) l'" using reads_trans [OF r reads_ascii [OF True nq]] x(2) by simp
    then show ?thesis using x n assms(2) by auto
  next
    case False
    then have "ends_run (\<lambda>c. c \<noteq> NL) (remaining l1)"
      using d(3) by (auto simp: ends_run_def peek_def split: list.splits)
    moreover have "x = Err (ParseError (Span (lx_pos l) (Suc (length d))) ''unterminated heredoc delimiter quote'')"
      using False assms(3) r
      by (auto simp: quoted_delimiter_def l1_def [symmetric] Let_def span_from_def reads_def)
    moreover have "remaining l = q # d @ remaining l1" using r by (simp add: reads_def)
    ultimately show ?thesis using n by blast
  qed
qed

lemma delimiter_result:
  assumes "ends_run blank (remaining l)" "lex_heredoc_delimiter l = (x, l')"
  shows "(\<exists>d q u. x = Ok (d, q) \<and> reads l u l' \<and> delimiter_form q d u (remaining l'))
    \<or> (\<exists>e. x = Err e \<and> (ends_run (\<lambda>c. c \<noteq> NL) (remaining l)
           \<and> e = ParseError (span_eof (lx_pos l)) ''expected heredoc delimiter after <<''
        \<or> (\<exists>q d r. q \<in> {SQUOTE, DQUOTE} \<and> remaining l = q # d @ r \<and> q \<notin> set d \<and> NL \<notin> set d
           \<and> ends_run (\<lambda>c. c \<noteq> NL) r
           \<and> e = ParseError (Span (lx_pos l) (Suc (length d))) ''unterminated heredoc delimiter quote'')))"
proof (cases "\<exists>q \<in> {SQUOTE, DQUOTE}. peek l = Some q")
  case True
  then obtain q where q: "q \<in> {SQUOTE, DQUOTE}" "peek l = Some q" by blast
  then have "quoted_delimiter q (lx_pos l) (advance l) = (x, l')"
    using assms(2) by (auto simp: lex_heredoc_delimiter_def Let_def char_consts)
  from delimiter_quoted [OF q(2,1) this] show ?thesis using q(1) by blast
next
  case False
  define P where "P = (\<lambda>c. c \<notin> {NL, CHR '' '', TAB})"
  define l1 where "l1 = advance_while P l"
  have wt: "whole_test P" by (auto simp: whole_test_def P_def)
  obtain d where d: "reads l d l1" "list_all P d" "ends_run P (remaining l1)"
    using reads_while [OF wt, of l] unfolding l1_def by blast
  have run: "(x, l') = (if lx_pos l1 = lx_pos l
      then (Err (ParseError (span_eof (lx_pos l1)) ''expected heredoc delimiter after <<''), l1)
      else (Ok (slice l1 (lx_pos l) (lx_pos l1), False), l1))"
    using assms(2) [symmetric] False by (simp add: lex_heredoc_delimiter_def Let_def l1_def P_def)
  show ?thesis
  proof (cases "d = []")
    case True
    then have "ends_run (\<lambda>c. c \<noteq> NL) (remaining l)"
      using assms(1) d by (auto simp: reads_def ends_run_def P_def blank_def split: list.splits)
    then show ?thesis using run d(1) True by (simp add: reads_def)
  next
    case ne: False
    then have "hd d \<notin> {SQUOTE, DQUOTE}"
      using False d(1) by (cases d) (auto simp: reads_def peek_def)
    then have "delimiter_form False d d (remaining l1)"
      using ne d(2,3) by (simp add: P_def list_all_iff)
    moreover have "x = Ok (d, False)" "l' = l1"
      using run d(1) ne reads_slice [OF d(1)] by (simp_all add: reads_def)
    ultimately show ?thesis using d(1) by blast
  qed
qed

lemma whole_digit: "whole_test is_ascii_digit"
  by (auto simp: whole_test_def high_def is_ascii_digit_def)

lemma whole_blank: "whole_test blank"
  by (auto simp: whole_test_def blank_def)

lemma skip_blanks: "skip_whitespace_inline l = advance_while blank l"
  by (simp add: skip_whitespace_inline_def blank_def [abs_def])

lemma fd_parse: "list_all is_ascii_digit ds \<Longrightarrow>
  (if ds \<noteq> [] then parse_unsigned 32 ds else None) = fd_number ds"
proof -
  assume ds: "list_all is_ascii_digit ds"
  have v: "digits_val a ds = Some (foldl (\<lambda>n c. 10 * n + (byte c - 48)) a ds)" for a
    using ds by (induction ds arbitrary: a) simp_all
  have "\<not> starts_with ds ''+''" using ds by (cases ds) (auto simp: is_ascii_digit_def)
  then show ?thesis
    by (simp add: fd_number_def parse_unsigned_def parse_digits_def v Let_def)
qed

lemma token_result_heredoc:
  assumes "reads l0 (ds @ ''<<'') l" "list_all is_ascii_digit ds"
  shows "token_result False l0
    (case eat CHR ''-'' l of (strip, l3) \<Rightarrow>
       andThen lex_heredoc_delimiter (\<lambda>(d, q). tok (HereDoc (fd_number ds) d q strip) (lx_pos l0))
         (skip_whitespace_inline l3))"
proof -
  obtain strip l3 where e: "eat CHR ''-'' l = (strip, l3)" by fastforce
  define l4 where "l4 = skip_whitespace_inline l3"
  define dash where "dash = (if strip then ''-'' else [])"
  have dash: "reads l dash l3" "strip \<or> ends_run (\<lambda>c. c = CHR ''-'') (remaining l3)"
    using e reads_ascii [of l "CHR ''-''"]
    by (auto simp: eat_def dash_def ends_run_def peek_def split: if_splits list.splits)
  obtain b where b: "reads l3 b l4" "list_all blank b" "ends_run blank (remaining l4)"
    using reads_while [OF whole_blank, of l3] unfolding l4_def skip_blanks by blast
  define h where "h = (ds @ ''<<'') @ dash @ b"
  have h: "reads l0 h l4"
    unfolding h_def by (rule reads_trans [OF assms(1) reads_trans [OF dash(1) b(1)]])
  have head: "heredoc_head ds strip h (remaining l4)"
    using assms(2) b dash(2) by (auto simp: heredoc_head_def h_def dash_def reads_def)
  obtain x l' where d: "lex_heredoc_delimiter l4 = (x, l')" by fastforce
  have eq: "(case eat CHR ''-'' l of (strip, l3) \<Rightarrow>
       andThen lex_heredoc_delimiter (\<lambda>(d, q). tok (HereDoc (fd_number ds) d q strip) (lx_pos l0))
         (skip_whitespace_inline l3))
     = (case x of Ok (d, q) \<Rightarrow> tok (HereDoc (fd_number ds) d q strip) (lx_pos l0) l' | Err y \<Rightarrow> (Err y, l')
        | Panic \<Rightarrow> (Panic, l') | OutOfFuel \<Rightarrow> (OutOfFuel, l') | SourceLimit \<Rightarrow> (SourceLimit, l'))"
    by (simp add: e l4_def [symmetric] andThen_def d split: outcome.split prod.split)
  from delimiter_result [OF b(3) d] show ?thesis
  proof (elim disjE exE conjE)
    fix d q u assume d: "x = Ok (d, q)" "reads l4 u l'" "delimiter_form q d u (remaining l')"
    have "written False (HereDoc (fd_number ds) d q strip) (h @ u) (remaining l')"
      using head d by (auto simp: reads_def)
    then show ?thesis unfolding eq using d reads_trans [OF h d(2)] by (simp add: token_result_tok)
  next
    fix e assume "x = Err e" "ends_run (\<lambda>c. c \<noteq> NL) (remaining l4)"
      "e = ParseError (span_eof (lx_pos l4)) ''expected heredoc delimiter after <<''"
    then show ?thesis unfolding eq using h fails_delimiter [OF head] by (simp add: token_result_def reads_def)
  next
    fix e q d r assume "x = Err e" "q \<in> {SQUOTE, DQUOTE}" "remaining l4 = q # d @ r" "q \<notin> set d" "NL \<notin> set d"
      "ends_run (\<lambda>c. c \<noteq> NL) r"
      "e = ParseError (Span (lx_pos l4) (Suc (length d))) ''unterminated heredoc delimiter quote''"
    then show ?thesis unfolding eq using h fails_delimiter_quote [of ds strip h q d r "lx_pos l0"] head
      by (simp add: token_result_def reads_def)
  qed
qed

lemma not_nextI: "(\<And>c. peek l = Some c \<Longrightarrow> c \<notin> set cs) \<Longrightarrow> not_next cs (remaining l)"
  by (auto simp: ends_run_def peek_def split: list.split)

lemma token_result_redirect:
  assumes "remaining l = ds @ c # s" "list_all is_ascii_digit ds" "c \<in> {CHR ''<'', CHR ''>''}"
  shows "token_result False l (lex_redirect (lx_pos l) None l)"
proof -
  have c: "\<not> high c" "\<not> is_ascii_digit c" using assms(3) by (auto simp: is_ascii_digit_def)
  define l1 where "l1 = advance_while is_ascii_digit l"
  have l1: "l1 = skip ds l"
    unfolding l1_def by (rule advance_while_upto [OF assms(1)]) (use assms(2) c in \<open>auto simp: list_all_iff\<close>)
  have rem1: "remaining l1 = c # s" unfolding l1 by (rule remaining_skip [OF assms(1)])
  have "ahead l l1" by (simp add: l1_def)
  then have r1: "reads l ds l1" using rem1 assms(1) by (simp add: reads_def l1 pos_skip)
  have p1: "peek l1 = Some c" by (rule peek_first [OF rem1])
  define l2 where "l2 = advance l1"
  have r2: "reads l (ds @ [c]) l2" unfolding l2_def by (rule reads_trans [OF r1 reads_ascii [OF p1 c(1)]])
  have r3: "reads l (ds @ [c, d]) (advance l2)" if "peek l2 = Some d" "\<not> high d" for d
    using reads_trans [OF r2 reads_ascii [OF that]] by simp
  have fd: "(if slice l1 (lx_pos l) (lx_pos l1) \<noteq> [] then parse_unsigned 32 (slice l1 (lx_pos l) (lx_pos l1)) else None)
      = fd_number ds"
    unfolding reads_slice [OF r1] by (rule fd_parse [OF assms(2)])
  have redirect: "token_result False l (tok (TkRedirect (fd_number ds) op) (lx_pos l) l')"
    if "reads l (ds @ op_text op) l'" "not_next (longer_op op) (remaining l')" for op l'
    by (rule token_result_tok [OF that(1)]) (use assms(2) that(2) in auto)
  note unf = lex_redirect_def Let_def l1_def [symmetric] fd
  show ?thesis
  proof (cases "c = CHR ''<''")
    case True
    consider "peek l2 = Some CHR ''<''" | "peek l2 = Some CHR ''>''" | "peek l2 = Some CHR ''&''"
      | "peek l2 \<noteq> Some CHR ''<''" "peek l2 \<noteq> Some CHR ''>''" "peek l2 \<noteq> Some CHR ''&''" by blast
    then show ?thesis
    proof cases
      case 1
      then show ?thesis using True token_result_heredoc [of l ds "advance l2"] r3 [OF 1] assms(2)
        unfolding unf by (simp add: p1 l2_def [symmetric])
    next
      case 4
      then have "not_next ''<>&'' (remaining l2)" by (intro not_nextI) auto
      then show ?thesis using 4 True redirect [of Less l2] r2
        unfolding unf by (simp add: p1 l2_def [symmetric])
    qed (use True redirect [of LessGreater "advance l2"] redirect [of LessAmp "advance l2"] r3
         in \<open>unfold unf, auto simp: p1 l2_def [symmetric] ends_run_def high_def split: list.split\<close>)
  next
    case False
    then have g: "c = CHR ''>''" using assms(3) by simp
    consider "peek l2 = Some CHR ''>''" | "peek l2 = Some CHR ''|''" | "peek l2 = Some CHR ''&''"
      | "peek l2 \<noteq> Some CHR ''>''" "peek l2 \<noteq> Some CHR ''|''" "peek l2 \<noteq> Some CHR ''&''" by blast
    then show ?thesis
    proof cases
      case 4
      then have "not_next ''>|&'' (remaining l2)" by (intro not_nextI) auto
      then show ?thesis using 4 g redirect [of Greater l2] r2
        unfolding unf by (simp add: p1 l2_def [symmetric])
    qed (use g redirect [of GreaterGreater "advance l2"] redirect [of GreaterPipe "advance l2"]
           redirect [of GreaterAmp "advance l2"] r3
         in \<open>unfold unf, auto simp: p1 l2_def [symmetric] ends_run_def high_def split: list.split\<close>)
  qed
qed

text \<open>
  A call of the lexer: over a gap to a token, an error or, outside of double quotes, the end of the
  source.
\<close>

definition call_result :: "bool \<Rightarrow> lexer \<Rightarrow> (token, parse_error) outcome \<times> lexer \<Rightarrow> bool" where
  "call_result dq l x \<longleftrightarrow> (\<exists>g l1. reads l g l1 \<and> gap dq g (remaining l1) \<and>
     (token_result dq l1 x \<or> \<not> dq \<and> remaining l1 = [] \<and> x = (Ok (Token Eof (span_eof (lx_pos l1))), l1)))"

lemma blank_gap: "list_all blank b \<Longrightarrow> gap False b r"
  by (auto simp: gap_def)

lemma gap_at_newline: "gap False g r \<Longrightarrow> ends_run (\<lambda>c. c \<noteq> NL) (g @ r) \<Longrightarrow> g = []"
  by (cases g) (auto simp: gap_def ends_run_def blank_def char_consts Cons_eq_append_conv)

lemma fd_redirect_text:
  assumes "is_fd_redirect l"
  obtains ds c s where "remaining l = ds @ c # s" "list_all is_ascii_digit ds" "c \<in> {CHR ''<'', CHR ''>''}"
proof -
  define rest where "rest = dropWhile is_ascii_digit (remaining l)"
  have "remaining l = takeWhile is_ascii_digit (remaining l) @ rest" by (simp add: rest_def)
  moreover have "rest = hd rest # tl rest" "hd rest \<in> {CHR ''<'', CHR ''>''}"
    using assms by (auto simp: is_fd_redirect_def Let_def rest_def)
  moreover have "list_all is_ascii_digit (takeWhile is_ascii_digit (remaining l))"
    by (auto simp: list_all_iff dest: set_takeWhileD)
  ultimately show ?thesis using that by metis
qed

lemma not_fd_redirect:
  assumes "remaining l = ds @ x # y" "ds \<noteq> []" "list_all is_ascii_digit ds" "x \<in> {CHR ''<'', CHR ''>''}"
  shows "is_fd_redirect l"
proof -
  have "\<not> is_ascii_digit x" using assms(4) by (auto simp: is_ascii_digit_def)
  moreover have "\<forall>c \<in> set ds. is_ascii_digit c" using assms(3) by (simp add: list_all_iff)
  ultimately have "takeWhile is_ascii_digit (remaining l) = ds" "dropWhile is_ascii_digit (remaining l) = x # y"
    using assms(1) by (simp_all add: takeWhile_append dropWhile_append)
  then show ?thesis unfolding is_fd_redirect_def Let_def using assms(2,4) by simp
qed

lemma token_result_next:
  assumes "remaining l = c # s" "\<not> blank c" "c \<noteq> CHR ''#''"
  shows "token_result False l (next_token False l)"
proof -
  have p: "peek l = Some c" by (rule peek_first [OF assms(1)])
  note eq = next_token_at [OF assms(1,2), unfolded Let_def]
  have one: "token_result False l (tok k (lx_pos l) (advance l))"
    if "\<not> high c" "\<And>r. written False k [c] r" for k
    by (rule token_result_tok [OF reads_ascii [OF p that(1)] that(2)])
  consider (symbol) "c \<in> {NL, CHR ''('', CHR '')'', CHR ''{'', CHR ''}'', CHR ''!'', DQUOTE}"
    | (double) "c \<in> {CHR '';'', CHR ''&'', CHR ''|''}" | (quote) "c = SQUOTE"
    | (redirect) "c \<in> {CHR ''<'', CHR ''>''}" | (fd) "is_ascii_digit c" "is_fd_redirect l"
    | (word) "\<not> separator c" "c \<noteq> CHR ''!''" "is_ascii_digit c \<longrightarrow> \<not> is_fd_redirect l"
    using assms(2) by (auto simp: separator_def blank_def)
  then show ?thesis
  proof cases
    case symbol
    then show ?thesis unfolding eq by (elim insertE) (simp_all add: one char_consts high_def)
  next
    case double
    have two: "token_result False l (lex_double c k2 k1 (lx_pos l) l)"
      if "\<not> high c" "\<And>r. written False k2 [c, c] r" "\<And>r. not_next [c] r \<Longrightarrow> written False k1 [c] r" for k1 k2
      by (rule token_result_double [OF p that])
    show ?thesis using double two [of SemiSemi Semi] two [of AndAnd Amp] two [of OrOr Pipe] unfolding eq
      by (cases "c = CHR '';''"; cases "c = CHR ''&''"; simp add: char_consts high_def)
  next
    case quote
    then show ?thesis using p token_result_single unfolding eq by (simp add: char_consts)
  next
    case redirect
    then have "token_result False l (lex_redirect (lx_pos l) None l)"
      using token_result_redirect [of l "[]" c s] assms(1) by simp
    then show ?thesis using redirect unfolding eq by (elim insertE) (simp_all add: char_consts)
  next
    case fd
    have "token_result False l (lex_redirect (lx_pos l) None l)"
      by (rule fd_redirect_text [OF fd(2)]) (rule token_result_redirect)
    moreover have "c \<notin> {NL, CHR '';'', CHR ''&'', CHR ''|'', CHR ''('', CHR '')'', CHR ''{'', CHR ''}'', CHR ''!'',
        DQUOTE, SQUOTE, CHR ''<'', CHR ''>''}"
      using fd(1) by (auto simp: is_ascii_digit_def char_consts)
    ultimately show ?thesis using fd assms(3) unfolding eq by simp
  next
    case word
    have "x \<notin> {CHR ''<'', CHR ''>''}" if s: "remaining l = ds @ x # y" "list_all is_ascii_digit ds" for ds x y
    proof
      assume x: "x \<in> {CHR ''<'', CHR ''>''}"
      show False
      proof (cases ds)
        case Nil
        then show False using s x assms(1) word(1) by (auto simp: separator_def)
      next
        case (Cons d ds')
        then have "is_fd_redirect l" using not_fd_redirect [OF s(1) _ s(2) x] by simp
        moreover have "is_ascii_digit c" using Cons s assms(1) by simp
        ultimately show False using word(3) by simp
      qed
    qed
    then have "word_begins False (remaining l)"
      unfolding word_begins_def using assms(1,3) word(1,2) by auto
    then have "token_result False l (lex_word (lx_pos l) l)" by (rule token_result_word)
    moreover have "next_token False l = lex_word (lx_pos l) l"
      using word assms(3) unfolding eq by (auto simp: separator_def)
    ultimately show ?thesis by simp
  qed
qed

lemma next_token_skips: "next_token False l0 = next_token False (skip_whitespace_inline l0)"
proof -
  have "skip_whitespace_inline (skip_whitespace_inline l0) = skip_whitespace_inline l0"
    unfolding skip_whitespace_inline_def
    by (subst advance_while.simps) (auto split: option.split dest: advance_while_stop)
  then show ?thesis by (subst (1 2) next_token.simps) simp
qed

lemma call_result_next: "call_result dq l0 (next_token dq l0)"
proof (cases dq)
  case True
  then show ?thesis using token_result_dq [of l0]
    by (auto simp: call_result_def gap_def next_token.simps intro!: exI [of _ "[]"] exI [of _ l0])
next
  case False
  have "call_result False l0 (next_token False l0)"
  proof (induction "left l0" arbitrary: l0 rule: less_induct)
    case less
    define l where "l = skip_whitespace_inline l0"
    obtain b where b: "reads l0 b l" "list_all blank b" "ends_run blank (remaining l)"
      using reads_while [OF whole_blank, of l0] unfolding l_def skip_blanks by blast
    show ?case
    proof (cases "remaining l")
      case Nil
      then have "next_token False l0 = (Ok (Token Eof (span_eof (lx_pos l))), l)"
        by (subst next_token.simps) (simp add: l_def Let_def peek_def)
      then show ?thesis unfolding call_result_def using b Nil blank_gap by blast
    next
      case (Cons c s)
      then have nb: "\<not> blank c" using b(3) by (simp add: ends_run_def)
      show ?thesis
      proof (cases "c = CHR ''#''")
        case hash: True
        define l2 where "l2 = skip_comment l"
        have eq: "next_token False l0 = next_token False l2"
          using next_token_at [OF Cons nb] hash by (subst next_token_skips) (simp add: l_def [symmetric] l2_def Let_def)
        obtain y where y: "reads l y l2" "list_all (\<lambda>c. c \<noteq> NL) y" "ends_run (\<lambda>c. c \<noteq> NL) (remaining l2)"
          using reads_while [OF whole_not [OF ascii_chars(5)], of l] unfolding l2_def skip_comment_def by blast
        then obtain y' where y': "y = CHR ''#'' # y'"
        proof (cases y)
          case Nil
          then have "remaining l2 = CHR ''#'' # s" using y(1) Cons hash by (simp add: reads_def)
          then show thesis using y(3) by (simp add: ends_run_def char_consts)
        next
          case (Cons d v)
          then show thesis using y(1) \<open>remaining l = c # s\<close> hash that by (simp add: reads_def)
        qed
        have "reads l0 (b @ y) l2" by (rule reads_trans [OF b(1) y(1)])
        moreover from this have "left l2 < left l0" using y' by (simp add: reads_def left_def)
        then have "call_result False l2 (next_token False l2)" using less by blast
        then obtain g l1 where g: "reads l2 g l1" "gap False g (remaining l1)"
            "token_result False l1 (next_token False l2)
             \<or> remaining l1 = [] \<and> next_token False l2 = (Ok (Token Eof (span_eof (lx_pos l1))), l1)"
          unfolding call_result_def by blast
        have "g = []" using gap_at_newline [OF g(2)] g(1) y(3) by (simp add: reads_def)
        then have "remaining l1 = remaining l2" using g(1) by (simp add: reads_def)
        then have "gap False (b @ y) (remaining l1)"
          unfolding gap_def using b(2) y y' by (simp, intro exI [of _ b] exI [of _ y]) (auto simp: list_all_iff)
        ultimately show ?thesis
          unfolding call_result_def eq using g(3) reads_trans [OF _ g(1), of l0 "b @ y"] \<open>g = []\<close> by auto
      next
        case False
        then have "token_result False l (next_token False l0)"
          using token_result_next [OF Cons nb] next_token_skips [of l0] by (simp add: l_def)
        then show ?thesis unfolding call_result_def using b blank_gap by blast
      qed
    qed
  qed
  then show ?thesis using False by simp
qed

section \<open>The whole source\<close>

text \<open>
  Reading token by token, in or out of double quotes as the tokens say, up to the end or an error.
\<close>

fun lex_tokens :: "nat \<Rightarrow> bool \<Rightarrow> lexer \<Rightarrow> token list \<times> (unit, parse_error) outcome" where
  "lex_tokens 0 dq l = ([], OutOfFuel)"
| "lex_tokens (Suc k) dq l =
     (case next_token dq l of
        (Ok t, l') \<Rightarrow>
          if tk_kind t = Eof then ([t], Ok ())
          else (case lex_tokens k (mode_after (tk_kind t) dq) l' of (ts, x) \<Rightarrow> (t # ts, x))
      | (Err e, _) \<Rightarrow> ([], Err e)
      | _ \<Rightarrow> ([], Panic))"

text \<open>A span between two positions that moves by whole characters come to.\<close>

definition between_moves :: "lexer \<Rightarrow> span \<Rightarrow> bool" where
  "between_moves l0 sp \<longleftrightarrow> (\<exists>l1 l2. ahead l0 l1 \<and> ahead l1 l2 \<and> sp = Span (lx_pos l1) (lx_pos l2 - lx_pos l1))"

lemma lex_tokens_lexemes:
  "left l < k \<Longrightarrow> ahead l0 l \<Longrightarrow> lex_tokens k dq l = (ts, x) \<Longrightarrow>
     lexemes dq (lx_pos l) (remaining l) ts x \<and> (\<forall>t \<in> set ts. between_moves l0 (tk_span t))"
proof (induction k arbitrary: dq l ts x)
  case (Suc k)
  obtain r l' where n: "next_token dq l = (r, l')" by fastforce
  obtain g l1 where g: "reads l g l1" "gap dq g (remaining l1)"
    and c: "token_result dq l1 (r, l') \<or> \<not> dq \<and> remaining l1 = [] \<and> (r, l') = (Ok (Token Eof (span_eof (lx_pos l1))), l1)"
    using call_result_next [of dq l] n unfolding call_result_def by auto
  have a1: "ahead l0 l1" using g(1) Suc.prems(2) ahead_trans by (auto simp: reads_def)
  from c consider
      (token) kd t where "r = Ok (Token kd (Span (lx_pos l1) (length t)))" "reads l1 t l'" "written dq kd t (remaining l')"
    | (error) e where "r = Err e" "fails dq (lx_pos l1) (remaining l1) e"
    | (eof) "\<not> dq" "remaining l1 = []" "r = Ok (Token Eof (span_eof (lx_pos l1)))"
    by (auto simp: token_result_def)
  then show ?case
  proof cases
    case token
    have ne: "kd \<noteq> Eof" using token(3) by (cases dq) auto
    have "left l' < left l" using lexer.nxt_takes [of dq l] n token(1) ne by simp
    moreover have a2: "ahead l0 l'" using a1 token(2) ahead_trans by (auto simp: reads_def)
    moreover obtain us y where us: "lex_tokens k (mode_after kd dq) l' = (us, y)" by fastforce
    ultimately have IH: "lexemes (mode_after kd dq) (lx_pos l') (remaining l') us y"
        "\<forall>t \<in> set us. between_moves l0 (tk_span t)"
      using Suc.IH [of l' "mode_after kd dq" us y] Suc.prems(1) by auto
    have ts: "ts = Token kd (Span (lx_pos l1) (length t)) # us" "x = y"
      using Suc.prems(3) n token(1) ne us by auto
    have "lexemes dq (lx_pos l) (g @ t @ remaining l') ts x"
      unfolding ts using lexemes_token [of dq g t "remaining l'" kd "lx_pos l" us y] g token IH(1)
      by (simp add: reads_def add.assoc)
    moreover have "remaining l = g @ t @ remaining l'" using g(1) token(2) by (simp add: reads_def)
    moreover have "between_moves l0 (Span (lx_pos l1) (length t))"
      unfolding between_moves_def using a1 token(2) by (intro exI [of _ l1] exI [of _ l']) (simp add: reads_def)
    ultimately show ?thesis using IH(2) ts(1) by simp
  next
    case error
    then have ts: "ts = []" "x = Err e" using Suc.prems(3) n by auto
    show ?thesis unfolding ts using lexemes_error [OF g(2), of "lx_pos l" e] error(2) g(1) by (simp add: reads_def)
  next
    case eof
    then have ts: "ts = [Token Eof (span_eof (lx_pos l1))]" "x = Ok ()" using Suc.prems(3) n by auto
    have "lexemes False (lx_pos l) g ts x"
      unfolding ts using lexemes_end [of g "lx_pos l"] g eof by (simp add: reads_def)
    moreover have "between_moves l0 (span_eof (lx_pos l1))"
      unfolding between_moves_def span_eof_def using a1 by (intro exI [of _ l1]) simp
    ultimately show ?thesis using eof(1,2) g(1) ts(1) by (simp add: reads_def)
  qed
qed simp

text \<open>A move is over one character.\<close>

lemma advance_char:
  assumes "valid_utf8 (remaining l)"
  shows "valid_utf8 (remaining (advance l))"
    and "utf8_chars (remaining (advance l)) = tl (utf8_chars (remaining l))"
    and "lx_pos (advance l) = lx_pos l + length (concat (take 1 (utf8_chars (remaining l))))"
proof -
  show "valid_utf8 (remaining (advance l))"
    "utf8_chars (remaining (advance l)) = tl (utf8_chars (remaining l))"
    "lx_pos (advance l) = lx_pos l + length (concat (take 1 (utf8_chars (remaining l))))"
  proof (atomize (full), cases "remaining l = []")
    case True
    then show "valid_utf8 (remaining (advance l)) \<and> utf8_chars (remaining (advance l)) = tl (utf8_chars (remaining l))
        \<and> lx_pos (advance l) = lx_pos l + length (concat (take 1 (utf8_chars (remaining l))))"
      by (simp add: advance_def utf8_chars_def utf8_chunks.simps)
  next
    case False
    obtain ok n where st: "utf8_step (remaining l) = (ok, n)" by fastforce
    have ch: "utf8_chunks (remaining l) = (ok, take n (remaining l)) # utf8_chunks (drop n (remaining l))"
      using False st by (subst utf8_chunks.simps) simp
    then have ok using assms by (simp add: valid_utf8_def)
    then have n: "n \<le> length (remaining l)" using utf8_step_length st False by simp
    have "remaining (advance l) = drop n (remaining l)" "lx_pos (advance l) = lx_pos l + n"
      using False st by (simp_all add: advance_def remaining_def set_pos_def add.commute)
    then show "valid_utf8 (remaining (advance l)) \<and> utf8_chars (remaining (advance l)) = tl (utf8_chars (remaining l))
        \<and> lx_pos (advance l) = lx_pos l + length (concat (take 1 (utf8_chars (remaining l))))"
      using assms ch n by (simp add: valid_utf8_def utf8_chars_def)
  qed
qed

lemma advance_chars:
  assumes "valid_utf8 (remaining l)"
  shows "valid_utf8 (remaining ((advance ^^ n) l))
    \<and> utf8_chars (remaining ((advance ^^ n) l)) = drop n (utf8_chars (remaining l))
    \<and> lx_pos ((advance ^^ n) l) = lx_pos l + length (concat (take n (utf8_chars (remaining l))))"
proof (induction n)
  case (Suc n)
  then show ?case
    using advance_char [of "(advance ^^ n) l"]
    by (simp add: take_Suc_conv_app_nth drop_Suc tl_drop take_add [of n 1, simplified])
qed (use assms in simp)

text \<open>A span of whole characters of the source.\<close>

definition whole_chars :: "string \<Rightarrow> span \<Rightarrow> bool" where
  "whole_chars src sp \<longleftrightarrow>
     (\<exists>xs ys zs. utf8_chars src = xs @ ys @ zs \<and> sp = Span (length (concat xs)) (length (concat ys)))"

lemma moves_whole:
  assumes "valid_utf8 src" "between_moves (lexer_new src) sp"
  shows "whole_chars src sp"
proof -
  obtain n m where "sp = Span (lx_pos ((advance ^^ n) (lexer_new src)))
      (lx_pos ((advance ^^ (m + n)) (lexer_new src)) - lx_pos ((advance ^^ n) (lexer_new src)))"
    using assms(2) by (auto simp: between_moves_def ahead_def funpow_add)
  moreover have "lx_pos ((advance ^^ n) (lexer_new src)) = length (concat (take n (utf8_chars src)))" for n
    using advance_chars [of "lexer_new src" n] assms(1) by (simp add: remaining_def lexer_new_def)
  moreover have "take (m + n) (utf8_chars src) = take n (utf8_chars src) @ take m (drop n (utf8_chars src))"
    by (subst add.commute) (rule take_add)
  ultimately show ?thesis
    unfolding whole_chars_def
    by (intro exI [of _ "take n (utf8_chars src)"] exI [of _ "take m (drop n (utf8_chars src))"]
        exI [of _ "drop m (drop n (utf8_chars src))"]) (simp del: drop_drop)
qed

section \<open>Properties\<close>

text \<open>
  C4: lexing a source of valid UTF-8 from its start takes at most one call more than there are bytes
  and cuts the source into tokens as the grammar has them, up to the end of the source or to a text
  that begins a token and never completes it, with the error for that text. Nothing is lost: between
  two tokens there are only blanks and comments. Every span is the place of the token's text, and
  consists of whole characters: after \<open>n\<close> moves the lexer is behind the first \<open>n\<close> characters, so no
  slice of the source is taken off a character boundary, where Rust panics.
\<close>

theorem lexer_cuts_source:
  assumes "valid_utf8 src" "lex_tokens (Suc (length src)) False (lexer_new src) = (ts, x)"
  shows "lexemes False 0 src ts x \<and> list_all (\<lambda>t. whole_chars src (tk_span t)) ts
    \<and> (\<forall>n. lx_pos ((advance ^^ n) (lexer_new src)) = length (concat (take n (utf8_chars src))))"
proof -
  have "left (lexer_new src) < Suc (length src)" by (simp add: left_def remaining_def lexer_new_def)
  from lex_tokens_lexemes [OF this ahead_refl assms(2)]
  have "lexemes False 0 src ts x" "list_all (\<lambda>t. whole_chars src (tk_span t)) ts"
    using moves_whole [OF assms(1)] by (simp_all add: remaining_def lexer_new_def list_all_iff)
  moreover have "lx_pos ((advance ^^ n) (lexer_new src)) = length (concat (take n (utf8_chars src)))" for n
    using advance_chars [of "lexer_new src" n] assms(1) by (simp add: remaining_def lexer_new_def)
  ultimately show ?thesis by blast
qed

definition sample_source :: string where
  "sample_source = ''cat '' @ [DQUOTE] @ ''a${x}'' @ [CHR 0xC3, CHR 0xA9, DQUOTE] @ '' 2>b # '' @ [CHR 0xC3, CHR 0xA9]"

theorem lexer_cuts_source_witness:
  "let ts = [Token (TkWord ''cat'') (Span 0 3), Token DoubleQuoteOpen (Span 4 1), Token (DQText ''a'') (Span 5 1),
       Token (TkWord (''${x}'' @ [CHR 0xC3, CHR 0xA9])) (Span 6 6), Token DoubleQuoteClose (Span 12 1),
       Token (TkRedirect (Some 2) Greater) (Span 14 2), Token (TkWord ''b'') (Span 16 1), Token Eof (Span 22 0)]
   in lexemes False 0 sample_source ts (Ok ()) \<and> list_all (\<lambda>t. whole_chars sample_source (tk_span t)) ts"
proof -
  let ?ts = "[Token (TkWord ''cat'') (Span 0 3), Token DoubleQuoteOpen (Span 4 1), Token (DQText ''a'') (Span 5 1),
       Token (TkWord (''${x}'' @ [CHR 0xC3, CHR 0xA9])) (Span 6 6), Token DoubleQuoteClose (Span 12 1),
       Token (TkRedirect (Some 2) Greater) (Span 14 2), Token (TkWord ''b'') (Span 16 1), Token Eof (Span 22 0)]"
  have "valid_utf8 sample_source" by code_simp
  moreover have "lex_tokens (Suc (length sample_source)) False (lexer_new sample_source) = (?ts, Ok ())" by code_simp
  ultimately show ?thesis unfolding Let_def using lexer_cuts_source by blast
qed

end
