(* ===== verification/ParserTotal.thy ===== *)
theory ParserTotal
  imports LexerTotal
begin

text \<open>
  The parser terminates: for every source and every leftover queue, the fuel that \<open>parse\<close> computes
  is enough. The word level needs its nested parses to be of shorter strings; the grammar is shown
  to take input in every loop, with the lexer's contract.
\<close>

section \<open>Computations that settle and keep an invariant\<close>

definition total_on :: "('s \<Rightarrow> bool) \<Rightarrow> ('s, 'a, 'e) act \<Rightarrow> bool" where
  "total_on P m \<longleftrightarrow> (\<forall>s. P s \<longrightarrow> settled (fst (m s)) \<and> P (snd (m s)))"

named_theorems total_intros \<open>introduction rules for total_on\<close>

lemma total_basic [total_intros]:
  "total_on P (ret a)" "total_on P (fail e)" "total_on P panic" "total_on P (gets f)"
  by (simp_all add: total_on_def)

lemma total_lift [total_intros]: "settled r \<Longrightarrow> total_on P (lift_outcome r)"
  by (simp add: total_on_def)

lemma total_Pair [total_intros]: "settled r \<Longrightarrow> total_on P (Pair r)"
  by (simp add: total_on_def)

lemma total_andThen [total_intros]:
  assumes "total_on P m" "\<And>a. total_on P (f a)"
  shows "total_on P (andThen m f)"
  unfolding total_on_def
proof (intro allI impI)
  fix s assume "P s"
  then have m: "settled (fst (m s))" "P (snd (m s))" using assms(1) by (auto simp: total_on_def)
  then show "settled (fst (andThen m f s)) \<and> P (snd (andThen m f s))"
    using assms(2) by (cases "m s"; cases "fst (m s)") (auto simp: andThen_def total_on_def)
qed

lemma total_onD: "total_on P m \<Longrightarrow> P s \<Longrightarrow> settled (fst (m s)) \<and> P (snd (m s))"
  by (simp add: total_on_def)

section \<open>The word level\<close>

text \<open>A queue whose bodies have at most \<open>B\<close> bytes; while it is borrowed it is empty.\<close>

definition tgood :: "nat \<Rightarrow> bool \<Rightarrow> tls \<Rightarrow> bool" where
  "tgood B b t \<longleftrightarrow> hd_borrowed t = b \<and> (b \<longrightarrow> hd_queue t = []) \<and> (\<forall>(q, body) \<in> set (hd_queue t). length body \<le> B)"

definition cb_good :: "nat \<Rightarrow> bool \<Rightarrow> nat \<Rightarrow> parse_cb \<Rightarrow> bool" where
  "cb_good B b M cb \<longleftrightarrow> (\<forall>s. length s < M \<longrightarrow> total_on (tgood B b) (cb s))"

lemma cb_goodD: "cb_good B b M cb \<Longrightarrow> length s < M \<Longrightarrow> total_on (tgood B b) (cb s)"
  by (simp add: cb_good_def)

lemma length_concat_dropWhile: "length (concat (dropWhile P xs)) \<le> length (concat xs)"
  by (induction xs) auto

lemma length_concat_rev: "length (concat (rev xs)) = length (concat xs)"
  by (induction xs) auto

lemma length_trim: "length (trim s) \<le> length s"
proof -
  have "length (trim s) \<le> length (concat (rev (dropWhile is_whitespace (utf8_chars s))))"
    unfolding trim_def length_concat_rev using length_concat_dropWhile length_concat_rev by metis
  also have "\<dots> \<le> length (concat (utf8_chars s))"
    unfolding length_concat_rev by (rule length_concat_dropWhile)
  finally show ?thesis by simp
qed

lemma extract_settled: "settled (extract_loop s a b base cs d i)"
proof (induction s a b base cs d i rule: extract_loop.induct)
  case (1 s a b base cs d i)
  then show ?case by (subst extract_loop.simps) auto
qed

lemma extract_length: "extract_loop s a b base cs d i = Ok (inner, n) \<Longrightarrow> length inner \<le> length s"
proof (induction s a b base cs d i rule: extract_loop.induct)
  case (1 s a b base cs d i)
  note run = 1(4) [unfolded extract_loop.simps [of s a b base cs d i]]
  show ?case
    using run 1(1-3) by (auto split: if_splits)
qed

lemma total_backtick:
  assumes "cb_good B b M cb" "length s < M"
  shows "total_on (tgood B b) (parse_backtick cb s base)"
proof -
  have "total_on (tgood B b) (cb (trim (take n s)))" for n
    using assms(2) length_trim [of "take n s"] by (intro cb_goodD [OF assms(1)]) simp
  then show ?thesis
    by (auto simp: parse_backtick_def split: option.split intro!: total_intros)
qed

lemma total_andThen_lift:
  assumes "settled r" "\<And>a. r = Ok a \<Longrightarrow> total_on P (f a)"
  shows "total_on P (andThen (lift_outcome r) f)"
  using assms by (cases r) (auto simp: total_on_def andThen_def)

lemma total_brace:
  assumes w: "\<And>rest base dq i lit parts. length rest < length s \<Longrightarrow>
      total_on P (word_parts_loop cb base dq i rest lit parts)"
  shows "total_on P (parse_brace_var cb s base)"
proof (cases "find_pos (\<lambda>c. c = CHR ''}'') s")
  case None
  then show ?thesis by (subst parse_brace_var.simps) (simp add: total_intros)
next
  case (Some close)
  then have "close < length s" using find_pos_Some by blast
  then have "length (drop k (take close s)) < length s" for k by simp
  then show ?thesis
    using Some w
    by (subst parse_brace_var.simps)
       (auto simp: Let_def simp del: length_drop split: option.split intro!: total_intros)
qed

lemma total_dollar:
  assumes cb: "cb_good B b M cb" and s: "length s \<le> M"
    and v: "\<And>v base. length v < length s \<Longrightarrow> total_on (tgood B b) (parse_brace_var cb v base)"
  shows "total_on (tgood B b) (parse_dollar cb s base)"
proof (cases "tl s = []")
  case True
  then show ?thesis by (subst parse_dollar.simps) (simp add: total_intros)
next
  case False
  have c: "total_on (tgood B b) (cb (trim inner))"
    if "extract_balanced (drop 2 s) x y n cs = Ok (inner, k)" for x y n cs inner k
  proof -
    have "length inner \<le> length s - 2" using extract_length that by (fastforce simp: extract_balanced_def)
    moreover have "0 < length s" using False by (cases s) auto
    ultimately show ?thesis
      using s length_trim [of inner] by (intro cb_goodD [OF cb]) linarith
  qed
  have "length (tl (tl s)) < length s" using False by (cases s) auto
  then have br: "total_on (tgood B b) (parse_brace_var cb (tl (tl s)) n)" for n by (rule v)
  show ?thesis
    using False br
    by (subst parse_dollar.simps)
       (auto simp: Let_def extract_balanced_def extract_settled split: option.split prod.split
          intro!: total_intros total_andThen_lift c [unfolded extract_balanced_def])
qed

lemma total_words_n:
  assumes cb: "cb_good B b M cb"
  shows "n \<le> M \<Longrightarrow> length rest \<le> n \<Longrightarrow> total_on (tgood B b) (word_parts_loop cb base dq i rest lit parts)"
proof (induction n arbitrary: rest base dq i lit parts)
  case 0
  then show ?case by (subst word_parts_loop.simps) (simp add: total_intros)
next
  case (Suc n)
  show ?case
  proof (cases "rest = []")
    case True
    then show ?thesis by (subst word_parts_loop.simps) (simp add: total_intros)
  next
    case False
    have len: "length (drop (char_len rest) rest) \<le> n" "length (drop m (tl rest)) \<le> n"
      "length (advance_chars k (tl rest)) \<le> n" "length (tl rest) < M" for m k
      using Suc.prems length_advance_tl [OF False, of k] False char_len_pos [of rest] by auto
    have w: "total_on (tgood B b) (word_parts_loop cb base dq i u lit parts)"
      if "length u \<le> n" for u base dq i lit parts
      using that Suc.prems by (intro Suc.IH) auto
    have d: "total_on (tgood B b) (parse_dollar cb rest x)" for x
    proof (rule total_dollar [OF cb])
      show "total_on (tgood B b) (parse_brace_var cb v y)" if "length v < length rest" for v y
        by (rule total_brace) (use that Suc.prems in \<open>auto intro!: w\<close>)
    qed (use Suc.prems in simp)
    note bt = total_backtick [OF cb len(4)]
    show ?thesis
      using False d bt w len
      by (subst word_parts_loop.simps)
         (auto simp: Let_def simp del: length_drop length_tl split: prod.split intro!: total_intros)
  qed
qed

lemma total_dollar_M:
  assumes cb: "cb_good B b M cb" and "length s \<le> M"
  shows "total_on (tgood B b) (parse_dollar cb s base)"
proof (rule total_dollar [OF assms])
  show "total_on (tgood B b) (parse_brace_var cb v y)" if "length v < length s" for v y
    by (rule total_brace) (use that assms(2) in \<open>auto intro!: total_words_n [OF cb order_refl]\<close>)
qed

lemma total_dq_parts:
  assumes cb: "cb_good B b M cb"
  shows "length rest \<le> M \<Longrightarrow> total_on (tgood B b) (dq_parts_loop cb base i rest lit parts)"
proof (induction "length rest" arbitrary: rest i lit parts rule: less_induct)
  case less
  show ?case
  proof (cases "rest = []")
    case True
    then show ?thesis by (subst dq_parts_loop.simps) (simp add: total_intros)
  next
    case False
    have len: "length (drop (char_len rest) rest) < length rest"
      "length (advance_chars k (tl rest)) < length rest" "length (tl rest) < M" for k
      using less.prems length_advance_tl [OF False, of k] False char_len_pos [of rest] by auto
    have w: "total_on (tgood B b) (dq_parts_loop cb base i u lit parts)"
      if "length u < length rest" for u i lit parts
      using that less.prems by (intro less.hyps) auto
    note bt = total_backtick [OF cb len(3)] and d = total_dollar_M [OF cb less.prems]
    show ?thesis
      using False d bt w len
      by (subst dq_parts_loop.simps)
         (auto simp: Let_def simp del: length_drop length_tl split: prod.split intro!: total_intros)
  qed
qed

lemma total_word_str:
  "cb_good B b M cb \<Longrightarrow> length s \<le> M \<Longrightarrow> total_on (tgood B b) (parse_word_str_inner cb s base)"
  unfolding parse_word_str_inner_def parse_word_parts_def
  by (intro total_intros) (rule total_words_n [OF _ order_refl])

lemma total_dq_word:
  "cb_good B b M cb \<Longrightarrow> length s \<le> M \<Longrightarrow> total_on (tgood B b) (parse_dq_word_parts cb s base)"
  unfolding parse_dq_word_parts_def by (rule total_dq_parts)

section \<open>Filling heredocs\<close>

definition fgood :: "nat \<Rightarrow> (bool \<times> string) list \<times> tls \<Rightarrow> bool" where
  "fgood B s \<longleftrightarrow> (\<forall>(q, body) \<in> set (fst s). length body \<le> B) \<and> tgood B True (snd s)"

lemma total_body_parts:
  assumes cb: "cb_good B True B cb" and "length body \<le> B"
  shows "total_on (fgood B) (body_parts cb body)"
  unfolding total_on_def
proof (intro allI impI)
  fix s assume s: "fgood B s"
  obtain q t where qt: "s = (q, t)" by fastforce
  then have "settled (fst (parse_dq_word_parts cb body 0 t)) \<and> tgood B True (snd (parse_dq_word_parts cb body 0 t))"
    using total_onD [OF total_dq_word [OF cb assms(2), of 0], of t] s by (simp add: fgood_def)
  then show "settled (fst (body_parts cb body s)) \<and> fgood B (snd (body_parts cb body s))"
    using s qt by (cases "parse_dq_word_parts cb body 0 t"; cases "fst (parse_dq_word_parts cb body 0 t)")
      (auto simp: body_parts_def fgood_def)
qed

lemma total_fill_redirect:
  assumes cb: "cb_good B True B cb"
  shows "total_on (fgood B) (fill_redirect cb r)"
proof (cases "rd_target r")
  case (THeredoc h)
  show ?thesis
    unfolding total_on_def
  proof (intro allI impI)
    fix s assume s: "fgood B s"
    obtain q t where qt: "s = (q, t)" by fastforce
    show "settled (fst (fill_redirect cb r s)) \<and> fgood B (snd (fill_redirect cb r s))"
    proof (cases q)
      case Nil
      then show ?thesis using s qt THeredoc by (simp add: fill_redirect_def)
    next
      case (Cons x q1)
      obtain quoted body where x: "x = (quoted, body)" by fastforce
      have g: "fgood B (q1, t)" "length body \<le> B" using s qt Cons x by (auto simp: fgood_def)
      have "total_on (fgood B) (andThen (body_parts cb body) (\<lambda>parts. ret (Redirect (rd_fd r) (rd_kind r)
          (THeredoc (Heredoc (hd_delimiter h) (hd_quoted h) (hd_strip_tabs h) (HBParts parts))))))"
        by (intro total_intros total_body_parts [OF cb g(2)])
      then show ?thesis
        using total_onD g(1) qt Cons x THeredoc by (fastforce simp: fill_redirect_def)
    qed
  qed
qed (simp_all add: fill_redirect_def total_intros)

lemma total_fill_simple: "cb_good B True B cb \<Longrightarrow> total_on (fgood B) (fill_simple cb sc)"
proof -
  assume cb: "cb_good B True B cb"
  have "total_on (fgood B) (fill_redirects cb rs)" for rs
    by (induction rs) (auto intro!: total_intros total_fill_redirect [OF cb])
  then show ?thesis by (auto simp: fill_simple_def intro!: total_intros)
qed

lemma total_fill_stages: "cb_good B True B cb \<Longrightarrow> total_on (fgood B) (fill_stages cb scs)"
  by (induction scs) (auto intro!: total_intros total_fill_simple)

lemma total_fill:
  assumes "cb_good B True B cb"
  shows "total_on (fgood B) (fill_cmd cb c)" "total_on (fgood B) (fill_script cb cs)"
proof -
  have "cb_good B True B cb \<Longrightarrow> total_on (fgood B) (fill_cmd cb c)"
    "cb_good B True B cb \<Longrightarrow> total_on (fgood B) (fill_script cb cs)"
    by (induction cb c and cb cs rule: fill_cmd_fill_script.induct)
       (auto intro!: total_intros total_fill_simple total_fill_stages)
  then show "total_on (fgood B) (fill_cmd cb c)" "total_on (fgood B) (fill_script cb cs)"
    using assms by auto
qed

lemma total_fill_bodies:
  assumes "cb_good B True B cb"
  shows "total_on (tgood B b) (fill_heredoc_bodies cb script)"
  unfolding total_on_def
proof (intro allI impI)
  fix t assume t: "tgood B b t"
  show "settled (fst (fill_heredoc_bodies cb script t)) \<and> tgood B b (snd (fill_heredoc_bodies cb script t))"
  proof (cases b)
    case True
    then show ?thesis using t by (simp add: fill_heredoc_bodies_def tgood_def)
  next
    case False
    obtain r q t1 where f: "fill_script cb script (hd_queue t, t\<lparr>hd_queue := [], hd_borrowed := True\<rparr>) = (r, q, t1)"
      by (metis prod_cases3)
    have "fgood B (hd_queue t, t\<lparr>hd_queue := [], hd_borrowed := True\<rparr>)"
      using t by (simp add: fgood_def tgood_def)
    from total_onD [OF total_fill(2) [OF assms] this, of script] have "settled r \<and> fgood B (q, t1)"
      unfolding f by simp
    then show ?thesis using t False f by (auto simp: fill_heredoc_bodies_def tgood_def fgood_def)
  qed
qed

section \<open>Heredoc bodies fit in the source\<close>

lemma slice_room:
  "lx_src l' = lx_src l \<Longrightarrow> length (slice l' (lx_pos l) (lx_pos l')) + left l' \<le> left l \<or> left l < left l'"
  by (auto simp: slice_def left_def remaining_def)

lemma body_loop_spec:
  "settled (fst (body_loop d st bs body l)) \<and> fst (body_loop d st bs body l) \<noteq> Panic
   \<and> ahead l (snd (body_loop d st bs body l))
   \<and> (\<forall>b. fst (body_loop d st bs body l) = Ok b \<longrightarrow> length b \<le> length body + left l)"
proof (induction d st bs body l rule: body_loop.induct)
  case (1 d st bs body l)
  define l1 where "l1 = advance_while (\<lambda>c. c \<noteq> NL) l"
  define line where "line = slice l1 (lx_pos l) (lx_pos l1)"
  obtain nl l2 where e: "eat NL l1 = (nl, l2)" by fastforce
  have a1: "ahead l l1" by (simp add: l1_def)
  have a2: "ahead l1 l2" using ahead_eat [of l1 NL] e by simp
  then have a: "ahead l l2" using a1 ahead_trans by blast
  have "length line + left l1 \<le> left l"
    using slice_room [of l1 l] ahead_left [OF a1] ahead_src [OF a1] by (auto simp: line_def)
  moreover have "left l2 + (if nl then 1 else 0) \<le> left l1"
    using e left_advance_peek [of l1 NL] by (auto simp: eat_def split: if_splits)
  ultimately have room: "length (body @ line @ (if nl then [NL] else [])) + left l2 \<le> length body + left l"
    by auto
  define stripped where "stripped = (if st then trim_start_matches TAB line else line)"
  have unf: "body_loop d st bs body l =
      (if stripped = d then (Ok body, l2)
       else if is_eof l2 then (Err (ParseError (Span bs (lx_pos l2 - bs))
              (''unterminated heredoc: missing delimiter `'' @ d @ ''`'')), l2)
       else body_loop d st bs (body @ line @ (if nl then [NL] else [])) l2)"
    unfolding body_loop.simps [of d st bs body l] Let_def l1_def [symmetric] line_def [symmetric] e
    by (simp add: stripped_def)
  show ?case
  proof (cases "stripped = d \<or> is_eof l2")
    case True
    then show ?thesis using a unfolding unf by auto
  next
    case False
    have "settled (fst (body_loop d st bs (body @ line @ (if nl then [NL] else [])) l2))
      \<and> fst (body_loop d st bs (body @ line @ (if nl then [NL] else [])) l2) \<noteq> Panic
      \<and> ahead l2 (snd (body_loop d st bs (body @ line @ (if nl then [NL] else [])) l2))
      \<and> (\<forall>b. fst (body_loop d st bs (body @ line @ (if nl then [NL] else [])) l2) = Ok b \<longrightarrow>
           length b \<le> length (body @ line @ (if nl then [NL] else [])) + left l2)"
      using False e [symmetric]
      by (intro 1 [OF refl l1_def line_def _ stripped_def _ refl]) simp_all
    then show ?thesis using False room ahead_trans [OF a] unfolding unf by fastforce
  qed
qed

lemma collect_spec:
  "settled (fst (collect_heredoc_bodies hs l)) \<and> fst (collect_heredoc_bodies hs l) \<noteq> Panic
   \<and> ahead l (snd (collect_heredoc_bodies hs l))
   \<and> (\<forall>bs. fst (collect_heredoc_bodies hs l) = Ok bs \<longrightarrow> (\<forall>b \<in> set bs. length b \<le> length (lx_src l)))"
proof (induction hs arbitrary: l)
  case (Cons h hs)
  obtain d q st where h: "h = (d, q, st)" by (metis prod_cases3)
  obtain r l1 where b: "body_loop d st (lx_pos l) [] l = (r, l1)" by fastforce
  have br: "settled r" "r \<noteq> Panic" "ahead l l1" "\<And>x. r = Ok x \<Longrightarrow> length x \<le> left l"
    using body_loop_spec [of d st "lx_pos l" "[]" l] b by auto
  have len: "left l \<le> length (lx_src l)" by (simp add: left_def remaining_def)
  obtain r2 l2 where c: "collect_heredoc_bodies hs l1 = (r2, l2)" by fastforce
  have cr: "settled r2" "r2 \<noteq> Panic" "ahead l1 l2"
    "\<And>bs x. r2 = Ok bs \<Longrightarrow> x \<in> set bs \<Longrightarrow> length x \<le> length (lx_src l1)"
    using Cons.IH [of l1] c by auto
  have src: "lx_src l1 = lx_src l" using br(3) by (rule ahead_src)
  have a: "ahead l l2" using br(3) cr(3) ahead_trans by blast
  show ?case
    using br(1-3) br(4) cr(1,2) cr(4) src a len b c
    by (cases r; cases r2) (auto simp: h andThen_def le_trans)
qed simp

section \<open>The grammar takes input\<close>

definition pgood :: "nat \<Rightarrow> bool \<Rightarrow> nat \<Rightarrow> parser \<Rightarrow> bool" where
  "pgood B b M p \<longleftrightarrow> length (lx_src (ps_lexer p)) \<le> M \<and> (b \<or> M \<le> B) \<and> tgood B b (ps_tls p)
     \<and> (\<forall>t w. ps_peeked p = Some t \<longrightarrow> tk_kind t = TkWord w \<longrightarrow> length w \<le> M)"

text \<open>What is left to read: the bytes, and a token that was peeked.\<close>

definition rm :: "parser \<Rightarrow> nat" where
  "rm p = left (ps_lexer p) + (case ps_peeked p of Some t \<Rightarrow> if tk_kind t = Eof then 0 else 1 | None \<Rightarrow> 0)"

text \<open>
  \<open>paced I P n m d\<close>: from a state with \<open>I\<close> and \<open>P\<close> and at most \<open>n\<close> left, \<open>m\<close> settles and keeps
  \<open>I\<close>, and if it returns a value it has taken at least \<open>d\<close>.
\<close>

definition paced :: "(parser \<Rightarrow> bool) \<Rightarrow> (parser \<Rightarrow> bool) \<Rightarrow> nat \<Rightarrow> 'a pact \<Rightarrow> nat \<Rightarrow> bool" where
  "paced I P n m d \<longleftrightarrow> (\<forall>p. I p \<longrightarrow> P p \<longrightarrow> rm p \<le> n \<longrightarrow>
     settled (fst (m p)) \<and> I (snd (m p)) \<and> (\<forall>a. fst (m p) = Ok a \<longrightarrow> rm (snd (m p)) + d \<le> rm p))"

definition anywhere :: "parser \<Rightarrow> bool" where
  "anywhere p = True"

definition at :: "token \<Rightarrow> parser \<Rightarrow> bool" where
  "at t p \<longleftrightarrow> ps_peeked p = Some t"

lemma anywhere [simp]: "anywhere p"
  by (simp add: anywhere_def)

lemma pacedI:
  "(\<And>p. I p \<Longrightarrow> P p \<Longrightarrow> rm p \<le> n \<Longrightarrow>
     settled (fst (m p)) \<and> I (snd (m p)) \<and> (\<forall>a. fst (m p) = Ok a \<longrightarrow> rm (snd (m p)) + d \<le> rm p))
   \<Longrightarrow> paced I P n m d"
  by (simp add: paced_def)

lemma pacedD:
  "paced I P n m d \<Longrightarrow> I p \<Longrightarrow> P p \<Longrightarrow> rm p \<le> n \<Longrightarrow>
     settled (fst (m p)) \<and> I (snd (m p)) \<and> (\<forall>a. fst (m p) = Ok a \<longrightarrow> rm (snd (m p)) + d \<le> rm p)"
  by (simp add: paced_def)

lemma paced_weaken: "paced I P n m d \<Longrightarrow> n' \<le> n \<Longrightarrow> d' \<le> d \<Longrightarrow> (\<And>p. P' p \<Longrightarrow> P p) \<Longrightarrow> paced I P' n' m d'"
  unfolding paced_def by (meson add_le_mono le_trans order_refl)

lemma paced_andThen:
  assumes m: "paced I P n m d1" and f: "\<And>a. paced I anywhere (n - d1) (f a) d2" and d: "d \<le> d1 + d2"
  shows "paced I P n (andThen m f) d"
proof (rule pacedI)
  fix p assume p: "I p" "P p" "rm p \<le> n"
  obtain r p1 where r: "m p = (r, p1)" by fastforce
  have m1: "settled r" "I p1" "\<And>a. r = Ok a \<Longrightarrow> rm p1 + d1 \<le> rm p"
    using pacedD [OF m p] r by auto
  show "settled (fst (andThen m f p)) \<and> I (snd (andThen m f p))
      \<and> (\<forall>a. fst (andThen m f p) = Ok a \<longrightarrow> rm (snd (andThen m f p)) + d \<le> rm p)"
  proof (cases r)
    case (Ok a)
    have le: "rm p1 + d1 \<le> rm p" using m1(3) Ok by simp
    then have "rm p1 \<le> n - d1" using p(3) by linarith
    from pacedD [OF f m1(2) _ this, of a]
    show ?thesis using r Ok le d by (fastforce simp: andThen_def)
  qed (use r m1 in \<open>auto simp: andThen_def\<close>)
qed

lemma paced_ret: "paced I P n (ret a) 0"
  by (simp add: paced_def)

lemma paced_fail: "paced I P n (fail e) d"
  by (simp add: paced_def)

lemma paced_Pair_Err: "paced I P n (Pair (Err e)) d"
  by (simp add: paced_def)

lemma paced_err: "paced I P n (\<lambda>p. (Err (e p), p)) d"
  by (simp add: paced_def)

lemma paced_on_tls:
  assumes "total_on (tgood B b) m"
  shows "paced (pgood B b M) P n (on_tls m) 0"
proof (rule pacedI)
  fix p assume "pgood B b M p"
  then show "settled (fst (on_tls m p)) \<and> pgood B b M (snd (on_tls m p))
      \<and> (\<forall>a. fst (on_tls m p) = Ok a \<longrightarrow> rm (snd (on_tls m p)) + 0 \<le> rm p)"
    using total_onD [OF assms, of "ps_tls p"]
    by (cases "m (ps_tls p)") (auto simp: on_tls_def pgood_def rm_def)
qed

text \<open>Peeking and taking a token.\<close>

lemma left_le_src: "left l \<le> length (lx_src l)"
  by (simp add: left_def remaining_def)

lemma p_peek_spec:
  assumes "pgood B b M p"
  shows "settled (fst (p_peek p)) \<and> fst (p_peek p) \<noteq> Panic \<and> pgood B b M (snd (p_peek p))
     \<and> (\<forall>t. fst (p_peek p) = Ok t \<longrightarrow> at t (snd (p_peek p)) \<and> rm (snd (p_peek p)) \<le> rm p)
     \<and> lx_src (ps_lexer (snd (p_peek p))) = lx_src (ps_lexer p)"
proof (cases "ps_peeked p")
  case None
  obtain r l where n: "next_token (ps_in_dq p) (ps_lexer p) = (r, l)" by fastforce
  have s: "settled r" "r \<noteq> Panic" using lexer.nxt_settled [of "ps_in_dq p" "ps_lexer p"] n by auto
  have src: "lx_src l = lx_src (ps_lexer p)" using lexer.nxt_source [of "ps_in_dq p" "ps_lexer p"] n by simp
  have room: "left l \<le> left (ps_lexer p)" using lexer.nxt_room [of "ps_in_dq p" "ps_lexer p"] n by simp
  have strict: "left l < left (ps_lexer p)" if "r = Ok t" "tk_kind t \<noteq> Eof" for t
    using lexer.nxt_takes [of "ps_in_dq p" "ps_lexer p" t] n that by simp
  have word: "length w \<le> M" if "r = Ok t" "tk_kind t = TkWord w" for t w
    using lexer.nxt_word [of "ps_in_dq p" "ps_lexer p" t w] n that assms by (simp add: pgood_def)
  show ?thesis
  proof (cases r)
    case (Ok t)
    then show ?thesis using None n src room strict word assms
      by (auto simp: p_peek_def on_lexer_def andThen_def at_def rm_def pgood_def less_eq_Suc_le)
  qed (use None n s src assms in \<open>auto simp: p_peek_def on_lexer_def andThen_def pgood_def\<close>)
next
  case (Some t)
  then show ?thesis using assms by (simp add: p_peek_def at_def)
qed

lemma paced_peek:
  assumes "\<And>t. paced (pgood B b M) (at t) n (f t) d"
  shows "paced (pgood B b M) P n (andThen p_peek f) d"
proof (rule pacedI)
  fix p assume p: "pgood B b M p" "P p" "rm p \<le> n"
  note spec = p_peek_spec [OF p(1)]
  obtain r p1 where r: "p_peek p = (r, p1)" by fastforce
  show "settled (fst (andThen p_peek f p)) \<and> pgood B b M (snd (andThen p_peek f p))
      \<and> (\<forall>a. fst (andThen p_peek f p) = Ok a \<longrightarrow> rm (snd (andThen p_peek f p)) + d \<le> rm p)"
  proof (cases r)
    case (Ok t)
    have q: "pgood B b M p1" "at t p1" "rm p1 \<le> rm p" using spec r Ok by auto
    then show ?thesis using pacedD [OF assms q(1,2)] p(3) r Ok by (fastforce simp: andThen_def)
  qed (use spec r in \<open>auto simp: andThen_def\<close>)
qed

lemma paced_peek_at:
  assumes "paced (pgood B b M) (at t) n (f t) d"
  shows "paced (pgood B b M) (at t) n (andThen p_peek f) d"
  using assms by (auto simp: paced_def at_def p_peek_def andThen_def)

lemma paced_next_at:
  assumes "tk_kind t \<noteq> Eof"
  shows "paced (pgood B b M) (at t) n p_next 1"
  using assms by (auto simp: paced_def at_def p_next_def rm_def pgood_def)

lemma paced_next: "paced (pgood B b M) P n p_next 0"
proof (rule pacedI)
  fix p assume p: "pgood B b M p"
  show "settled (fst (p_next p)) \<and> pgood B b M (snd (p_next p))
      \<and> (\<forall>a. fst (p_next p) = Ok a \<longrightarrow> rm (snd (p_next p)) + 0 \<le> rm p)"
    using p lexer.nxt_settled [of "ps_in_dq p" "ps_lexer p"] lexer.nxt_source [of "ps_in_dq p" "ps_lexer p"]
      lexer.nxt_room [of "ps_in_dq p" "ps_lexer p"]
    by (cases "next_token (ps_in_dq p) (ps_lexer p)")
       (auto simp: p_next_def on_lexer_def rm_def pgood_def split: option.split)
qed

lemma paced_word_bound:
  assumes "\<And>w. tk_kind t = TkWord w \<Longrightarrow> length w \<le> M \<Longrightarrow> paced (pgood B b M) (at t) n m d"
    "tk_kind t = TkWord w"
  shows "paced (pgood B b M) (at t) n m d"
proof (rule pacedI)
  fix p assume p: "pgood B b M p" "at t p" "rm p \<le> n"
  then have "length w \<le> M" using assms(2) by (simp add: pgood_def at_def)
  then show "settled (fst (m p)) \<and> pgood B b M (snd (m p))
      \<and> (\<forall>a. fst (m p) = Ok a \<longrightarrow> rm (snd (m p)) + d \<le> rm p)"
    using pacedD [OF assms(1) p] assms(2) by blast
qed

text \<open>Steps that keep the invariant and what is left.\<close>

lemma paced_modify:
  assumes "\<And>p. pgood B b M p \<Longrightarrow> pgood B b M (f p) \<and> rm (f p) = rm p"
  shows "paced (pgood B b M) P n (modify f) 0"
  using assms by (simp add: paced_def)

lemma paced_gets: "(\<And>a. paced I P n (f a) d) \<Longrightarrow> paced I P n (andThen (gets g) f) d"
  by (simp add: paced_def andThen_def)

lemma peek_kind_then: "andThen peek_kind f = andThen p_peek (\<lambda>t. f (tk_kind t))"
  by (simp add: peek_kind_def andThen_assoc)

lemma peek_span_then: "andThen peek_span f = andThen p_peek (\<lambda>t. f (tk_span t))"
  by (simp add: peek_span_def andThen_assoc)

lemma paced_at_zero: "tk_kind t \<noteq> Eof \<Longrightarrow> paced I (at t) 0 m d"
  by (auto simp: paced_def at_def rm_def)

text \<open>After taking a token that is there, one less is left.\<close>

lemma paced_step:
  assumes "tk_kind t \<noteq> Eof" "paced I (at t) n m 1"
    "\<And>a. 0 < n \<Longrightarrow> paced I anywhere (n - 1) (f a) d2" "d \<le> Suc d2"
  shows "paced I (at t) n (andThen m f) d"
proof (cases n)
  case 0
  then show ?thesis using paced_at_zero [OF assms(1)] by simp
next
  case (Suc k)
  then show ?thesis using assms(3,4) by (intro paced_andThen [OF assms(2)]) auto
qed

lemma paced_take0:
  assumes "tk_kind t \<noteq> Eof" "\<And>a. 0 < n \<Longrightarrow> paced (pgood B b M) anywhere (n - 1) (f a) 0" "d \<le> 1"
  shows "paced (pgood B b M) (at t) n (andThen p_next f) d"
  using assms(2,3) by (intro paced_step [OF assms(1) paced_next_at [OF assms(1)], where ?d2.0 = 0]) auto

lemma paced_then0:
  assumes "paced I P n m 0" "\<And>a. paced I anywhere n (f a) d"
  shows "paced I P n (andThen m f) d"
  using paced_andThen [OF assms(1), of f d d] assms(2) by simp

lemma paced_forget: "paced I anywhere n m d \<Longrightarrow> paced I P n m d"
  by (simp add: paced_def)

lemma paced_flush: "paced (pgood B b M) P n flush_heredocs 0"
proof -
  have m: "paced (pgood B b M) Q n (modify (ps_pending_update (\<lambda>_. []))) 0" for Q
    by (rule paced_modify) (simp add: pgood_def rm_def)
  have c: "paced (pgood B b M) Q n (andThen (on_lexer (collect_heredoc_bodies hs))
      (\<lambda>bodies. on_tls (push_bodies hs bodies))) 0" for Q hs
  proof (rule pacedI)
    fix p assume p: "pgood B b M p"
    obtain r l where c: "collect_heredoc_bodies hs (ps_lexer p) = (r, l)" by fastforce
    have s: "settled r" "ahead (ps_lexer p) l"
      "\<And>bs x. r = Ok bs \<Longrightarrow> x \<in> set bs \<Longrightarrow> length x \<le> length (lx_src (ps_lexer p))"
      using collect_spec [of hs "ps_lexer p"] c by auto
    have q: "b \<or> length x \<le> B" if "r = Ok bs" "(y, x) \<in> set (zip ys bs)" for bs x y ys
      using s(3) [OF that(1) set_zip_rightD [OF that(2)]] p by (auto simp: pgood_def)
    show "settled (fst (andThen (on_lexer (collect_heredoc_bodies hs)) (\<lambda>bodies. on_tls (push_bodies hs bodies)) p))
      \<and> pgood B b M (snd (andThen (on_lexer (collect_heredoc_bodies hs)) (\<lambda>bodies. on_tls (push_bodies hs bodies)) p))
      \<and> (\<forall>a. fst (andThen (on_lexer (collect_heredoc_bodies hs)) (\<lambda>bodies. on_tls (push_bodies hs bodies)) p) = Ok a \<longrightarrow>
           rm (snd (andThen (on_lexer (collect_heredoc_bodies hs)) (\<lambda>bodies. on_tls (push_bodies hs bodies)) p)) + 0 \<le> rm p)"
    proof (cases r)
      case (Ok bs)
      then show ?thesis using c s(2) p q [OF Ok]
        by (auto simp: andThen_def on_lexer_def on_tls_def push_bodies_def pgood_def tgood_def ahead_src rm_def
            dest: ahead_left)
    qed (use c s p in \<open>auto simp: andThen_def on_lexer_def pgood_def ahead_src dest: ahead_left\<close>)
  qed
  show ?thesis
    unfolding flush_heredocs_def by (intro paced_gets) (auto intro!: paced_ret paced_then0 [OF m] c)
qed

lemma paced_skip_newlines: "n < k \<Longrightarrow> paced (pgood B b M) P n (skip_newlines k any) 0"
proof (induction k arbitrary: n any P)
  case (Suc k)
  then show ?case
    unfolding skip_newlines.simps peek_kind_then
    by (intro paced_peek) (auto intro!: paced_ret paced_take0 paced_then0 [OF paced_flush])
qed simp

lemma paced_skip_newline:
  assumes "n < k" "tk_kind t = Newline"
  shows "paced (pgood B b M) (at t) n (skip_newlines k any) 1"
proof (cases k)
  case (Suc j)
  then show ?thesis
    unfolding Suc skip_newlines.simps peek_kind_then using assms(2) \<open>n < k\<close> [unfolded Suc]
    by (intro paced_peek_at)
       (auto intro!: paced_take0 paced_then0 [OF paced_flush] paced_skip_newlines)
qed (use assms in simp)

lemma paced_separator: "paced (pgood B b M) P n skip_list_separator 0"
  unfolding skip_list_separator_def peek_kind_then
  by (intro paced_peek) (auto intro!: paced_ret paced_take0)

lemma paced_separator_semi:
  "tk_kind t = Semi \<Longrightarrow> paced (pgood B b M) (at t) n skip_list_separator 1"
  unfolding skip_list_separator_def peek_kind_then
  by (intro paced_peek_at) (auto intro!: paced_ret paced_take0)

section \<open>Words and redirections take their tokens\<close>

lemma paced_dq_loop:
  assumes cb: "cb_good B b M cb"
  shows "n < k \<Longrightarrow> paced (pgood B b M) P n (dq_loop cb sp k parts) 0"
proof (induction k arbitrary: n parts P)
  case (Suc k)
  have w: "paced (pgood B b M) (at t) n (andThen p_next (\<lambda>_.
       andThen (on_tls (parse_dq_word_parts cb w s)) (\<lambda>dq_parts. dq_loop cb sp k (parts @ dq_parts)))) 0"
    if "tk_kind t = TkWord w" for t w s
    by (rule paced_word_bound [OF _ that])
       (use that Suc in \<open>auto intro!: paced_take0 paced_then0 [OF paced_on_tls] total_dq_word [OF cb]\<close>)
  show ?case
    unfolding dq_loop.simps
    by (rule paced_peek)
       (use Suc w in \<open>auto split: token_kind.split intro!: paced_ret paced_fail paced_take0\<close>)
qed simp

lemma paced_double_quoted:
  assumes cb: "cb_good B b M cb" and n: "n \<le> k" and t: "tk_kind t = DoubleQuoteOpen"
  shows "paced (pgood B b M) (at t) n (parse_double_quoted cb k) 1"
proof -
  have m: "paced (pgood B b M) P i (modify (ps_in_dq_update f)) 0" for P i f
    by (rule paced_modify) (simp add: pgood_def rm_def)
  show ?thesis
    unfolding parse_double_quoted_def peek_span_then
    by (intro paced_peek_at paced_take0 paced_gets paced_then0 [OF m]
        paced_then0 [OF paced_dq_loop [OF cb]] paced_ret) (use n t in auto)
qed

lemma paced_then_ret:
  "paced I P n m d \<Longrightarrow> paced I P n (andThen m (\<lambda>a. ret (f a))) d"
  by (rule paced_andThen [where ?d2.0 = 0]) (auto intro: paced_ret)

lemma paced_parse_word_at:
  assumes cb: "cb_good B b M cb" and n: "n \<le> k"
  shows "paced (pgood B b M) (at t) n (parse_word cb k) (if is_word_token (tk_kind t) then 1 else 0)"
proof -
  have w: "paced (pgood B b M) (at t) n (andThen p_next (\<lambda>_.
       andThen (on_tls (parse_word_str_inner cb w s)) (\<lambda>word. ret (f word)))) 1"
    if "tk_kind t = TkWord w" for w s and f :: "word \<Rightarrow> word list"
    by (rule paced_word_bound [OF _ that])
       (use that in \<open>auto intro!: paced_take0 paced_then0 [OF paced_on_tls] total_word_str [OF cb] paced_ret\<close>)
  show ?thesis
    unfolding parse_word_def
    by (intro paced_then_ret paced_peek_at)
       (use w paced_double_quoted [OF cb n, of t] in \<open>auto simp: is_word_token_def split: token_kind.split
          intro!: paced_ret paced_then_ret paced_next_at [unfolded One_nat_def]\<close>)
qed

text \<open>Peeking twice is peeking once.\<close>

lemma p_peek_twice: "andThen p_peek (\<lambda>_. andThen p_peek f) = andThen p_peek f"
proof (rule ext)
  fix p
  show "andThen p_peek (\<lambda>_. andThen p_peek f) p = andThen p_peek f p"
  proof (cases "ps_peeked p")
    case None
    obtain r l where "next_token (ps_in_dq p) (ps_lexer p) = (r, l)" by fastforce
    then show ?thesis using None by (cases r) (simp_all add: p_peek_def andThen_def on_lexer_def)
  qed (simp add: p_peek_def andThen_def)
qed

lemma paced_parse_word:
  assumes "cb_good B b M cb" "n \<le> k"
  shows "paced (pgood B b M) P n (parse_word cb k) 0"
proof -
  have eq: "parse_word cb k = andThen p_peek (\<lambda>_. parse_word cb k)"
    unfolding parse_word_def andThen_assoc p_peek_twice ..
  show ?thesis
    by (subst eq) (rule paced_peek, rule paced_weaken [OF paced_parse_word_at [OF assms]], auto)
qed

lemma paced_dup:
  assumes "cb_good B b M cb" "n \<le> k"
  shows "paced (pgood B b M) P n (parse_dup_redirect cb k fd kind) 0"
proof -
  have w: "paced (pgood B b M) Q n (andThen (parse_word cb k) (\<lambda>w. ret (Redirect fd kind (TWord w)))) 0" for Q
    by (intro paced_then_ret paced_parse_word assms)
  show ?thesis
    unfolding parse_dup_redirect_def peek_kind_then Let_def
    by (rule paced_peek)
       (auto split: token_kind.split option.split intro!: w paced_ret paced_take0)
qed

lemma paced_redirect:
  assumes cb: "cb_good B b M cb" and n: "n \<le> k" and t: "is_redirect_token (tk_kind t)"
  shows "paced (pgood B b M) (at t) n (parse_redirect cb k) 1"
proof -
  have m: "paced (pgood B b M) P i (modify (ps_pending_update f)) 0" for P i f
    by (rule paced_modify) (simp add: pgood_def rm_def)
  have ne: "tk_kind t \<noteq> Eof" using t by (auto simp: is_redirect_token_def)
  show ?thesis
    unfolding parse_redirect_def Let_def
    by (rule paced_take0 [OF ne])
       (use n in \<open>auto split: token_kind.split redirect_op.split
          intro!: paced_fail paced_ret paced_then_ret paced_parse_word [OF cb] paced_dup [OF cb] paced_then0 [OF m]\<close>)
qed

section \<open>Simple commands\<close>

text \<open>The look-ahead puts back what it read.\<close>

lemma check_function_def_spec:
  assumes p: "pgood B b M p" "at t p"
  shows "settled (fst (check_function_def t p)) \<and> pgood B b M (snd (check_function_def t p))
     \<and> (\<forall>u. fst (check_function_def t p) = Ok u \<longrightarrow> snd (check_function_def t p) = p)"
proof (cases "\<exists>w. tk_kind t = TkWord w \<and> is_plain_name w")
  case True
  define p1 where "p1 = p\<lparr>ps_peeked := None\<rparr>"
  have g: "pgood B b M p1" using p by (simp add: pgood_def p1_def)
  obtain r p2 where pk: "p_peek p1 = (r, p2)" by fastforce
  have s: "settled r" "pgood B b M p2" "lx_src (ps_lexer p2) = lx_src (ps_lexer p)"
    using p_peek_spec [OF g] pk by (auto simp: p1_def)
  have same: "p2\<lparr>ps_peeked := ps_peeked p, ps_lexer := set_pos (lx_pos (ps_lexer p)) (ps_lexer p2)\<rparr> = p"
    if "r = Ok t2" for t2
    using pk that s(3)
    by (cases p; cases "ps_lexer p")
       (auto simp: p1_def p_peek_def on_lexer_def andThen_def set_pos_def split: prod.splits outcome.splits)
  show ?thesis
    using True p(2) s same pk p(1)
    by (cases r) (auto simp: check_function_def_def p_next_def at_def andThen_def peek_kind_def p1_def)
qed (use p in \<open>auto simp: check_function_def_def split: token_kind.split\<close>)

lemma paced_check_then:
  assumes "paced (pgood B b M) (at t) n m d"
  shows "paced (pgood B b M) (at t) n (andThen (check_function_def t) (\<lambda>_. m)) d"
proof (rule pacedI)
  fix p assume p: "pgood B b M p" "at t p" "rm p \<le> n"
  obtain r p1 where c: "check_function_def t p = (r, p1)" by fastforce
  show "settled (fst (andThen (check_function_def t) (\<lambda>_. m) p))
      \<and> pgood B b M (snd (andThen (check_function_def t) (\<lambda>_. m) p))
      \<and> (\<forall>a. fst (andThen (check_function_def t) (\<lambda>_. m) p) = Ok a \<longrightarrow>
           rm (snd (andThen (check_function_def t) (\<lambda>_. m) p)) + d \<le> rm p)"
    using check_function_def_spec [OF p(1,2)] c pacedD [OF assms p]
    by (cases r) (auto simp: andThen_def)
qed

lemma split_assignment_length:
  "split_assignment w = Some (name, value) \<Longrightarrow> length value \<le> length w"
  by (auto simp: split_assignment_def split_once_iff split: option.splits if_splits)

lemma assignment_of_Some:
  "assignment_of saw t = Some a \<Longrightarrow> \<exists>w. t = TkWord w \<and> split_assignment w = Some a"
  by (cases t) (simp_all add: assignment_of_def split: if_splits)

lemma paced_simple_turn:
  assumes cb: "cb_good B b M cb" and n: "n \<le> k"
    and loop: "\<And>i sc saw. i < k \<Longrightarrow> paced (pgood B b M) anywhere i (simple_loop cb k sc saw) 0"
    and t: "\<not> ends_command (tk_kind t)"
  shows "paced (pgood B b M) (at t) n (simple_loop cb (Suc k) sc saw) 1"
proof -
  have ne: "tk_kind t \<noteq> Eof" using t by (auto simp: ends_command_def)
  have next_turn: "0 < n \<Longrightarrow> paced (pgood B b M) anywhere (n - 1) (simple_loop cb k sc saw) 0" for sc saw
    using n by (intro loop) auto
  have redir: "paced (pgood B b M) (at t) n (andThen (parse_redirect cb k) (\<lambda>r. simple_loop cb k (g r) saw)) 1"
    if "is_redirect_token (tk_kind t)" for g saw
    by (rule paced_step [OF ne paced_redirect [OF cb n that] next_turn]) auto
  have word: "paced (pgood B b M) (at t) n (andThen (parse_word cb k) (\<lambda>w. simple_loop cb k (g w) sn)) 1"
    if "is_word_token (tk_kind t)" for g sn
    by (rule paced_step [OF ne _ next_turn]) (use paced_parse_word_at [OF cb n, of t] that in auto)
  have assign: "paced (pgood B b M) (at t) n (andThen p_next (\<lambda>_.
       andThen (on_tls (parse_word_str_inner cb val x)) (\<lambda>v. simple_loop cb k (g v) saw))) 1"
    if a: "assignment_of saw (tk_kind t) = Some (name, val)" for name val x g
  proof -
    obtain w where w: "tk_kind t = TkWord w" "split_assignment w = Some (name, val)"
      using assignment_of_Some [OF a] by blast
    have len: "length val \<le> length w" using w(2) by (rule split_assignment_length)
    show ?thesis
    proof (rule paced_word_bound [OF _ w(1)])
      fix u assume "tk_kind t = TkWord u" "length u \<le> M"
      then have "length val \<le> M" using len w(1) by simp
      then show ?thesis
        by (intro paced_take0 [OF ne] paced_then0 [OF paced_on_tls [OF total_word_str [OF cb]]] next_turn) simp_all
    qed
  qed
  show ?thesis
    unfolding simple_loop.simps
    by (rule paced_peek_at)
       (use t redir word assign in \<open>auto split: option.split intro!: paced_fail paced_check_then\<close>)
qed

lemma paced_simple_loop:
  assumes cb: "cb_good B b M cb"
  shows "n < k \<Longrightarrow> paced (pgood B b M) P n (simple_loop cb k sc saw) 0"
proof (induction k arbitrary: n sc saw P)
  case (Suc k)
  have turn: "paced (pgood B b M) (at t) n (simple_loop cb (Suc k) sc saw) 0" for t
  proof (cases "ends_command (tk_kind t)")
    case True
    then show ?thesis unfolding simple_loop.simps by (intro paced_peek_at) (simp add: paced_ret)
  next
    case False
    have "paced (pgood B b M) (at t) n (simple_loop cb (Suc k) sc saw) 1"
      by (rule paced_simple_turn [OF cb _ _ False]) (use Suc in auto)
    then show ?thesis by (rule paced_weaken) auto
  qed
  have "simple_loop cb (Suc k) sc saw = andThen p_peek (\<lambda>_. simple_loop cb (Suc k) sc saw)"
    unfolding simple_loop.simps p_peek_twice ..
  then show ?case using paced_peek [of B b M n "\<lambda>_. simple_loop cb (Suc k) sc saw", OF turn] by metis
qed simp

lemma paced_simple_at:
  assumes "cb_good B b M cb" "n < k" "\<not> ends_command (tk_kind t)"
  shows "paced (pgood B b M) (at t) n (simple_loop cb k sc saw) 1"
proof (cases k)
  case (Suc j)
  then show ?thesis
    unfolding Suc using assms Suc by (intro paced_simple_turn paced_simple_loop) auto
qed (use assms in simp)

section \<open>The grammar\<close>

text \<open>
  \<open>feeds S I n m\<close>: at a token whose kind is in \<open>S\<close>, \<open>m\<close> returns a value and leaves the state as
  it is; at any other token it takes input. From any state it takes no more than there is.
\<close>

definition feeds :: "(token_kind \<Rightarrow> bool) \<Rightarrow> (parser \<Rightarrow> bool) \<Rightarrow> nat \<Rightarrow> 'a pact \<Rightarrow> bool" where
  "feeds S I n m \<longleftrightarrow> paced I anywhere n m 0
     \<and> (\<forall>t. \<not> S (tk_kind t) \<longrightarrow> paced I (at t) n m 1)
     \<and> (\<forall>t p. at t p \<longrightarrow> S (tk_kind t) \<longrightarrow> (\<exists>c. m p = (Ok c, p)))"

definition stuck_pipeline :: "token_kind \<Rightarrow> bool" where
  "stuck_pipeline t \<longleftrightarrow> t \<in> {Eof, Newline, Semi, Amp, AndAnd, OrOr, RParen, RBrace}"

definition stuck_item :: "token_kind \<Rightarrow> bool" where
  "stuck_item t \<longleftrightarrow> t \<in> {Eof, Newline, Semi, RParen, RBrace}"

lemma feeds_any: "feeds S I n m \<Longrightarrow> paced I P n m 0"
  by (simp add: feeds_def paced_forget)

lemma feeds_at: "feeds S I n m \<Longrightarrow> \<not> S (tk_kind t) \<Longrightarrow> paced I (at t) n m 1"
  by (simp add: feeds_def)

lemma feeds_stuck: "feeds S I n m \<Longrightarrow> at t p \<Longrightarrow> S (tk_kind t) \<Longrightarrow> \<exists>c. m p = (Ok c, p)"
  by (auto simp: feeds_def)

lemma feeds_le: "feeds S I n m \<Longrightarrow> n' \<le> n \<Longrightarrow> feeds S I n' m"
  by (auto simp: feeds_def intro: paced_weaken)

text \<open>What follows a command that left the state as it was at a token runs at that token.\<close>

lemma paced_stuck_then:
  assumes m: "feeds S I n m" "S (tk_kind t)" and f: "\<And>a. paced I (at t) n (f a) d"
  shows "paced I (at t) n (andThen m f) d"
proof (rule pacedI)
  fix p assume p: "I p" "at t p" "rm p \<le> n"
  obtain c where "m p = (Ok c, p)" using feeds_stuck [OF m(1) p(2) m(2)] by blast
  then show "settled (fst (andThen m f p)) \<and> I (snd (andThen m f p))
      \<and> (\<forall>a. fst (andThen m f p) = Ok a \<longrightarrow> rm (snd (andThen m f p)) + d \<le> rm p)"
    using pacedD [OF f p] by (simp add: andThen_def)
qed

lemma paced_to_simple:
  "(\<And>sc. paced I P n (f sc) d) \<Longrightarrow> paced I P n (andThen (command_to_simple c) f) d"
  by (cases c) (simp_all add: command_to_simple_def paced_def andThen_def)

lemma peek_at: "at t p \<Longrightarrow> andThen p_peek f p = f t p"
  by (simp add: at_def p_peek_def andThen_def)

lemma paced_stages:
  "n < k \<Longrightarrow> feeds S (pgood B b M) n pc \<Longrightarrow> paced (pgood B b M) P n (stages_loop pc k neg sts) 0"
proof (induction k arbitrary: n sts P)
  case (Suc k)
  have pc: "feeds S (pgood B b M) (n - 1) pc" using Suc.prems(2) by (rule feeds_le) simp
  show ?case
    unfolding stages_loop.simps peek_kind_then using Suc.prems(1) Suc.IH [OF _ pc]
    by (intro paced_peek)
       (auto intro!: paced_ret paced_take0 paced_then0 [OF paced_skip_newlines] paced_then0 [OF feeds_any [OF pc]]
          paced_to_simple)
qed simp

lemma paced_stages_at:
  assumes "n < k" "feeds S (pgood B b M) n pc" "tk_kind t = Pipe"
  shows "paced (pgood B b M) (at t) n (stages_loop pc k neg sts) 1"
proof (cases k)
  case (Suc j)
  have pc: "feeds S (pgood B b M) (n - 1) pc" using assms(2) by (rule feeds_le) simp
  show ?thesis
    unfolding Suc stages_loop.simps peek_kind_then using assms(1,3) Suc
    by (intro paced_peek_at)
       (auto intro!: paced_take0 paced_then0 [OF paced_skip_newlines] paced_then0 [OF feeds_any [OF pc]]
          paced_to_simple paced_stages [OF _ pc])
qed (use assms in simp)

lemma feeds_pipeline:
  assumes n: "n < k" and pc: "feeds ends_command (pgood B b M) n pc"
  shows "feeds stuck_pipeline (pgood B b M) n (parse_pipeline pc k neg)"
proof -
  have rest: "paced (pgood B b M) P i (andThen peek_kind (\<lambda>t. if t \<noteq> Pipe then ret (g t)
        else andThen (command_to_simple c) (\<lambda>sc. stages_loop pc k neg [sc]))) 0" if "i \<le> n" for P i g c
    unfolding peek_kind_then
    by (intro paced_peek) (use n that feeds_le [OF pc that] in
        \<open>auto intro!: paced_ret paced_to_simple paced_stages\<close>)
  show ?thesis
    unfolding feeds_def
  proof (intro conjI allI impI)
    show "paced (pgood B b M) anywhere n (parse_pipeline pc k neg) 0"
      unfolding parse_pipeline_def by (intro paced_then0 [OF feeds_any [OF pc]] rest) simp
    show "paced (pgood B b M) (at t) n (parse_pipeline pc k neg) 1" if t: "\<not> stuck_pipeline (tk_kind t)" for t
    proof (cases "ends_command (tk_kind t)")
      case True
      then have "tk_kind t = Pipe" using t by (auto simp: ends_command_def stuck_pipeline_def)
      then show ?thesis
        unfolding parse_pipeline_def peek_kind_then
        by (intro paced_stuck_then [OF pc True] paced_peek_at)
           (auto intro!: paced_to_simple paced_stages_at [OF n pc, unfolded One_nat_def])
    next
      case False
      then have ne: "tk_kind t \<noteq> Eof" by (auto simp: ends_command_def)
      show ?thesis
        unfolding parse_pipeline_def by (rule paced_step [OF ne feeds_at [OF pc False] rest]) auto
    qed
    show "\<exists>c. parse_pipeline pc k neg p = (Ok c, p)" if st: "at t p" "stuck_pipeline (tk_kind t)" for t p
    proof -
      have e: "ends_command (tk_kind t)" "tk_kind t \<noteq> Pipe"
        using st(2) by (auto simp: ends_command_def stuck_pipeline_def)
      obtain c where "pc p = (Ok c, p)" using feeds_stuck [OF pc st(1) e(1)] by blast
      then show ?thesis
        using st(1) e(2) by (simp add: parse_pipeline_def andThen_Ok peek_kind_then peek_at)
    qed
  qed
qed

lemma feeds_peek:
  assumes "\<And>t. \<not> S (tk_kind t) \<Longrightarrow> paced (pgood B b M) (at t) n (f t) 1"
    "\<And>t. S (tk_kind t) \<Longrightarrow> feeds S (pgood B b M) n (f t)"
  shows "feeds S (pgood B b M) n (andThen p_peek f)"
  unfolding feeds_def
proof (intro conjI allI impI)
  have "paced (pgood B b M) (at t) n (f t) 0" for t
    using assms(1) [of t, THEN paced_weaken, of n 0 "at t"] feeds_any [OF assms(2) [of t]]
    by (cases "S (tk_kind t)") auto
  then show "paced (pgood B b M) anywhere n (andThen p_peek f) 0" by (intro paced_peek)
qed (use assms in \<open>auto intro: paced_peek_at feeds_stuck simp: peek_at\<close>)

lemma feeds_pipeline_cmd:
  assumes n: "n < k" and pc: "feeds ends_command (pgood B b M) n pc"
  shows "feeds stuck_pipeline (pgood B b M) n (parse_pipeline_cmd pc k)"
proof -
  note pl = feeds_pipeline [OF n pc]
  have "feeds stuck_pipeline (pgood B b M) (n - 1) (parse_pipeline pc k neg)" for neg
    using pl by (rule feeds_le) simp
  then show ?thesis
    unfolding parse_pipeline_cmd_def peek_kind_then using pl
    by (intro feeds_peek)
       (auto simp: stuck_pipeline_def intro!: paced_take0 feeds_any feeds_at [OF pl, unfolded One_nat_def])
qed

lemma paced_item_loop:
  "n < k \<Longrightarrow> feeds ends_command (pgood B b M) n pc \<Longrightarrow> paced (pgood B b M) P n (list_item_loop pc k lhs) 0"
proof (induction k arbitrary: n lhs P)
  case (Suc k)
  have pc: "feeds ends_command (pgood B b M) (n - 1) pc" using Suc.prems(2) by (rule feeds_le) simp
  show ?case
    unfolding list_item_loop.simps peek_kind_then using Suc.prems(1) Suc.IH [OF _ pc]
    by (intro paced_peek)
       (auto intro!: paced_ret paced_take0 paced_then0 [OF paced_skip_newlines]
          paced_then0 [OF feeds_any [OF feeds_pipeline_cmd [OF _ pc]]])
qed simp

lemma paced_item_loop_at:
  assumes "n < k" "feeds ends_command (pgood B b M) n pc" "tk_kind t = AndAnd \<or> tk_kind t = OrOr"
  shows "paced (pgood B b M) (at t) n (list_item_loop pc k lhs) 1"
proof (cases k)
  case (Suc j)
  have pc: "feeds ends_command (pgood B b M) (n - 1) pc" using assms(2) by (rule feeds_le) simp
  have ne: "tk_kind t \<noteq> Eof" using assms(3) by auto
  have go: "paced (pgood B b M) (at t) n (andThen p_next (\<lambda>_. andThen (skip_newlines j False) (\<lambda>_.
      andThen (parse_pipeline_cmd pc j) (\<lambda>rhs. list_item_loop pc j (g rhs))))) 1" for g
    using assms(1) Suc
    by (intro paced_take0 [OF ne] paced_then0 [OF paced_skip_newlines]
        paced_then0 [OF feeds_any [OF feeds_pipeline_cmd [OF _ pc]]] paced_item_loop [OF _ pc]) auto
  show ?thesis
    unfolding Suc list_item_loop.simps peek_kind_then using assms(3) go
    by (intro paced_peek_at) auto
qed (use assms in simp)

lemma feeds_item:
  assumes n: "n < k" and pc: "feeds ends_command (pgood B b M) n pc"
  shows "feeds stuck_item (pgood B b M) n (parse_list_item pc k)"
proof -
  note pl = feeds_pipeline_cmd [OF n pc]
  have amp: "paced (pgood B b M) P i (andThen peek_kind (\<lambda>t. if t = Amp then andThen p_next (\<lambda>_. ret (f c)) else ret (g c))) 0"
    for P i c and f g :: "command \<Rightarrow> command"
    unfolding peek_kind_then by (intro paced_peek) (auto intro!: paced_ret paced_take0)
  have amp_at: "paced (pgood B b M) (at t) n (andThen peek_kind (\<lambda>t. if t = Amp then andThen p_next (\<lambda>_. ret (f c)) else ret (g c))) 1"
    if "tk_kind t = Amp" for t c and f g :: "command \<Rightarrow> command"
    unfolding peek_kind_then using that by (intro paced_peek_at) (auto intro!: paced_ret paced_take0)
  have loop: "paced (pgood B b M) P i (list_item_loop pc k lhs) 0" if "i \<le> n" for P i lhs
    using n that feeds_le [OF pc that] by (intro paced_item_loop) auto
  have "k \<noteq> 0" using n by simp
  then obtain j where k: "k = Suc j" by (cases k) auto
  have id: "list_item_loop pc k lhs p = (Ok lhs, p)"
    if "at t p" "tk_kind t \<noteq> AndAnd" "tk_kind t \<noteq> OrOr" for t p lhs
    using that by (simp add: k peek_kind_then peek_at)
  have id_paced: "paced (pgood B b M) (at t) n (andThen (list_item_loop pc k lhs) f) 1"
    if "tk_kind t \<noteq> AndAnd" "tk_kind t \<noteq> OrOr" "\<And>a. paced (pgood B b M) (at t) n (f a) 1"
    for t lhs and f :: "command \<Rightarrow> command pact"
    using that by (fastforce simp: paced_def andThen_def id)
  show ?thesis
    unfolding feeds_def
  proof (intro conjI allI impI)
    show "paced (pgood B b M) anywhere n (parse_list_item pc k) 0"
      unfolding parse_list_item_def by (intro paced_then0 [OF feeds_any [OF pl]] paced_then0 [OF loop] amp) simp
    show "paced (pgood B b M) (at t) n (parse_list_item pc k) 1" if t: "\<not> stuck_item (tk_kind t)" for t
    proof (cases "stuck_pipeline (tk_kind t)")
      case True
      show ?thesis
      proof (cases "tk_kind t = Amp")
        case amp: True
        show ?thesis
          unfolding parse_list_item_def
          by (intro paced_stuck_then [OF pl True] id_paced amp_at amp) (simp_all add: amp)
      next
        case False
        then have "tk_kind t = AndAnd \<or> tk_kind t = OrOr" "tk_kind t \<noteq> Eof"
          using t True by (auto simp: stuck_item_def stuck_pipeline_def)
        then show ?thesis
          unfolding parse_list_item_def
          by (intro paced_stuck_then [OF pl True] paced_step [OF _ paced_item_loop_at [OF n pc] amp]) auto
      qed
    next
      case False
      then have ne: "tk_kind t \<noteq> Eof" by (auto simp: stuck_pipeline_def)
      show ?thesis
        unfolding parse_list_item_def
        by (rule paced_step [OF ne feeds_at [OF pl False] paced_then0 [OF loop amp]]) auto
    qed
    show "\<exists>c. parse_list_item pc k p = (Ok c, p)" if st: "at t p" "stuck_item (tk_kind t)" for t p
    proof -
      have e: "stuck_pipeline (tk_kind t)" "tk_kind t \<noteq> AndAnd" "tk_kind t \<noteq> OrOr" "tk_kind t \<noteq> Amp"
        using st(2) by (auto simp: stuck_item_def stuck_pipeline_def)
      obtain c where "parse_pipeline_cmd pc k p = (Ok c, p)" using feeds_stuck [OF pl st(1) e(1)] by blast
      then show ?thesis
        using st(1) e id [OF st(1) e(2,3)]
        by (simp add: parse_list_item_def andThen_Ok peek_kind_then peek_at)
    qed
  qed
qed

lemma paced_script_loop:
  "n + 2 \<le> k \<Longrightarrow> feeds ends_command (pgood B b M) n pc \<Longrightarrow> paced (pgood B b M) P n (script_loop pc k cmds) 0"
proof (induction k arbitrary: n cmds P)
  case (Suc k)
  have n: "n < k" using Suc.prems(1) by simp
  note item = feeds_item [OF n Suc.prems(2)]
  have pc: "feeds ends_command (pgood B b M) (n - 1) pc" using Suc.prems(2) by (rule feeds_le) simp
  have loop: "paced (pgood B b M) Q (n - 1) (script_loop pc k cs) 0" if "0 < n" for Q cs
    using Suc.prems(1) that by (intro Suc.IH [OF _ pc]) simp
  have nl: "paced (pgood B b M) Q i (skip_newlines k False) 0" if "i \<le> n" for Q i
    using n that by (intro paced_skip_newlines) simp
  have turn: "paced (pgood B b M) (at t) n (andThen (parse_list_item pc k) (\<lambda>c.
        andThen skip_list_separator (\<lambda>_. andThen (skip_newlines k False) (\<lambda>_. script_loop pc k (cmds @ [c]))))) 0"
    if t: "tk_kind t \<notin> {Eof, RParen, RBrace}" for t
  proof -
    have ne: "tk_kind t \<noteq> Eof" using t by simp
    consider "\<not> stuck_item (tk_kind t)" | "stuck_item (tk_kind t)" "tk_kind t = Semi"
      | "stuck_item (tk_kind t)" "tk_kind t = Newline"
      using t by (auto simp: stuck_item_def)
    then show ?thesis
    proof cases
      case 1
      show ?thesis
        by (rule paced_step [OF ne feeds_at [OF item 1]])
           (auto intro!: paced_then0 [OF paced_separator] paced_then0 [OF nl] loop [unfolded One_nat_def])
    next
      case 2
      show ?thesis
        by (rule paced_stuck_then [OF item 2(1)], rule paced_step [OF ne paced_separator_semi [OF 2(2)]])
           (auto intro!: paced_then0 [OF nl] loop [unfolded One_nat_def])
    next
      case 3
      have sep: "skip_list_separator p = (Ok False, p)" if "at t p" for p
        using that 3(2) by (simp add: skip_list_separator_def peek_kind_then peek_at)
      have "paced (pgood B b M) (at t) n (andThen (skip_newlines k False) (\<lambda>_. script_loop pc k cs)) 0" for cs
        by (rule paced_step [OF ne paced_skip_newline [OF n 3(2)] loop]) auto
      then have "paced (pgood B b M) (at t) n (andThen skip_list_separator (\<lambda>_. andThen (skip_newlines k False)
          (\<lambda>_. script_loop pc k cs))) 0" for cs
        by (auto simp: paced_def andThen_Ok [of skip_list_separator, OF sep])
      then show ?thesis by (intro paced_stuck_then [OF item 3(1)])
    qed
  qed
  show ?case
    unfolding script_loop.simps peek_kind_then
    by (rule paced_peek) (use turn in \<open>auto intro: paced_ret\<close>)
qed simp

lemma paced_script:
  assumes "n + 2 \<le> k" "feeds ends_command (pgood B b M) n pc"
  shows "paced (pgood B b M) P n (parse_script pc k) 0"
  unfolding parse_script_def using assms
  by (intro paced_then0 [OF paced_skip_newlines] paced_script_loop) auto

lemma feeds_command:
  assumes cb: "cb_good B b M cb"
  shows "n + 2 \<le> k \<Longrightarrow> feeds ends_command (pgood B b M) n (parse_command cb k)"
proof (induction k arbitrary: n)
  case (Suc k)
  have n: "n < k" using Suc.prems by simp
  have sep: "paced (pgood B b M) P i skip_list_separator 0"
    and nl: "i \<le> n \<Longrightarrow> paced (pgood B b M) P i (skip_newlines k False) 0" for P i
    using n by (auto intro: paced_separator paced_skip_newlines)
  have body: "paced (pgood B b M) P (n - 1) (parse_script (parse_command cb k) k) 0" if "0 < n" for P
    using Suc.prems that by (intro paced_script Suc.IH) auto
  have sub: "paced (pgood B b M) (at t) n (parse_subshell (parse_script (parse_command cb k) k) k) 1"
    if "tk_kind t = LParen" for t
    unfolding parse_subshell_def peek_span_then
    by (intro paced_peek_at paced_take0 paced_then0 [OF nl] paced_then0 [OF body] paced_peek)
       (use that in \<open>auto intro!: paced_take0 paced_ret paced_fail\<close>)
  have group: "paced (pgood B b M) (at t) n (parse_group (parse_script (parse_command cb k) k) k) 1"
    if "tk_kind t = LBrace" for t
    unfolding parse_group_def peek_span_then
    by (intro paced_peek_at paced_take0 paced_then0 [OF nl] paced_then0 [OF body] paced_then0 [OF sep] paced_peek)
       (use that in \<open>auto intro!: paced_take0 paced_ret paced_fail\<close>)
  have simple_at: "paced (pgood B b M) (at t) n (parse_simple_command cb k) 1"
    if "\<not> ends_command (tk_kind t)" for t
    unfolding parse_simple_command_def by (rule paced_simple_at [OF cb n that])
  obtain j where k: "k = Suc j" using n by (cases k) auto
  have stuck: "\<exists>c. parse_command cb (Suc k) p = (Ok c, p)" if "at t p" "ends_command (tk_kind t)" for t p
    using that by (auto simp: peek_at ends_command_def unsupported_def parse_simple_command_def k)
  have turn: "paced (pgood B b M) (at t) n (parse_command cb (Suc k)) 1" if t: "\<not> ends_command (tk_kind t)" for t
    unfolding parse_command.simps
    by (rule paced_peek_at) (use t sub group simple_at in \<open>auto split: option.split intro!: paced_fail\<close>)
  have any: "paced (pgood B b M) (at t) n (parse_command cb (Suc k)) 0" for t
  proof (cases "ends_command (tk_kind t)")
    case True
    show ?thesis
    proof (rule pacedI)
      fix p assume p: "pgood B b M p" "at t p"
      then obtain c where "parse_command cb (Suc k) p = (Ok c, p)" using stuck True by blast
      then show "settled (fst (parse_command cb (Suc k) p)) \<and> pgood B b M (snd (parse_command cb (Suc k) p))
        \<and> (\<forall>a. fst (parse_command cb (Suc k) p) = Ok a \<longrightarrow> rm (snd (parse_command cb (Suc k) p)) + 0 \<le> rm p)"
        using p by simp
    qed
  next
    case False
    then show ?thesis using turn [of t] by (blast intro: paced_weaken le_refl zero_le)
  qed
  have "parse_command cb (Suc k) = andThen p_peek (\<lambda>_. parse_command cb (Suc k))"
    unfolding parse_command.simps p_peek_twice ..
  then have "paced (pgood B b M) anywhere n (parse_command cb (Suc k)) 0"
    using paced_peek [of B b M n "\<lambda>_. parse_command cb (Suc k)" 0 anywhere, OF any] by metis
  then show ?case using stuck turn by (simp add: feeds_def del: parse_command.simps)
qed simp

section \<open>A whole parse\<close>

lemma total_fill_borrowed: "total_on (tgood B True) (fill_heredoc_bodies cb script)"
  by (simp add: total_on_def fill_heredoc_bodies_def tgood_def)

lemma total_grammar:
  assumes cb: "cb_good B b (length src) cb" and b: "b \<or> length src \<le> B"
  shows "total_on (tgood B b) (\<lambda>t. case parse_script (parse_command cb (grammar_fuel src)) (grammar_fuel src)
           (parser_new src t) of (r, p) \<Rightarrow> (r, ps_tls p))"
  unfolding total_on_def
proof (intro allI impI)
  fix t assume t: "tgood B b t"
  let ?m = "parse_script (parse_command cb (grammar_fuel src)) (grammar_fuel src)"
  let ?p = "parser_new src t"
  have g: "pgood B b (length src) ?p" "rm ?p \<le> length src"
    using t b by (auto simp: pgood_def parser_new_def lexer_new_def rm_def left_def remaining_def)
  have "paced (pgood B b (length src)) anywhere (length src) ?m 0"
    by (intro paced_script feeds_command [OF cb]) (simp_all add: grammar_fuel_def)
  from pacedD [OF this g(1) _ g(2)]
  show "settled (fst (case ?m ?p of (r, p) \<Rightarrow> (r, ps_tls p)))
      \<and> tgood B b (snd (case ?m ?p of (r, p) \<Rightarrow> (r, ps_tls p)))"
    by (auto simp: pgood_def split: prod.split)
qed

lemma parse_n_borrowed: "length src < n \<Longrightarrow> total_on (tgood B True) (parse_n n src)"
proof (induction n arbitrary: src)
  case (Suc n)
  have "cb_good B True (length src) (parse_n n)"
    using Suc by (auto simp: cb_good_def)
  then show ?case
    unfolding parse_n.simps parse_with_def by (intro total_andThen total_grammar total_fill_borrowed) auto
qed simp

lemma parse_n_total:
  "length src \<le> B \<Longrightarrow> length src + B < n \<Longrightarrow> total_on (tgood B False) (parse_n n src)"
proof (induction n arbitrary: src)
  case (Suc n)
  have "cb_good B False (length src) (parse_n n)"
    using Suc by (auto simp: cb_good_def)
  moreover have "cb_good B True B (parse_n n)"
    using Suc.prems by (auto simp: cb_good_def intro!: parse_n_borrowed)
  ultimately show ?case
    using Suc.prems unfolding parse_n.simps parse_with_def
    by (intro total_andThen total_grammar total_fill_bodies) auto
qed simp

section \<open>Properties\<close>

lemma parse_settled:
  assumes "\<not> hd_borrowed t"
  shows "settled (fst (parse src t)) \<and> \<not> hd_borrowed (snd (parse src t))"
proof -
  define S where "S = set (length src # map (\<lambda>(_, b). length b) (hd_queue t))"
  have fin: "finite S" and src: "length src \<in> S" by (auto simp: S_def)
  have "length body \<le> Max S" if "(q, body) \<in> set (hd_queue t)" for q body
    by (rule Max_ge [OF fin]) (use that in \<open>force simp: S_def\<close>)
  then have "tgood (Max S) False t"
    using assms by (auto simp: tgood_def)
  moreover have "total_on (tgood (Max S) False) (parse_n (nesting src t) src)"
    by (rule parse_n_total) (use Max_ge [OF fin src] in \<open>auto simp: nesting_def S_def\<close>)
  ultimately show ?thesis
    using total_onD by (fastforce simp: parse_def tgood_def)
qed

text \<open>
  C3: parsing terminates. With the heredoc queue free, as it is at every call from outside the
  parser, \<open>parse\<close> ends in a script, an error or a panic for every source, whatever is left in the
  queue: the fuel of its loops and the bound on nested parses are enough for every input. The
  queue is free again afterwards; after a panic it is the unwinding that frees it.
\<close>

theorem parse_terminates:
  assumes "\<not> hd_borrowed t"
  shows "settled (fst (parse src t)) \<and> \<not> hd_borrowed (snd (parse src t))"
  by (rule parse_settled [OF assms])

theorem parse_terminates_witness:
  "settled (fst (parse ''echo $(ls | wc -l) && (cd /; x <<E)'' tls_init))"
  using parse_terminates [of tls_init] by (simp add: tls_init_def)

end
