(* ===== verification/Shell.thy ===== *)
theory Shell
  imports Vfs Parser
begin

text \<open>
  The shell's state and its parts: the environment (\<open>env.rs\<close>), the in-memory streams (\<open>io.rs\<close>),
  the program registry (\<open>registry.rs\<close>), the context a program runs in and the shell record
  (\<open>shell.rs\<close>). A \<open>VecWriter\<close> is a handle on a shared buffer: it is an index into the list of
  all buffers, which the shell state holds, so that two handles on one buffer see each other's
  writes. The thread-local heredoc queue of the parser is part of the state as well. A program is
  a function from its arguments to a computation on its context; programs the host registers
  are values of the same type.
\<close>

section \<open>Errors\<close>

datatype ShellError = VfsE VfsError | ParseE string | CommandNotFound string | IoE string | Exit int

fun show_shell_error :: "ShellError \<Rightarrow> string" where
  "show_shell_error (VfsE e) = ''VFS error: '' @ show_vfs_error e"
| "show_shell_error (ParseE s) = ''parse error: '' @ s"
| "show_shell_error (CommandNotFound s) = ''command not found: '' @ s"
| "show_shell_error (IoE s) = ''io error: '' @ s"
| "show_shell_error (Exit n) = ''exit '' @ show_int n"

text \<open>The \<open>?\<close> operator on a \<open>VfsError\<close> goes through \<open>From\<close>; \<open>attempt\<close> keeps the error as a value.\<close>

definition map_err :: "('e \<Rightarrow> 'f) \<Rightarrow> ('s, 'a, 'e) act \<Rightarrow> ('s, 'a, 'f) act" where
  "map_err g m = (\<lambda>s. case m s of (r, s') \<Rightarrow>
     ((case r of Ok a \<Rightarrow> Ok a | Err e \<Rightarrow> Err (g e) | Panic \<Rightarrow> Panic
       | OutOfFuel \<Rightarrow> OutOfFuel | SourceLimit \<Rightarrow> SourceLimit), s'))"

definition attempt :: "('s, 'a, 'e) act \<Rightarrow> ('s, 'e + 'a, 'f) act" where
  "attempt m = (\<lambda>s. case m s of (r, s') \<Rightarrow>
     ((case r of Ok a \<Rightarrow> Ok (Inr a) | Err e \<Rightarrow> Ok (Inl e) | Panic \<Rightarrow> Panic
       | OutOfFuel \<Rightarrow> OutOfFuel | SourceLimit \<Rightarrow> SourceLimit), s'))"

definition settle :: "'e + 'a \<Rightarrow> ('s, 'a, 'e) act" where
  "settle x = (case x of Inl e \<Rightarrow> fail e | Inr a \<Rightarrow> ret a)"

section \<open>Environment\<close>

type_synonym EnvMap = "(string, string) smap"

definition env_new :: EnvMap where
  "env_new = []"

definition env_set :: "string \<Rightarrow> string \<Rightarrow> EnvMap \<Rightarrow> EnvMap" where
  "env_set k v m = sm_insert k v m"

definition env_get :: "string \<Rightarrow> EnvMap \<Rightarrow> string option" where
  "env_get k m = sm_get m k"

definition env_unset :: "string \<Rightarrow> EnvMap \<Rightarrow> EnvMap" where
  "env_unset k m = sm_remove k m"

definition env_to_vec :: "EnvMap \<Rightarrow> (string \<times> string) list" where
  "env_to_vec m = m"

section \<open>Streams\<close>

type_synonym VecWriter = nat

definition vw_new :: "string list \<Rightarrow> VecWriter \<times> string list" where
  "vw_new bufs = (length bufs, bufs @ [[]])"

definition vw_bytes :: "VecWriter \<Rightarrow> string list \<Rightarrow> string" where
  "vw_bytes w bufs = (if w < length bufs then bufs ! w else [])"

definition vw_write :: "VecWriter \<Rightarrow> string \<Rightarrow> string list \<Rightarrow> string list" where
  "vw_write w data bufs = bufs[w := vw_bytes w bufs @ data]"

record BytesReader =
  br_data :: string
  br_pos :: nat

definition reader_new :: "string \<Rightarrow> BytesReader" where
  "reader_new data = \<lparr>br_data = data, br_pos = 0\<rparr>"

definition reader_rest :: "BytesReader \<Rightarrow> string" where
  "reader_rest r = drop (br_pos r) (br_data r)"

text \<open>\<open>poll_read\<close> into a buffer with room for \<open>n\<close> bytes, and \<open>read_to_end\<close> over it.\<close>

definition poll_read :: "nat \<Rightarrow> BytesReader \<Rightarrow> string \<times> BytesReader" where
  "poll_read n r =
     (let to_read = min (length (br_data r) - br_pos r) n in
      (take to_read (reader_rest r), r\<lparr>br_pos := br_pos r + to_read\<rparr>))"

definition read_to_end :: "BytesReader \<Rightarrow> string \<times> BytesReader" where
  "read_to_end r = poll_read (length (br_data r)) r"

text \<open>Passing an \<open>Io\<close> by value is \<open>share\<close>: the same buffers, a cursor of its own.\<close>

record Io =
  io_stdin :: BytesReader
  io_stdout :: VecWriter
  io_stderr :: VecWriter

section \<open>Programs and the registry\<close>

record 'h ProgramContext =
  cx_env :: EnvMap
  cx_cwd :: string
  cx_aliases :: "(string, string) smap"
  cx_fs :: "'h Vfs"
  cx_bufs :: "string list"
  cx_io :: Io

type_synonym ('h, 'a) cact = "('h ProgramContext, 'a, ShellError) act"
type_synonym 'h program = "string list \<Rightarrow> ('h, int) cact"
type_synonym 'h ProgramRegistry = "(string, 'h program) smap"

definition canonical_program_path :: "string \<Rightarrow> string" where
  "canonical_program_path name =
     (if str_contains SLASH name then normalize_path name else ''/usr/bin/'' @ name)"

definition registry_add :: "string \<Rightarrow> 'h program \<Rightarrow> 'h ProgramRegistry \<Rightarrow> 'h ProgramRegistry" where
  "registry_add name f programs = sm_insert (canonical_program_path name) f programs"

text \<open>The candidate paths of a name, in order.\<close>

definition search_paths :: "string \<Rightarrow> string \<Rightarrow> string list" where
  "search_paths name path_var =
     (if str_contains SLASH name then [normalize_path name]
      else map (\<lambda>dir. trim_end_matches SLASH dir @ ''/'' @ name) (split_on CHR '':'' path_var))"

fun first_path :: "('k, 'v) smap \<Rightarrow> 'k list \<Rightarrow> 'k option" where
  "first_path programs [] = None"
| "first_path programs (p # ps) = (if sm_get programs p \<noteq> None then Some p else first_path programs ps)"

definition find_path :: "'h ProgramRegistry \<Rightarrow> string \<Rightarrow> string \<Rightarrow> string option" where
  "find_path programs name path_var = first_path programs (search_paths name path_var)"

definition resolve_program :: "'h ProgramRegistry \<Rightarrow> string \<Rightarrow> string \<Rightarrow> 'h program option" where
  "resolve_program programs name path_var =
     (case find_path programs name path_var of Some p \<Rightarrow> sm_get programs p | None \<Rightarrow> None)"

section \<open>The program context\<close>

definition ctx_get_env :: "string \<Rightarrow> ('h, string option) cact" where
  "ctx_get_env k = gets (\<lambda>c. env_get k (cx_env c))"

definition ctx_set_env :: "string \<Rightarrow> string \<Rightarrow> ('h, unit) cact" where
  "ctx_set_env k v = modify (cx_env_update (env_set k v))"

definition ctx_unset_env :: "string \<Rightarrow> ('h, unit) cact" where
  "ctx_unset_env k = modify (cx_env_update (env_unset k))"

definition ctx_env_snapshot :: "('h, EnvMap) cact" where
  "ctx_env_snapshot = gets cx_env"

definition ctx_cwd :: "('h, string) cact" where
  "ctx_cwd = gets cx_cwd"

definition ctx_set_cwd :: "string \<Rightarrow> ('h, unit) cact" where
  "ctx_set_cwd path = modify (cx_cwd_update (\<lambda>_. path))"

definition ctx_get_alias :: "string \<Rightarrow> ('h, string option) cact" where
  "ctx_get_alias k = gets (\<lambda>c. sm_get (cx_aliases c) k)"

definition ctx_set_alias :: "string \<Rightarrow> string \<Rightarrow> ('h, unit) cact" where
  "ctx_set_alias k v = modify (cx_aliases_update (sm_insert k v))"

definition ctx_unset_alias :: "string \<Rightarrow> ('h, unit) cact" where
  "ctx_unset_alias k = modify (cx_aliases_update (sm_remove k))"

definition ctx_aliases_snapshot :: "('h, (string, string) smap) cact" where
  "ctx_aliases_snapshot = gets cx_aliases"

text \<open>The file operations resolve their path against the working directory; their result is a value.\<close>

definition ctx_fs :: "('h, 'a) vact \<Rightarrow> ('h, VfsError + 'a) cact" where
  "ctx_fs m = (\<lambda>c. case attempt m (cx_fs c) of (r, v) \<Rightarrow> (r, c\<lparr>cx_fs := v\<rparr>))"

definition ctx_read_file :: "string \<Rightarrow> ('h, VfsError + string) cact" where
  "ctx_read_file path = (\<lambda>c. ctx_fs (read_file (resolve_path (cx_cwd c) path)) c)"

definition ctx_write_file :: "string \<Rightarrow> string \<Rightarrow> ('h, VfsError + unit) cact" where
  "ctx_write_file path data = (\<lambda>c. ctx_fs (write_file (resolve_path (cx_cwd c) path) data) c)"

definition ctx_list_dir :: "string \<Rightarrow> ('h, VfsError + string list) cact" where
  "ctx_list_dir path = (\<lambda>c. ctx_fs (list_dir (resolve_path (cx_cwd c) path)) c)"

definition ctx_stat :: "string \<Rightarrow> ('h, VfsError + Stat) cact" where
  "ctx_stat path = (\<lambda>c. ctx_fs (stat (resolve_path (cx_cwd c) path)) c)"

definition ctx_mkdir :: "string \<Rightarrow> bool \<Rightarrow> ('h, VfsError + unit) cact" where
  "ctx_mkdir path parents = (\<lambda>c. ctx_fs (mkdir (resolve_path (cx_cwd c) path) parents) c)"

definition ctx_remove :: "string \<Rightarrow> bool \<Rightarrow> ('h, VfsError + unit) cact" where
  "ctx_remove path recursive = (\<lambda>c. ctx_fs (remove (resolve_path (cx_cwd c) path) recursive) c)"

definition ctx_rename :: "string \<Rightarrow> string \<Rightarrow> ('h, VfsError + unit) cact" where
  "ctx_rename from to = (\<lambda>c. ctx_fs (rename (resolve_path (cx_cwd c) from) (resolve_path (cx_cwd c) to)) c)"

definition ctx_copy :: "string \<Rightarrow> string \<Rightarrow> ('h, VfsError + unit) cact" where
  "ctx_copy from to = (\<lambda>c. ctx_fs (copy (resolve_path (cx_cwd c) from) (resolve_path (cx_cwd c) to)) c)"

definition ctx_out :: "string \<Rightarrow> ('h, unit) cact" where
  "ctx_out s = modify (\<lambda>c. c\<lparr>cx_bufs := vw_write (io_stdout (cx_io c)) s (cx_bufs c)\<rparr>)"

definition ctx_err :: "string \<Rightarrow> ('h, unit) cact" where
  "ctx_err s = modify (\<lambda>c. c\<lparr>cx_bufs := vw_write (io_stderr (cx_io c)) s (cx_bufs c)\<rparr>)"

definition ctx_read_stdin :: "('h, string) cact" where
  "ctx_read_stdin =
     (\<lambda>c. case read_to_end (io_stdin (cx_io c)) of (data, r) \<Rightarrow>
        (Ok data, c\<lparr>cx_io := (cx_io c)\<lparr>io_stdin := r\<rparr>\<rparr>))"

section \<open>The shell\<close>

record 'h Shell =
  sh_fs :: "'h Vfs"
  sh_registry :: "'h ProgramRegistry"
  sh_env :: EnvMap
  sh_cwd :: string
  sh_aliases :: "(string, string) smap"
  sh_last_exit :: int
  sh_bufs :: "string list"
  sh_tls :: tls

type_synonym ('h, 'a) sact = "('h Shell, 'a, ShellError) act"

definition path_var :: "'h Shell \<Rightarrow> string" where
  "path_var sh = (case env_get ''PATH'' (sh_env sh) of Some v \<Rightarrow> v | None \<Rightarrow> ''/usr/bin:/bin:/usr/local/bin'')"

definition add_program :: "string \<Rightarrow> 'h program \<Rightarrow> 'h Shell \<Rightarrow> 'h Shell" where
  "add_program name f sh = sh\<lparr>sh_registry := registry_add name f (sh_registry sh)\<rparr>"

definition mount :: "string \<Rightarrow> 'h MountPoint \<Rightarrow> 'h Shell \<Rightarrow> 'h Shell" where
  "mount virtual_path point sh = sh\<lparr>sh_fs := add_mount virtual_path point (sh_fs sh)\<rparr>"

definition set_env :: "string \<Rightarrow> string \<Rightarrow> 'h Shell \<Rightarrow> 'h Shell" where
  "set_env k v sh = sh\<lparr>sh_env := env_set k v (sh_env sh)\<rparr>"

definition get_env :: "string \<Rightarrow> 'h Shell \<Rightarrow> string option" where
  "get_env k sh = env_get k (sh_env sh)"

text \<open>Running a filesystem operation, a fresh buffer, a write and the parser in the shell's state.\<close>

definition sh_vfs :: "('h, 'a) vact \<Rightarrow> ('h Shell, 'a, VfsError) act" where
  "sh_vfs m = (\<lambda>sh. case m (sh_fs sh) of (r, v) \<Rightarrow> (r, sh\<lparr>sh_fs := v\<rparr>))"

definition sh_new_writer :: "('h, VecWriter) sact" where
  "sh_new_writer = (\<lambda>sh. case vw_new (sh_bufs sh) of (w, bufs) \<Rightarrow> (Ok w, sh\<lparr>sh_bufs := bufs\<rparr>))"

definition sh_write :: "VecWriter \<Rightarrow> string \<Rightarrow> ('h, unit) sact" where
  "sh_write w s = modify (sh_bufs_update (vw_write w s))"

definition sh_bytes :: "VecWriter \<Rightarrow> ('h, string) sact" where
  "sh_bytes w = gets (\<lambda>sh. vw_bytes w (sh_bufs sh))"

definition sh_parse :: "string \<Rightarrow> ('h Shell, script, parse_error) act" where
  "sh_parse src = (\<lambda>sh. case parse src (sh_tls sh) of (r, t) \<Rightarrow> (r, sh\<lparr>sh_tls := t\<rparr>))"

definition set_last_exit :: "int \<Rightarrow> ('h, unit) sact" where
  "set_last_exit code = modify (sh_last_exit_update (\<lambda>_. code))"

end
