(* ===== verification/BuiltinCore.thy ===== *)
theory BuiltinCore
  imports Shell
begin

text \<open>
  What the built-in programs of \<open>builtins.rs\<close> share: the loops of the code as folds, option
  scanning, the text helpers (escapes, character sets, field lists, globs, numbers) and the readers
  of input. A Rust \<open>char\<close> is the list of its UTF-8 bytes. \<open>usize\<close> has 32 bits on the target.
\<close>

section \<open>Loops\<close>

text \<open>A loop over a list with an accumulator, and one whose body may leave with a \<open>VfsError\<close>.\<close>

fun fold_act :: "('a \<Rightarrow> 'x \<Rightarrow> ('s, 'a, 'e) act) \<Rightarrow> 'a \<Rightarrow> 'x list \<Rightarrow> ('s, 'a, 'e) act" where
  "fold_act f a [] = ret a"
| "fold_act f a (x # xs) = andThen (f a x) (\<lambda>b. fold_act f b xs)"

definition try_vfs :: "('s, VfsError + 'a, 'e) act \<Rightarrow> ('a \<Rightarrow> ('s, VfsError + 'b, 'e) act) \<Rightarrow> ('s, VfsError + 'b, 'e) act" where
  "try_vfs m f = andThen m (\<lambda>r. case r of Inl e \<Rightarrow> ret (Inl e) | Inr a \<Rightarrow> f a)"

fun try_each :: "('x \<Rightarrow> ('s, VfsError + unit, 'e) act) \<Rightarrow> 'x list \<Rightarrow> ('s, VfsError + unit, 'e) act" where
  "try_each f [] = ret (Inr ())"
| "try_each f (x # xs) = try_vfs (f x) (\<lambda>_. try_each f xs)"

text \<open>
  Option scanning: a step sees an argument and the ones after it; it answers with a message for
  standard error, or the new options and how many of the next arguments it took.
\<close>

type_synonym 'o scan = "'o \<Rightarrow> string \<Rightarrow> string list \<Rightarrow> string + 'o \<times> nat"

fun scan_args :: "'o scan \<Rightarrow> 'o \<Rightarrow> string list \<Rightarrow> string + 'o" where
  "scan_args f opts [] = Inr opts"
| "scan_args f opts (a # as) =
     (case f opts a as of
        Inl m \<Rightarrow> Inl m
      | Inr (opts', k) \<Rightarrow> scan_args f opts' (drop k as))"

text \<open>The characters of a cluster of flags, after the dash.\<close>

fun scan_chars :: "('o \<Rightarrow> string \<Rightarrow> string + 'o) \<Rightarrow> 'o \<Rightarrow> string list \<Rightarrow> string + 'o" where
  "scan_chars f opts [] = Inr opts"
| "scan_chars f opts (c # cs) =
     (case f opts c of Inl m \<Rightarrow> Inl m | Inr opts' \<Rightarrow> scan_chars f opts' cs)"

definition cluster :: "string \<Rightarrow> string list" where
  "cluster a = drop 1 (utf8_chars a)"

definition is_flags :: "string \<Rightarrow> bool" where
  "is_flags a = (starts_with a ''-'' \<and> length a > 1 \<and> \<not> starts_with a ''--'')"

definition took :: "nat \<Rightarrow> string + 'o \<Rightarrow> string + 'o \<times> nat" where
  "took k r = (case r of Inl m \<Rightarrow> Inl m | Inr o' \<Rightarrow> Inr (o', k))"

text \<open>A message on standard error that ends the program with code 1; \<open>args[1..]\<close> of the code.\<close>

definition bail :: "string \<Rightarrow> ('h, int) cact" where
  "bail msg = andThen (ctx_err (msg @ [NL])) (\<lambda>_. ret 1)"

definition with_options :: "string + 'o \<Rightarrow> ('o \<Rightarrow> ('h, int) cact) \<Rightarrow> ('h, int) cact" where
  "with_options r f = (case r of Inl m \<Rightarrow> bail m | Inr opts \<Rightarrow> f opts)"

definition args_tail :: "string list \<Rightarrow> ('h, string list) cact" where
  "args_tail args = (case args of [] \<Rightarrow> panic | _ # rest \<Rightarrow> ret rest)"

definition out_line :: "string \<Rightarrow> ('h, unit) cact" where
  "out_line s = ctx_out (s @ [NL])"

definition out_lines :: "string list \<Rightarrow> ('h, unit) cact" where
  "out_lines ls = for_each out_line ls"

section \<open>Text\<close>

definition pad_left :: "nat \<Rightarrow> string \<Rightarrow> string" where
  "pad_left w s = replicate (w - length s) CHR '' '' @ s"

definition basename :: "string \<Rightarrow> string" where
  "basename path = last (split_on SLASH path)"

definition parse_usize :: "string \<Rightarrow> nat option" where
  "parse_usize s = parse_unsigned 32 s"

definition first_char :: "string \<Rightarrow> string option" where
  "first_char s = (case utf8_chars s of [] \<Rightarrow> None | c # _ \<Rightarrow> Some c)"

definition escape_of :: "string \<Rightarrow> string" where
  "escape_of c =
     (if c = ''n'' then [NL] else if c = ''t'' then [TAB] else if c = ''r'' then [CR]
      else if c = [BSLASH] then [BSLASH] else if c = ''a'' then [CHR 0x07]
      else if c = ''b'' then [CHR 0x08] else if c = ''e'' \<or> c = ''E'' then [CHR 0x1B]
      else if c = ''f'' then [CHR 0x0C] else if c = ''v'' then [CHR 0x0B]
      else if c = ''0'' then [CHR 0x00] else BSLASH # c)"

fun escapes_loop :: "string list \<Rightarrow> string" where
  "escapes_loop [] = []"
| "escapes_loop [c] = c"
| "escapes_loop (c # d # cs) =
     (if c \<noteq> [BSLASH] then c @ escapes_loop (d # cs) else escape_of d @ escapes_loop cs)"

definition interpret_escapes :: "string \<Rightarrow> string" where
  "interpret_escapes s = escapes_loop (utf8_chars s)"

text \<open>\<open>char as u32\<close> and \<open>char::from_u32\<close>.\<close>

definition code_point :: "string \<Rightarrow> nat" where
  "code_point c =
     (case map byte c of
        [a] \<Rightarrow> a
      | [a, b] \<Rightarrow> (a - 192) * 64 + (b - 128)
      | [a, b, d] \<Rightarrow> (a - 224) * 4096 + (b - 128) * 64 + (d - 128)
      | [a, b, d, e] \<Rightarrow> (a - 240) * 262144 + (b - 128) * 4096 + (d - 128) * 64 + (e - 128)
      | _ \<Rightarrow> 0)"

definition from_u32 :: "nat \<Rightarrow> string option" where
  "from_u32 n =
     (if n < 128 then Some [char_of n]
      else if n < 2048 then Some [char_of (192 + n div 64), char_of (128 + n mod 64)]
      else if n < 65536 then
        (if 55296 \<le> n \<and> n < 57344 then None
         else Some [char_of (224 + n div 4096), char_of (128 + n div 64 mod 64), char_of (128 + n mod 64)])
      else if n < 1114112 then
        Some [char_of (240 + n div 262144), char_of (128 + n div 4096 mod 64),
              char_of (128 + n div 64 mod 64), char_of (128 + n mod 64)]
      else None)"

definition char_range :: "string \<Rightarrow> string \<Rightarrow> string list" where
  "char_range a b = List.map_filter from_u32 [code_point a ..< Suc (code_point b)]"

definition charset_escape :: "string \<Rightarrow> string" where
  "charset_escape c = (if c = ''n'' then [NL] else if c = ''t'' then [TAB] else c)"

fun charset_loop :: "string list \<Rightarrow> string list" where
  "charset_loop [] = []"
| "charset_loop [c] = [c]"
| "charset_loop [c, d] = (if c = [BSLASH] then [charset_escape d] else c # charset_loop [d])"
| "charset_loop (c # d # e # cs) =
     (if c = [BSLASH] then charset_escape d # charset_loop (e # cs)
      else if d = ''-'' then char_range c e @ charset_loop cs
      else c # charset_loop (d # e # cs))"

definition expand_charset :: "string \<Rightarrow> string list" where
  "expand_charset s = charset_loop (utf8_chars s)"

definition field_number :: "string \<Rightarrow> nat" where
  "field_number s = (case parse_usize s of Some n \<Rightarrow> n | None \<Rightarrow> 1) - 1"

definition parse_field :: "string \<Rightarrow> nat \<times> nat option" where
  "parse_field part =
     (case find_pos (\<lambda>c. c = CHR ''-'') part of
        Some dash \<Rightarrow>
          (field_number (take dash part),
           if dash + 1 < length part
           then map_option (\<lambda>n. n - 1) (parse_usize (drop (dash + 1) part)) else None)
      | None \<Rightarrow> (field_number part, Some (field_number part)))"

definition parse_fields :: "string \<Rightarrow> (nat \<times> nat option) list" where
  "parse_fields spec = map parse_field (split_on CHR '','' spec)"

definition field_in_range :: "nat \<Rightarrow> (nat \<times> nat option) list \<Rightarrow> bool" where
  "field_in_range idx ranges =
     list_ex (\<lambda>(lo, hi). case hi of Some h \<Rightarrow> lo \<le> idx \<and> idx \<le> h | None \<Rightarrow> lo \<le> idx) ranges"

text \<open>The elements whose position is in a range.\<close>

definition select_fields :: "(nat \<times> nat option) list \<Rightarrow> 'a list \<Rightarrow> 'a list" where
  "select_fields ranges xs = map snd (filter (\<lambda>(i, _). field_in_range i ranges) (enumerate 0 xs))"

text \<open>\<open>split\<close> on a \<open>char\<close> of any length.\<close>

fun split_at_elem :: "'a \<Rightarrow> 'a list \<Rightarrow> 'a list list" where
  "split_at_elem d [] = [ [] ]"
| "split_at_elem d (c # s) =
     (if c = d then [] # split_at_elem d s
      else (case split_at_elem d s of [] \<Rightarrow> [ [c] ] | p # ps \<Rightarrow> (c # p) # ps))"

definition split_char :: "string \<Rightarrow> string \<Rightarrow> string list" where
  "split_char d s = map concat (split_at_elem d (utf8_chars s))"

function glob_match_bytes :: "string \<Rightarrow> string \<Rightarrow> bool" where
  "glob_match_bytes [] [] = True"
| "glob_match_bytes [] (t # ts) = False"
| "glob_match_bytes (p # ps) [] = (p = CHR ''*'' \<and> glob_match_bytes ps [])"
| "glob_match_bytes (p # ps) (t # ts) =
     (if p = CHR ''*'' then glob_match_bytes ps (t # ts) \<or> glob_match_bytes (p # ps) ts
      else if p = CHR ''?'' then glob_match_bytes ps ts
      else p = t \<and> glob_match_bytes ps ts)"
  by pat_completeness auto
termination by (relation "measure (\<lambda>(p, t). length p + length t)") auto

definition glob_match :: "string \<Rightarrow> string \<Rightarrow> bool" where
  "glob_match pattern s = glob_match_bytes pattern s"

definition parse_num :: "string \<Rightarrow> int" where
  "parse_num s = (case parse_signed 64 (trim s) of Some n \<Rightarrow> n | None \<Rightarrow> 0)"

section \<open>Input\<close>

definition text_lines :: "string \<Rightarrow> string list" where
  "text_lines data = lines (from_utf8_lossy data)"

definition collect_step :: "string list \<times> int \<Rightarrow> string \<Rightarrow> ('h, string list \<times> int) cact" where
  "collect_step acc path = (case acc of (ls, code) \<Rightarrow>
     andThen (ctx_read_file path) (\<lambda>r.
       case r of
         Inr data \<Rightarrow> ret (ls @ text_lines data, code)
       | Inl e \<Rightarrow> andThen (ctx_err (''cat: '' @ path @ '': '' @ show_vfs_error e @ [NL])) (\<lambda>_. ret (ls, 1))))"

definition collect_lines :: "string list \<Rightarrow> ('h, string list \<times> int) cact" where
  "collect_lines paths =
     (if paths = [] then andThen ctx_read_stdin (\<lambda>data. ret (text_lines data, 0))
      else fold_act collect_step ([], 0) paths)"

text \<open>
  The sources of \<open>cat\<close>, \<open>wc\<close> and \<open>sed\<close>: standard input, or each path; \<open>with_source\<close> runs the
  body on the bytes, or reports the error under the program's name and makes the code 1.
\<close>

definition sources :: "string list \<Rightarrow> string option list" where
  "sources paths = (if paths = [] then [None] else map Some paths)"

definition with_source :: "string \<Rightarrow> ('a \<Rightarrow> string option \<Rightarrow> string \<Rightarrow> ('h, 'a) cact)
    \<Rightarrow> 'a \<times> int \<Rightarrow> string option \<Rightarrow> ('h, 'a \<times> int) cact" where
  "with_source prog body acc source = (case acc of (a, code) \<Rightarrow>
     (case source of
        None \<Rightarrow> andThen ctx_read_stdin (\<lambda>data. andThen (body a source data) (\<lambda>b. ret (b, code)))
      | Some path \<Rightarrow>
          andThen (ctx_read_file path) (\<lambda>r.
            case r of
              Inr data \<Rightarrow> andThen (body a source data) (\<lambda>b. ret (b, code))
            | Inl e \<Rightarrow> andThen (ctx_err (prog @ '': '' @ path @ '': '' @ show_vfs_error e @ [NL]))
                         (\<lambda>_. ret (a, 1)))))"

text \<open>
  The recursive walk. Its depth is the depth of the tree it walks, which the host decides below a
  mount point: the first argument bounds it.
\<close>

fun walk_dir_inner :: "nat \<Rightarrow> string \<Rightarrow> string list \<Rightarrow> ('h, string list) cact" where
  "walk_dir_inner 0 dir acc = noFuel"
| "walk_dir_inner (Suc n) dir acc =
     andThen (ctx_list_dir dir) (\<lambda>r.
       case r of
         Inl _ \<Rightarrow> ret acc
       | Inr entries \<Rightarrow>
           fold_act (\<lambda>acc entry.
             let full = dir @ ''/'' @ entry in
             andThen (ctx_stat full) (\<lambda>s.
               case s of
                 Inr st \<Rightarrow> if is_dir st then walk_dir_inner n full acc else ret (acc @ [full])
               | Inl _ \<Rightarrow> ret acc)) acc (sort entries))"

definition walk_dir :: "nat \<Rightarrow> string \<Rightarrow> ('h, string list) cact" where
  "walk_dir n root = walk_dir_inner n root []"

end
