(* ===== verification/BuiltinsFs.thy ===== *)
theory BuiltinsFs
  imports BuiltinCore
begin

text \<open>
  The built-in programs that work on the filesystem: \<open>cat\<close>, \<open>ls\<close>, \<open>mkdir\<close>, \<open>rm\<close>, \<open>mv\<close>, \<open>cp\<close>,
  \<open>touch\<close> and \<open>find\<close>. A recursive walk takes a bound on its depth.
\<close>

text \<open>The error line of a program about one of its paths; the code is then 1.\<close>

definition path_error :: "string \<Rightarrow> string \<Rightarrow> VfsError \<Rightarrow> ('h, int) cact" where
  "path_error prog path e = bail (prog @ '': '' @ path @ '': '' @ show_vfs_error e)"

section \<open>cat\<close>

record cat_opts =
  cat_number :: bool
  cat_paths :: "string list"

definition cat_scan :: "cat_opts scan" where
  "cat_scan opts a as =
     (if a = ''-n'' then Inr (opts\<lparr>cat_number := True\<rparr>, 0)
      else if starts_with a ''-'' then Inl (''cat: unknown option: '' @ a)
      else Inr (opts\<lparr>cat_paths := cat_paths opts @ [a]\<rparr>, 0))"

definition cat_body :: "bool \<Rightarrow> nat \<Rightarrow> string option \<Rightarrow> string \<Rightarrow> ('h, nat) cact" where
  "cat_body number line_num source data =
     (if number
      then fold_act (\<lambda>n line. andThen (ctx_out (pad_left 6 (show_nat n) @ [TAB] @ line @ [NL])) (\<lambda>_. ret (n + 1)))
             line_num (text_lines data)
      else andThen (ctx_out data) (\<lambda>_. ret line_num))"

definition builtin_cat :: "'h program" where
  "builtin_cat args =
     with_options (scan_args cat_scan \<lparr>cat_number = False, cat_paths = []\<rparr> (drop 1 args)) (\<lambda>opts.
       andThen (fold_act (with_source ''cat'' (cat_body (cat_number opts))) (1, 0) (sources (cat_paths opts)))
         (\<lambda>(_, code). ret code))"

section \<open>ls\<close>

record ls_opts =
  ls_long :: bool
  ls_all :: bool
  ls_recursive :: bool
  ls_paths :: "string list"

definition ls_flag :: "ls_opts \<Rightarrow> string \<Rightarrow> string + ls_opts" where
  "ls_flag opts c =
     (if c = ''l'' then Inr (opts\<lparr>ls_long := True\<rparr>)
      else if c = ''a'' then Inr (opts\<lparr>ls_all := True\<rparr>)
      else if c = ''R'' then Inr (opts\<lparr>ls_recursive := True\<rparr>)
      else Inl (''ls: invalid option -- '' @ [SQUOTE] @ c @ [SQUOTE]))"

definition ls_scan :: "ls_opts scan" where
  "ls_scan opts a as =
     (if is_flags a then took 0 (scan_chars ls_flag opts (cluster a))
      else Inr (opts\<lparr>ls_paths := ls_paths opts @ [a]\<rparr>, 0))"

definition ls_format_entry :: "string \<Rightarrow> bool \<Rightarrow> ('h, string) cact" where
  "ls_format_entry path long =
     (let name = basename path in
      if long then
        andThen (ctx_stat path) (\<lambda>r.
          ret (case r of
                 Inr s \<Rightarrow> (if is_dir s then ''d'' else if is_device s then ''c'' else ''-'')
                   @ ''rwxr-xr-x  '' @ pad_left 8 (show_nat (st_size s)) @ ''  '' @ name @ [NL]
               | Inl _ \<Rightarrow> ''?---------  '' @ pad_left 8 (show_nat 0) @ ''  '' @ name @ [NL]))
      else ret (name @ [NL]))"

text \<open>One entry of a directory: its line, and itself when it has to be listed too.\<close>

definition ls_entry :: "bool \<Rightarrow> bool \<Rightarrow> bool \<Rightarrow> string \<Rightarrow> string list \<Rightarrow> string \<Rightarrow> ('h, string list) cact" where
  "ls_entry long all recursive dir subdirs entry =
     (if \<not> all \<and> starts_with entry ''.'' then ret subdirs
      else (let full = dir @ ''/'' @ entry in
        andThen (ls_format_entry full long) (\<lambda>line.
        andThen (ctx_out line) (\<lambda>_.
          if recursive then
            andThen (ctx_stat full) (\<lambda>r.
              ret (case r of Inr s \<Rightarrow> (if is_dir s then subdirs @ [full] else subdirs) | Inl _ \<Rightarrow> subdirs))
          else ret subdirs))))"

fun list_dir_recursive :: "nat \<Rightarrow> string \<Rightarrow> bool \<Rightarrow> bool \<Rightarrow> bool \<Rightarrow> ('h, VfsError + unit) cact" where
  "list_dir_recursive 0 dir long all recursive = noFuel"
| "list_dir_recursive (Suc n) dir long all recursive =
     try_vfs (ctx_list_dir dir) (\<lambda>entries.
     andThen (fold_act (ls_entry long all recursive dir) [] (sort entries)) (\<lambda>subdirs.
     try_each (\<lambda>sub.
       andThen (ctx_out [NL]) (\<lambda>_.
       andThen (out_line (sub @ '':'')) (\<lambda>_.
       list_dir_recursive n sub long all recursive))) subdirs))"

definition ls_path :: "nat \<Rightarrow> ls_opts \<Rightarrow> bool \<Rightarrow> int \<Rightarrow> string \<Rightarrow> ('h, int) cact" where
  "ls_path n opts multi code path =
     andThen (ctx_stat path) (\<lambda>r.
       case r of
         Inr s \<Rightarrow>
           if is_dir s then
             andThen (if multi \<or> ls_recursive opts then out_line (path @ '':'') else ret ()) (\<lambda>_.
             andThen (list_dir_recursive n path (ls_long opts) (ls_all opts) (ls_recursive opts)) (\<lambda>q.
               case q of Inr _ \<Rightarrow> ret code | Inl e \<Rightarrow> path_error ''ls'' path e))
           else andThen (ls_format_entry path (ls_long opts)) (\<lambda>line. andThen (ctx_out line) (\<lambda>_. ret code))
       | Inl e \<Rightarrow> path_error ''ls'' path e)"

definition builtin_ls :: "nat \<Rightarrow> 'h program" where
  "builtin_ls n args =
     with_options (scan_args ls_scan \<lparr>ls_long = False, ls_all = False, ls_recursive = False, ls_paths = []\<rparr>
         (drop 1 args)) (\<lambda>opts.
       andThen ctx_cwd (\<lambda>cwd.
         let paths = (if ls_paths opts = [] then [cwd] else ls_paths opts) in
         fold_act (ls_path n opts (length paths > 1)) 0 paths))"

section \<open>mkdir and rm\<close>

record mkdir_opts =
  mk_parents :: bool
  mk_paths :: "string list"

definition mkdir_scan :: "mkdir_opts scan" where
  "mkdir_scan opts a as =
     (if a = ''-p'' then Inr (opts\<lparr>mk_parents := True\<rparr>, 0)
      else if starts_with a ''-'' then Inl (''mkdir: invalid option: '' @ a)
      else Inr (opts\<lparr>mk_paths := mk_paths opts @ [a]\<rparr>, 0))"

definition builtin_mkdir :: "'h program" where
  "builtin_mkdir args =
     with_options (scan_args mkdir_scan \<lparr>mk_parents = False, mk_paths = []\<rparr> (drop 1 args)) (\<lambda>opts.
       if mk_paths opts = [] then bail ''mkdir: missing operand''
       else fold_act (\<lambda>code path.
              andThen (ctx_mkdir path (mk_parents opts)) (\<lambda>r.
                case r of Inr _ \<Rightarrow> ret code | Inl e \<Rightarrow> path_error ''mkdir'' path e)) 0 (mk_paths opts))"

record rm_opts =
  rm_recursive :: bool
  rm_force :: bool
  rm_paths :: "string list"

definition rm_flag :: "rm_opts \<Rightarrow> string \<Rightarrow> string + rm_opts" where
  "rm_flag opts c =
     (if c = ''r'' \<or> c = ''R'' then Inr (opts\<lparr>rm_recursive := True\<rparr>)
      else if c = ''f'' then Inr (opts\<lparr>rm_force := True\<rparr>)
      else Inl (''rm: invalid option -- '' @ [SQUOTE] @ c @ [SQUOTE]))"

definition rm_scan :: "rm_opts scan" where
  "rm_scan opts a as =
     (if is_flags a then took 0 (scan_chars rm_flag opts (cluster a))
      else Inr (opts\<lparr>rm_paths := rm_paths opts @ [a]\<rparr>, 0))"

definition builtin_rm :: "'h program" where
  "builtin_rm args =
     with_options (scan_args rm_scan \<lparr>rm_recursive = False, rm_force = False, rm_paths = []\<rparr> (drop 1 args)) (\<lambda>opts.
       if rm_paths opts = []
       then andThen (ctx_err (''rm: missing operand'' @ [NL])) (\<lambda>_. ret (if rm_force opts then 0 else 1))
       else fold_act (\<lambda>code path.
              andThen (ctx_remove path (rm_recursive opts)) (\<lambda>r.
                case r of
                  Inr _ \<Rightarrow> ret code
                | Inl e \<Rightarrow> if rm_force opts then ret code else path_error ''rm'' path e)) 0 (rm_paths opts))"

section \<open>mv and cp\<close>

text \<open>Where a source goes: into the destination if that is a directory, else onto it.\<close>

definition stat_is_dir :: "string \<Rightarrow> ('h, bool) cact" where
  "stat_is_dir path =
     andThen (ctx_stat path) (\<lambda>r. ret (case r of Inr s \<Rightarrow> is_dir s | Inl _ \<Rightarrow> False))"

definition target_of :: "bool \<Rightarrow> string \<Rightarrow> string \<Rightarrow> string" where
  "target_of dst_is_dir dst src = (if dst_is_dir then dst @ ''/'' @ basename src else dst)"

definition builtin_mv :: "'h program" where
  "builtin_mv args =
     (let rest = drop 1 args in
      if length rest < 2 then bail ''mv: missing operand''
      else (let dst = last rest in
        andThen (stat_is_dir dst) (\<lambda>dst_is_dir.
        fold_act (\<lambda>code src.
          andThen (ctx_rename src (target_of dst_is_dir dst src)) (\<lambda>r.
            case r of Inr _ \<Rightarrow> ret code | Inl e \<Rightarrow> path_error ''mv'' src e)) 0 (butlast rest))))"

record cp_opts =
  cp_rec :: bool
  cp_rest :: "string list"

definition cp_flag :: "cp_opts \<Rightarrow> string \<Rightarrow> string + cp_opts" where
  "cp_flag opts c =
     (if c = ''r'' \<or> c = ''R'' then Inr (opts\<lparr>cp_rec := True\<rparr>)
      else Inl (''cp: invalid option -- '' @ [SQUOTE] @ c @ [SQUOTE]))"

definition cp_scan :: "cp_opts scan" where
  "cp_scan opts a as =
     (if a = ''-r'' \<or> a = ''-R'' then Inr (opts\<lparr>cp_rec := True\<rparr>, 0)
      else if starts_with a ''-'' \<and> length a > 1 then took 0 (scan_chars cp_flag opts (cluster a))
      else Inr (opts\<lparr>cp_rest := cp_rest opts @ [a]\<rparr>, 0))"

text \<open>The error of \<open>mkdir\<close> is dropped; any other one ends the copy.\<close>

fun cp_recursive :: "nat \<Rightarrow> string \<Rightarrow> string \<Rightarrow> ('h, VfsError + unit) cact" where
  "cp_recursive 0 src dst = noFuel"
| "cp_recursive (Suc n) src dst =
     andThen (ctx_mkdir dst True) (\<lambda>_.
     try_vfs (ctx_list_dir src) (\<lambda>entries.
     try_each (\<lambda>entry.
       let src_child = src @ ''/'' @ entry; dst_child = dst @ ''/'' @ entry in
       try_vfs (ctx_stat src_child) (\<lambda>s.
         if is_dir s then cp_recursive n src_child dst_child
         else ctx_copy src_child dst_child)) entries))"

definition cp_path :: "nat \<Rightarrow> bool \<Rightarrow> bool \<Rightarrow> string \<Rightarrow> int \<Rightarrow> string \<Rightarrow> ('h, int) cact" where
  "cp_path n recursive dst_is_dir dst code src =
     (let target = target_of dst_is_dir dst src in
      andThen (stat_is_dir src) (\<lambda>src_is_dir.
        if src_is_dir \<and> \<not> recursive then bail (''cp: '' @ src @ '': is a directory (use -r)'')
        else andThen (if src_is_dir then cp_recursive n src target else ctx_copy src target) (\<lambda>r.
               case r of Inr _ \<Rightarrow> ret code | Inl e \<Rightarrow> path_error ''cp'' src e)))"

definition builtin_cp :: "nat \<Rightarrow> 'h program" where
  "builtin_cp n args =
     with_options (scan_args cp_scan \<lparr>cp_rec = False, cp_rest = []\<rparr> (drop 1 args)) (\<lambda>opts.
       let rest = cp_rest opts in
       if length rest < 2 then bail ''cp: missing operand''
       else (let dst = last rest in
         andThen (stat_is_dir dst) (\<lambda>dst_is_dir.
         fold_act (cp_path n (cp_rec opts) dst_is_dir dst) 0 (butlast rest))))"

section \<open>touch\<close>

definition touch_path :: "int \<Rightarrow> string \<Rightarrow> ('h, int) cact" where
  "touch_path code path =
     andThen (ctx_stat path) (\<lambda>r.
       case r of
         Inr _ \<Rightarrow> ret code
       | Inl _ \<Rightarrow> andThen (ctx_write_file path []) (\<lambda>w.
           case w of Inr _ \<Rightarrow> ret code | Inl e \<Rightarrow> path_error ''touch'' path e))"

definition builtin_touch :: "'h program" where
  "builtin_touch args =
     (let paths = drop 1 args in
      if paths = [] then bail ''touch: missing operand'' else fold_act touch_path 0 paths)"

section \<open>find\<close>

record find_opts =
  fd_root :: string
  fd_name :: "string option"
  fd_type :: "string option"
  fd_maxdepth :: "nat option"

definition find_scan :: "find_opts scan" where
  "find_scan opts a as =
     (let next = (case as of [] \<Rightarrow> None | b # _ \<Rightarrow> Some b) in
      Inr (if a = ''-name'' then (opts\<lparr>fd_name := next\<rparr>, 1)
           else if a = ''-type'' then (opts\<lparr>fd_type := Option.bind next first_char\<rparr>, 1)
           else if a = ''-maxdepth'' then (opts\<lparr>fd_maxdepth := Option.bind next parse_usize\<rparr>, 1)
           else if \<not> starts_with a ''-'' then (opts\<lparr>fd_root := a\<rparr>, 0)
           else (opts, 0)))"

definition find_rel :: "string \<Rightarrow> string \<Rightarrow> string" where
  "find_rel base dir = (if dir = base then ''.'' else ''.'' @ drop (length base) dir)"

definition find_prints :: "string option \<Rightarrow> VfsError + Stat \<Rightarrow> bool" where
  "find_prints type_filter dir_stat =
     (case dir_stat of
        Inl _ \<Rightarrow> False
      | Inr s \<Rightarrow> (if type_filter = Some ''f'' then is_file s
                  else if type_filter = Some ''d'' then is_dir s else True))"

definition find_name_matches :: "string option \<Rightarrow> string \<Rightarrow> bool" where
  "find_name_matches name_pat rel =
     (case name_pat of None \<Rightarrow> True | Some pat \<Rightarrow> glob_match pat (basename rel))"

fun find_recursive :: "nat \<Rightarrow> string \<Rightarrow> string \<Rightarrow> nat \<Rightarrow> nat option \<Rightarrow> string option \<Rightarrow> string option
    \<Rightarrow> ('h, unit) cact" where
  "find_recursive 0 base dir depth maxdepth name_pat type_filter = noFuel"
| "find_recursive (Suc n) base dir depth maxdepth name_pat type_filter =
     (let rel = find_rel base dir in
      andThen (ctx_stat dir) (\<lambda>dir_stat.
      andThen (if find_prints type_filter dir_stat \<and> find_name_matches name_pat rel
               then out_line rel else ret ()) (\<lambda>_.
        if \<not> (case dir_stat of Inr s \<Rightarrow> is_dir s | Inl _ \<Rightarrow> False) then ret ()
        else if (case maxdepth of Some d \<Rightarrow> d \<le> depth | None \<Rightarrow> False) then ret ()
        else andThen (ctx_list_dir dir) (\<lambda>r.
          for_each (\<lambda>entry. find_recursive n base (dir @ ''/'' @ entry) (depth + 1) maxdepth name_pat type_filter)
            (case r of Inr entries \<Rightarrow> sort entries | Inl _ \<Rightarrow> [])))))"

definition builtin_find :: "nat \<Rightarrow> 'h program" where
  "builtin_find n args =
     andThen (args_tail args) (\<lambda>rest.
     andThen ctx_cwd (\<lambda>cwd.
     with_options (scan_args find_scan \<lparr>fd_root = cwd, fd_name = None, fd_type = None, fd_maxdepth = None\<rparr> rest) (\<lambda>opts.
       let root = resolve_path cwd (fd_root opts) in
       andThen (find_recursive n root root 0 (fd_maxdepth opts) (fd_name opts) (fd_type opts)) (\<lambda>_. ret 0))))"

end
