(* ===== verification/BuiltinsText.thy ===== *)
theory BuiltinsText
  imports BuiltinCore
begin

text \<open>
  The built-in programs that work on text: \<open>head\<close>, \<open>tail\<close>, \<open>wc\<close>, \<open>sort\<close>, \<open>uniq\<close>, \<open>cut\<close>, \<open>tr\<close>,
  \<open>grep\<close> and \<open>sed\<close>. The regex crate is a parameter: what the code asks of a compiled expression is
  the record \<open>Regex\<close>, and \<open>regex_new\<close> compiles a pattern (case-insensitively or not) or gives the
  text of its error.
\<close>

section \<open>head and tail\<close>

record count_opts =
  co_n :: nat
  co_paths :: "string list"

definition count_or_ten :: "string option \<Rightarrow> nat" where
  "count_or_ten s = (case Option.bind s parse_usize of Some n \<Rightarrow> n | None \<Rightarrow> 10)"

definition count_scan :: "string \<Rightarrow> count_opts scan" where
  "count_scan prog opts a as =
     (if a = ''-n'' then Inr (opts\<lparr>co_n := count_or_ten (case as of [] \<Rightarrow> None | b # _ \<Rightarrow> Some b)\<rparr>, 1)
      else if starts_with a ''-n'' then Inr (opts\<lparr>co_n := count_or_ten (Some (drop 2 a))\<rparr>, 0)
      else if starts_with a ''-'' \<and> length a > 1 then Inl (prog @ '': unknown flag: '' @ a)
      else Inr (opts\<lparr>co_paths := co_paths opts @ [a]\<rparr>, 0))"

definition head_lines :: "nat \<Rightarrow> string list \<Rightarrow> string list" where
  "head_lines n ls = take n ls"

definition tail_lines :: "nat \<Rightarrow> string list \<Rightarrow> string list" where
  "tail_lines n ls = drop (length ls - n) ls"

definition builtin_head :: "'h program" where
  "builtin_head args =
     with_options (scan_args (count_scan ''head'') \<lparr>co_n = 10, co_paths = []\<rparr> (drop 1 args)) (\<lambda>opts.
       andThen (collect_lines (co_paths opts)) (\<lambda>(ls, code).
       andThen (out_lines (head_lines (co_n opts) ls)) (\<lambda>_. ret code)))"

definition builtin_tail :: "'h program" where
  "builtin_tail args =
     with_options (scan_args (count_scan ''tail'') \<lparr>co_n = 10, co_paths = []\<rparr> (drop 1 args)) (\<lambda>opts.
       andThen (collect_lines (co_paths opts)) (\<lambda>(ls, code).
       andThen (out_lines (tail_lines (co_n opts) ls)) (\<lambda>_. ret code)))"

section \<open>wc\<close>

record wc_opts =
  wc_l :: bool
  wc_w :: bool
  wc_c :: bool
  wc_paths :: "string list"

definition wc_flag :: "wc_opts \<Rightarrow> string \<Rightarrow> string + wc_opts" where
  "wc_flag opts c =
     (if c = ''l'' then Inr (opts\<lparr>wc_l := True\<rparr>)
      else if c = ''w'' then Inr (opts\<lparr>wc_w := True\<rparr>)
      else if c = ''c'' then Inr (opts\<lparr>wc_c := True\<rparr>)
      else Inl (''wc: invalid option -- '' @ [SQUOTE] @ c @ [SQUOTE]))"

definition wc_scan :: "wc_opts scan" where
  "wc_scan opts a as =
     (if starts_with a ''-'' \<and> length a > 1 then took 0 (scan_chars wc_flag opts (cluster a))
      else Inr (opts\<lparr>wc_paths := wc_paths opts @ [a]\<rparr>, 0))"

definition wc_defaults :: "wc_opts \<Rightarrow> wc_opts" where
  "wc_defaults opts =
     (if \<not> wc_l opts \<and> \<not> wc_w opts \<and> \<not> wc_c opts
      then opts\<lparr>wc_l := True, wc_w := True, wc_c := True\<rparr> else opts)"

definition wc_line :: "wc_opts \<Rightarrow> string option \<Rightarrow> string \<Rightarrow> string" where
  "wc_line opts source data =
     (let txt = from_utf8_lossy data;
          name = (case source of Some p \<Rightarrow> p | None \<Rightarrow> []);
          pad = length (wc_paths opts) > 1;
          field = (\<lambda>first n. if pad then pad_left 8 (show_nat n)
                     else if first then show_nat n else '' '' @ show_nat n) in
      (if wc_l opts then field True (length (lines txt)) else [])
      @ (if wc_w opts then field False (length (split_whitespace txt)) else [])
      @ (if wc_c opts then field False (length data) else [])
      @ (if name \<noteq> [] then '' '' @ name else []))"

definition builtin_wc :: "'h program" where
  "builtin_wc args =
     with_options (scan_args wc_scan \<lparr>wc_l = False, wc_w = False, wc_c = False, wc_paths = []\<rparr> (drop 1 args)) (\<lambda>opts0.
       let opts = wc_defaults opts0 in
       andThen (fold_act (with_source ''wc'' (\<lambda>_ source data. out_line (wc_line opts source data)))
                  ((), 0) (sources (wc_paths opts)))
         (\<lambda>(_, code). ret code))"

section \<open>sort and uniq\<close>

record sort_opts =
  so_reverse :: bool
  so_numeric :: bool
  so_unique :: bool
  so_paths :: "string list"

definition sort_flag :: "sort_opts \<Rightarrow> string \<Rightarrow> string + sort_opts" where
  "sort_flag opts c =
     (if c = ''r'' then Inr (opts\<lparr>so_reverse := True\<rparr>)
      else if c = ''n'' then Inr (opts\<lparr>so_numeric := True\<rparr>)
      else if c = ''u'' then Inr (opts\<lparr>so_unique := True\<rparr>)
      else Inl (''sort: invalid option -- '' @ [SQUOTE] @ c @ [SQUOTE]))"

definition sort_scan :: "sort_opts scan" where
  "sort_scan opts a as =
     (if starts_with a ''-'' \<and> length a > 1 then took 0 (scan_chars sort_flag opts (cluster a))
      else Inr (opts\<lparr>so_paths := so_paths opts @ [a]\<rparr>, 0))"

text \<open>The standard library's sorts are stable, and \<open>String\<close> is ordered by its bytes.\<close>

definition sort_lines :: "sort_opts \<Rightarrow> string list \<Rightarrow> string list" where
  "sort_lines opts ls =
     (let ls1 = (if so_numeric opts then sort_key parse_num ls else sort ls);
          ls2 = (if so_reverse opts then rev ls1 else ls1) in
      if so_unique opts then remdups_adj ls2 else ls2)"

definition builtin_sort :: "'h program" where
  "builtin_sort args =
     with_options (scan_args sort_scan \<lparr>so_reverse = False, so_numeric = False, so_unique = False, so_paths = []\<rparr>
         (drop 1 args)) (\<lambda>opts.
       andThen (collect_lines (so_paths opts)) (\<lambda>(ls, code).
       andThen (out_lines (sort_lines opts ls)) (\<lambda>_. ret code)))"

record uniq_opts =
  un_count :: bool
  un_dups :: bool
  un_paths :: "string list"

definition uniq_scan :: "uniq_opts scan" where
  "uniq_scan opts a as =
     (if a = ''-c'' then Inr (opts\<lparr>un_count := True\<rparr>, 0)
      else if a = ''-d'' then Inr (opts\<lparr>un_dups := True\<rparr>, 0)
      else if starts_with a ''-'' then Inl (''uniq: invalid option: '' @ a)
      else Inr (opts\<lparr>un_paths := un_paths opts @ [a]\<rparr>, 0))"

definition group_step :: "(string \<times> nat) list \<Rightarrow> string \<Rightarrow> (string \<times> nat) list" where
  "group_step groups line =
     (if groups \<noteq> [] \<and> fst (last groups) = line
      then butlast groups @ [(line, snd (last groups) + 1)]
      else groups @ [(line, 1)])"

definition uniq_groups :: "string list \<Rightarrow> (string \<times> nat) list" where
  "uniq_groups ls = foldl group_step [] ls"

definition uniq_lines :: "uniq_opts \<Rightarrow> string list \<Rightarrow> string list" where
  "uniq_lines opts ls =
     map (\<lambda>(line, n). if un_count opts then pad_left 7 (show_nat n) @ '' '' @ line else line)
       (filter (\<lambda>(line, n). \<not> (un_dups opts \<and> n < 2)) (uniq_groups ls))"

definition builtin_uniq :: "'h program" where
  "builtin_uniq args =
     with_options (scan_args uniq_scan \<lparr>un_count = False, un_dups = False, un_paths = []\<rparr> (drop 1 args)) (\<lambda>opts.
       andThen (collect_lines (un_paths opts)) (\<lambda>(ls, code).
       andThen (out_lines (uniq_lines opts ls)) (\<lambda>_. ret code)))"

section \<open>cut and tr\<close>

record cut_opts =
  cu_delim :: string
  cu_fields :: "(nat \<times> nat option) list option"
  cu_chars :: "(nat \<times> nat option) list option"
  cu_paths :: "string list"

definition char_or_tab :: "string option \<Rightarrow> string" where
  "char_or_tab c = (case c of Some x \<Rightarrow> x | None \<Rightarrow> [TAB])"

definition cut_scan :: "cut_opts scan" where
  "cut_scan opts a as =
     (let next = (case as of [] \<Rightarrow> None | b # _ \<Rightarrow> Some b) in
      Inr (if a = ''-d'' then (opts\<lparr>cu_delim := char_or_tab (Option.bind next first_char)\<rparr>, 1)
           else if a = ''-f'' then (opts\<lparr>cu_fields := map_option parse_fields next\<rparr>, 1)
           else if a = ''-c'' then (opts\<lparr>cu_chars := map_option parse_fields next\<rparr>, 1)
           else if starts_with a ''-d'' then (opts\<lparr>cu_delim := char_or_tab (first_char (drop 2 a))\<rparr>, 0)
           else if starts_with a ''-f'' then (opts\<lparr>cu_fields := Some (parse_fields (drop 2 a))\<rparr>, 0)
           else if starts_with a ''-c'' then (opts\<lparr>cu_chars := Some (parse_fields (drop 2 a))\<rparr>, 0)
           else (opts\<lparr>cu_paths := cu_paths opts @ [a]\<rparr>, 0)))"

definition cut_line :: "cut_opts \<Rightarrow> string \<Rightarrow> string" where
  "cut_line opts line =
     (case cu_chars opts of
        Some ranges \<Rightarrow> concat (select_fields ranges (utf8_chars line))
      | None \<Rightarrow>
          (case cu_fields opts of
             Some ranges \<Rightarrow> join (cu_delim opts) (select_fields ranges (split_char (cu_delim opts) line))
           | None \<Rightarrow> line))"

definition builtin_cut :: "'h program" where
  "builtin_cut args =
     with_options (scan_args cut_scan \<lparr>cu_delim = [TAB], cu_fields = None, cu_chars = None, cu_paths = []\<rparr>
         (drop 1 args)) (\<lambda>opts.
       andThen (collect_lines (cu_paths opts)) (\<lambda>(ls, code).
       andThen (out_lines (map (cut_line opts) ls)) (\<lambda>_. ret code)))"

record tr_opts =
  tr_delete :: bool
  tr_squeeze :: bool
  tr_sets :: "string list"

definition tr_flag :: "tr_opts \<Rightarrow> string \<Rightarrow> string + tr_opts" where
  "tr_flag opts c =
     (if c = ''d'' then Inr (opts\<lparr>tr_delete := True\<rparr>)
      else if c = ''s'' then Inr (opts\<lparr>tr_squeeze := True\<rparr>)
      else Inl (''tr: invalid option -- '' @ [SQUOTE] @ c @ [SQUOTE]))"

definition tr_scan :: "tr_opts scan" where
  "tr_scan opts a as =
     (if a = ''-d'' then Inr (opts\<lparr>tr_delete := True\<rparr>, 0)
      else if a = ''-s'' then Inr (opts\<lparr>tr_squeeze := True\<rparr>, 0)
      else if starts_with a ''-'' \<and> length a > 1 then took 0 (scan_chars tr_flag opts (cluster a))
      else Inr (opts\<lparr>tr_sets := tr_sets opts @ [a]\<rparr>, 0))"

fun index_of :: "'a \<Rightarrow> 'a list \<Rightarrow> nat option" where
  "index_of x [] = None"
| "index_of x (y # ys) = (if y = x then Some 0 else map_option Suc (index_of x ys))"

text \<open>\<open>get(i)\<close>, or the last element, or the character itself.\<close>

definition tr_char :: "string list \<Rightarrow> string list \<Rightarrow> string \<Rightarrow> string" where
  "tr_char set1 set2 c =
     (case index_of c set1 of
        None \<Rightarrow> c
      | Some i \<Rightarrow> (if i < length set2 then set2 ! i else if set2 \<noteq> [] then last set2 else c))"

definition first_set :: "string list \<Rightarrow> string list" where
  "first_set sets = (case sets of [] \<Rightarrow> [] | s # _ \<Rightarrow> expand_charset s)"

definition tr_map :: "bool \<Rightarrow> string list \<Rightarrow> string list \<Rightarrow> string list" where
  "tr_map del sets cs =
     (if del then filter (\<lambda>c. c \<notin> set (first_set sets)) cs
      else (case sets of
              s1 # s2 # _ \<Rightarrow> map (tr_char (expand_charset s1) (expand_charset s2)) cs
            | _ \<Rightarrow> cs))"

fun tr_squeeze_loop :: "string list \<Rightarrow> string option \<Rightarrow> string list \<Rightarrow> string list" where
  "tr_squeeze_loop sq prev [] = []"
| "tr_squeeze_loop sq prev (c # cs) =
     (if c \<in> set sq \<and> prev = Some c then tr_squeeze_loop sq prev cs
      else c # tr_squeeze_loop sq (Some c) cs)"

definition tr_text :: "tr_opts \<Rightarrow> string \<Rightarrow> string" where
  "tr_text opts txt =
     (let cs = tr_map (tr_delete opts) (tr_sets opts) (utf8_chars txt) in
      concat (if tr_squeeze opts then tr_squeeze_loop (first_set (tr_sets opts)) None cs else cs))"

definition builtin_tr :: "'h program" where
  "builtin_tr args =
     with_options (scan_args tr_scan \<lparr>tr_delete = False, tr_squeeze = False, tr_sets = []\<rparr> (drop 1 args)) (\<lambda>opts.
       andThen ctx_read_stdin (\<lambda>data.
       andThen (ctx_out (tr_text opts (from_utf8_lossy data))) (\<lambda>_. ret 0)))"

section \<open>grep\<close>

record Regex =
  re_match :: "string \<Rightarrow> bool"
  re_replace :: "string \<Rightarrow> string \<Rightarrow> string"
  re_replace_all :: "string \<Rightarrow> string \<Rightarrow> string"

type_synonym regex_new = "bool \<Rightarrow> string \<Rightarrow> string + Regex"

record grep_opts =
  gr_recursive :: bool
  gr_case_i :: bool
  gr_numbers :: bool
  gr_files_only :: bool
  gr_invert :: bool
  gr_pattern :: "string option"
  gr_paths :: "string list"

text \<open>One flag of a cluster; \<open>e\<close> takes the next argument, and the count says how many are taken.\<close>

definition grep_flag :: "string list \<Rightarrow> grep_opts \<times> nat \<Rightarrow> string \<Rightarrow> string + grep_opts \<times> nat" where
  "grep_flag as acc c = (case acc of (opts, k) \<Rightarrow>
     (if c = ''r'' \<or> c = ''R'' then Inr (opts\<lparr>gr_recursive := True\<rparr>, k)
      else if c = ''i'' then Inr (opts\<lparr>gr_case_i := True\<rparr>, k)
      else if c = ''n'' then Inr (opts\<lparr>gr_numbers := True\<rparr>, k)
      else if c = ''l'' then Inr (opts\<lparr>gr_files_only := True\<rparr>, k)
      else if c = ''v'' then Inr (opts\<lparr>gr_invert := True\<rparr>, k)
      else if c = ''E'' then Inr (opts, k)
      else if c = ''e'' then
        Inr (opts\<lparr>gr_pattern := (if k < length as then Some (as ! k) else None)\<rparr>, k + 1)
      else Inl (''grep: invalid option -- '' @ [SQUOTE] @ c @ [SQUOTE])))"

definition grep_scan :: "grep_opts scan" where
  "grep_scan opts a as =
     (if is_flags a then scan_chars (grep_flag as) (opts, 0) (cluster a)
      else if gr_pattern opts = None then Inr (opts\<lparr>gr_pattern := Some a\<rparr>, 0)
      else Inr (opts\<lparr>gr_paths := gr_paths opts @ [a]\<rparr>, 0))"

text \<open>The files to search; the empty path stands for standard input.\<close>

definition grep_files :: "nat \<Rightarrow> grep_opts \<Rightarrow> ('h, string list) cact" where
  "grep_files n opts =
     (if gr_paths opts = [] then
        (if gr_recursive opts then andThen ctx_cwd (walk_dir n) else ret [ [] ])
      else fold_act (\<lambda>acc path.
             if gr_recursive opts then
               andThen (ctx_stat path) (\<lambda>r.
                 if (case r of Inr s \<Rightarrow> is_dir s | Inl _ \<Rightarrow> False)
                 then andThen (walk_dir n path) (\<lambda>walked. ret (acc @ walked))
                 else ret (acc @ [path]))
             else ret (acc @ [path])) [] (gr_paths opts))"

definition grep_line :: "grep_opts \<Rightarrow> bool \<Rightarrow> string \<Rightarrow> nat \<times> string \<Rightarrow> string" where
  "grep_line opts multi fp = (\<lambda>(ln, line).
     (if multi \<and> fp \<noteq> [] then fp @ '':'' else [])
     @ (if gr_numbers opts then show_nat (ln + 1) @ '':'' else []) @ line)"

definition grep_shown :: "(string \<Rightarrow> bool) \<Rightarrow> grep_opts \<Rightarrow> string list \<Rightarrow> (nat \<times> string) list" where
  "grep_shown m opts ls =
     filter (\<lambda>(_, line). if gr_invert opts then \<not> m line else m line) (enumerate 0 ls)"

definition grep_data :: "Regex \<Rightarrow> grep_opts \<Rightarrow> bool \<Rightarrow> bool \<Rightarrow> string \<Rightarrow> string \<Rightarrow> ('h, bool) cact" where
  "grep_data re opts multi matched fp data =
     (let shown = grep_shown (re_match re) opts (text_lines data) in
      andThen (if gr_files_only opts then ret () else out_lines (map (grep_line opts multi fp) shown)) (\<lambda>_.
      andThen (if gr_files_only opts \<and> shown \<noteq> [] \<and> fp \<noteq> [] then out_line fp else ret ()) (\<lambda>_.
      ret (matched \<or> shown \<noteq> []))))"

definition grep_file :: "Regex \<Rightarrow> grep_opts \<Rightarrow> bool \<Rightarrow> bool \<Rightarrow> string \<Rightarrow> ('h, bool) cact" where
  "grep_file re opts multi matched fp =
     (if fp = [] then andThen ctx_read_stdin (grep_data re opts multi matched fp)
      else andThen (ctx_read_file fp) (\<lambda>r.
        case r of
          Inr data \<Rightarrow> grep_data re opts multi matched fp data
        | Inl e \<Rightarrow> andThen (ctx_err (''grep: '' @ fp @ '': '' @ show_vfs_error e @ [NL])) (\<lambda>_. ret matched)))"

definition builtin_grep :: "regex_new \<Rightarrow> nat \<Rightarrow> 'h program" where
  "builtin_grep regex n args =
     with_options (scan_args grep_scan \<lparr>gr_recursive = False, gr_case_i = False, gr_numbers = False,
         gr_files_only = False, gr_invert = False, gr_pattern = None, gr_paths = []\<rparr> (drop 1 args)) (\<lambda>opts.
       case gr_pattern opts of
         None \<Rightarrow> bail ''grep: missing pattern''
       | Some pattern \<Rightarrow>
           (case regex (gr_case_i opts) pattern of
              Inl e \<Rightarrow> bail (''grep: invalid regex: '' @ e)
            | Inr re \<Rightarrow>
                andThen (grep_files n opts) (\<lambda>fps.
                andThen (fold_act (grep_file re opts (length fps > 1)) False fps) (\<lambda>matched.
                ret (if matched then 0 else 1)))))"

end
