(* ===== verification/BuiltinsSed.thy ===== *)
theory BuiltinsSed
  imports BuiltinsText
begin

text \<open>
  \<open>sed\<close>: the parser of its scripts, the application of the commands to a line, and the program. The
  parser walks the characters of the script; each command takes at least its letter, which is why
  it ends.
\<close>

section \<open>Scripts\<close>

datatype SedAddr = SedLine nat | SedRegex Regex

datatype SedOp =
    Substitute Regex string bool bool
  | SedDelete
  | SedPrint
  | SedQuit

record SedCmd =
  sc_addr :: "SedAddr option"
  sc_negate :: bool
  sc_op :: SedOp

definition sed_separator :: "string \<Rightarrow> bool" where
  "sed_separator c = (c = '' '' \<or> c = [TAB] \<or> c = '';'' \<or> c = [NL])"

definition sed_blank :: "string \<Rightarrow> bool" where
  "sed_blank c = (c = '' '' \<or> c = [TAB])"

definition sed_digit :: "string \<Rightarrow> bool" where
  "sed_digit c = (case c of [b] \<Rightarrow> is_ascii_digit b | _ \<Rightarrow> False)"

fun sed_pattern :: "string list \<Rightarrow> string \<times> string list" where
  "sed_pattern [] = ([], [])"
| "sed_pattern [c] = (if c = ''/'' then ([], []) else (c, []))"
| "sed_pattern (c # d # cs) =
     (if c = ''/'' then ([], d # cs)
      else if c = [BSLASH] then (case sed_pattern cs of (p, rest) \<Rightarrow> (c @ d @ p, rest))
      else (case sed_pattern (d # cs) of (p, rest) \<Rightarrow> (c @ p, rest)))"

definition sed_addr :: "regex_new \<Rightarrow> string list \<Rightarrow> string + SedAddr option \<times> string list" where
  "sed_addr regex cs =
     (case cs of
        [] \<Rightarrow> Inr (None, [])
      | c # cs' \<Rightarrow>
          if sed_digit c then
            (case parse_usize (concat (takeWhile sed_digit cs)) of
               Some n \<Rightarrow> Inr (Some (SedLine n), dropWhile sed_digit cs)
             | None \<Rightarrow> Inl ''invalid line number'')
          else if c = ''/'' then
            (case sed_pattern cs' of (pat, rest) \<Rightarrow>
               (case regex False pat of
                  Inr re \<Rightarrow> Inr (Some (SedRegex re), rest)
                | Inl e \<Rightarrow> Inl (''bad regex /'' @ pat @ ''/: '' @ e)))
          else Inr (None, cs))"

fun read_field :: "string \<Rightarrow> string list \<Rightarrow> string \<times> string list" where
  "read_field delim [] = ([], [])"
| "read_field delim [c] = (if c = delim then ([], []) else (c, []))"
| "read_field delim (c # d # cs) =
     (if c = delim then ([], d # cs)
      else if c = [BSLASH] then
        (case read_field delim cs of (f, rest) \<Rightarrow> ((if d = delim then d else c @ d) @ f, rest))
      else (case read_field delim (d # cs) of (f, rest) \<Rightarrow> (c @ f, rest)))"

function replace_str :: "string \<Rightarrow> string \<Rightarrow> string \<Rightarrow> string" where
  "replace_str pat rep [] = []"
| "replace_str pat rep (c # s) =
     (if pat \<noteq> [] \<and> starts_with (c # s) pat then rep @ replace_str pat rep (drop (length pat) (c # s))
      else c # replace_str pat rep s)"
  by pat_completeness auto
termination by (relation "measure (\<lambda>(_, _, s). length s)") auto

text \<open>The conversion of a sed replacement to the regex crate's syntax, in the order of the code.\<close>

definition AMP_MARK :: string where
  "AMP_MARK = [CHR 0x00] @ ''AMP'' @ [CHR 0x00]"

definition repl_steps :: "(string \<times> string) list" where
  "repl_steps =
     [(BSLASH # ''&'', AMP_MARK), (''&'', ''$0''), (AMP_MARK, BSLASH # ''&''),
      (BSLASH # ''1'', ''$1''), (BSLASH # ''2'', ''$2''), (BSLASH # ''3'', ''$3''),
      (BSLASH # ''4'', ''$4''), (BSLASH # ''5'', ''$5''), (BSLASH # ''n'', [NL])]"

definition sed_repl :: "string \<Rightarrow> string" where
  "sed_repl raw = foldl (\<lambda>s (pat, rep). replace_str pat rep s) raw repl_steps"

definition sed_subst_end :: "string \<Rightarrow> bool" where
  "sed_subst_end c = (c = '';'' \<or> c = [NL])"

definition sed_op :: "regex_new \<Rightarrow> string \<Rightarrow> string list \<Rightarrow> string + SedOp \<times> string list" where
  "sed_op regex c cs =
     (if c = ''d'' then Inr (SedDelete, cs)
      else if c = ''p'' then Inr (SedPrint, cs)
      else if c = ''q'' then Inr (SedQuit, cs)
      else if c = ''s'' then
        (case cs of
           [] \<Rightarrow> Inl ''s: missing delimiter''
         | delim # cs1 \<Rightarrow>
             (let (pattern, cs2) = read_field delim cs1;
                  (repl_raw, cs3) = read_field delim cs2;
                  flags = takeWhile (\<lambda>c. \<not> sed_subst_end c) cs3 in
              case regex (''i'' \<in> set flags \<or> ''I'' \<in> set flags) pattern of
                Inl e \<Rightarrow> Inl (''invalid regex '' @ [SQUOTE] @ pattern @ [SQUOTE] @ '': '' @ e)
              | Inr re \<Rightarrow>
                  Inr (Substitute re (sed_repl repl_raw) (''g'' \<in> set flags) (''p'' \<in> set flags),
                       dropWhile (\<lambda>c. \<not> sed_subst_end c) cs3)))
      else Inl (''unsupported sed command: '' @ [SQUOTE] @ c @ [SQUOTE]))"

lemma sed_pattern_shorter: "sed_pattern cs = (p, rest) \<Longrightarrow> length rest \<le> length cs"
  by (induction cs arbitrary: p rest rule: sed_pattern.induct) (fastforce split: if_splits prod.splits)+

lemma read_field_shorter: "read_field d cs = (f, rest) \<Longrightarrow> length rest \<le> length cs"
  by (induction d cs arbitrary: f rest rule: read_field.induct) (fastforce split: if_splits prod.splits)+

lemma sed_addr_shorter:
  assumes "sed_addr regex cs = Inr (a, rest)"
  shows "length rest \<le> length cs"
proof (cases cs)
  case (Cons c cs')
  have "length (dropWhile sed_digit cs) \<le> length cs" by (rule length_dropWhile_le)
  moreover have "length r \<le> length cs" if "sed_pattern cs' = (p, r)" for p r
    using sed_pattern_shorter [OF that] Cons by simp
  ultimately show ?thesis
    using assms Cons by (auto simp: sed_addr_def split: if_splits option.splits prod.splits sum.splits)
qed (use assms in \<open>simp add: sed_addr_def\<close>)

lemma sed_op_shorter: "sed_op regex c cs = Inr (op, rest) \<Longrightarrow> length rest \<le> length cs"
proof -
  assume a: "sed_op regex c cs = Inr (op, rest)"
  have "length (dropWhile P r2) \<le> Suc (length cs1)"
    if "read_field d cs1 = (f1, r1)" "read_field d r1 = (f2, r2)" for d cs1 f1 r1 f2 r2 P
    using read_field_shorter [OF that(1)] read_field_shorter [OF that(2)] length_dropWhile_le [of P r2]
    by simp
  with a show ?thesis
    by (auto simp: sed_op_def Let_def split: list.splits if_splits prod.splits sum.splits)
qed

function parse_sed_loop :: "regex_new \<Rightarrow> string list \<Rightarrow> string + SedCmd list" where
  "parse_sed_loop regex cs =
     (case sed_addr regex (dropWhile sed_separator cs) of
        Inl e \<Rightarrow> Inl e
      | Inr (addr, cs1) \<Rightarrow>
          (let negate = (case cs1 of c # _ \<Rightarrow> c = ''!'' | [] \<Rightarrow> False);
               cs2 = dropWhile sed_blank (if negate then drop 1 cs1 else cs1) in
           case cs2 of
             [] \<Rightarrow> Inr []
           | c # cs3 \<Rightarrow>
               (case sed_op regex c cs3 of
                  Inl e \<Rightarrow> Inl e
                | Inr (op, rest) \<Rightarrow>
                    (case parse_sed_loop regex rest of
                       Inl e \<Rightarrow> Inl e
                     | Inr cmds \<Rightarrow> Inr (\<lparr>sc_addr = addr, sc_negate = negate, sc_op = op\<rparr> # cmds)))))"
  by pat_completeness auto
termination
proof (relation "measure (\<lambda>(_, cs). length cs)", goal_cases)
  case (2 regex cs r addr cs1 negate cs2 c cs3 s op rest)
  have "length cs1 \<le> length cs"
    using sed_addr_shorter [of regex "dropWhile sed_separator cs" addr cs1] length_dropWhile_le [of sed_separator cs] 2
    by fastforce
  moreover have "length (c # cs3) \<le> length cs1"
  proof -
    have "length cs2 \<le> length (if negate then drop 1 cs1 else cs1)" using 2 by (simp add: length_dropWhile_le)
    then show ?thesis using 2 by (auto split: if_splits)
  qed
  moreover have "length rest \<le> length cs3" using sed_op_shorter 2 by fastforce
  ultimately show ?case by simp
qed simp

declare parse_sed_loop.simps [simp del]

definition parse_sed_commands :: "regex_new \<Rightarrow> string \<Rightarrow> string + SedCmd list" where
  "parse_sed_commands regex script = parse_sed_loop regex (utf8_chars script)"

section \<open>Lines\<close>

definition sed_matches :: "SedAddr option \<Rightarrow> nat \<Rightarrow> string \<Rightarrow> bool" where
  "sed_matches addr line_num current =
     (case addr of
        None \<Rightarrow> True
      | Some (SedLine n) \<Rightarrow> line_num = n
      | Some (SedRegex re) \<Rightarrow> re_match re current)"

text \<open>The state of the loop over the commands: the line, the lines to print, deleted, quit.\<close>

fun sed_cmds :: "nat \<Rightarrow> SedCmd list \<Rightarrow> string \<Rightarrow> string list \<Rightarrow> bool \<Rightarrow> string \<times> string list \<times> bool \<times> bool" where
  "sed_cmds line_num [] current extra quit = (current, extra, False, quit)"
| "sed_cmds line_num (cmd # cmds) current extra quit =
     (if sed_matches (sc_addr cmd) line_num current = sc_negate cmd
      then sed_cmds line_num cmds current extra quit
      else (case sc_op cmd of
              SedDelete \<Rightarrow> (current, extra, True, quit)
            | SedPrint \<Rightarrow> sed_cmds line_num cmds current (extra @ [current]) quit
            | SedQuit \<Rightarrow> sed_cmds line_num cmds current extra True
            | Substitute re repl global print_after \<Rightarrow>
                (let current' = (if global then re_replace_all re current repl else re_replace re current repl) in
                 sed_cmds line_num cmds current' (if print_after then extra @ [current'] else extra) quit)))"

definition sed_apply_line :: "string \<Rightarrow> nat \<Rightarrow> SedCmd list \<Rightarrow> bool \<Rightarrow> string list \<times> bool" where
  "sed_apply_line pattern line_num cmds suppress =
     (case sed_cmds line_num cmds pattern [] False of (current, extra, deleted, quit) \<Rightarrow>
        (if \<not> deleted \<and> \<not> suppress then extra @ [current] else extra, quit))"

fun sed_lines :: "SedCmd list \<Rightarrow> bool \<Rightarrow> nat \<Rightarrow> string list \<Rightarrow> string list" where
  "sed_lines cmds suppress idx [] = []"
| "sed_lines cmds suppress idx (line # ls) =
     (case sed_apply_line line (idx + 1) cmds suppress of (emitted, quit) \<Rightarrow>
        emitted @ (if quit then [] else sed_lines cmds suppress (idx + 1) ls))"

section \<open>The program\<close>

record sed_opts =
  se_in_place :: bool
  se_suppress :: bool
  se_scripts :: "string list"
  se_paths :: "string list"

definition sed_flag :: "sed_opts \<Rightarrow> string \<Rightarrow> string + sed_opts" where
  "sed_flag opts c =
     (if c = ''i'' then Inr (opts\<lparr>se_in_place := True\<rparr>)
      else if c = ''n'' then Inr (opts\<lparr>se_suppress := True\<rparr>)
      else Inl (''sed: invalid option -- '' @ [SQUOTE] @ c @ [SQUOTE]))"

definition sed_scan :: "sed_opts scan" where
  "sed_scan opts a as =
     (if a = ''-i'' then Inr (opts\<lparr>se_in_place := True\<rparr>, 0)
      else if a = ''-n'' then Inr (opts\<lparr>se_suppress := True\<rparr>, 0)
      else if a = ''-e'' then
        Inr (case as of [] \<Rightarrow> opts | b # _ \<Rightarrow> opts\<lparr>se_scripts := se_scripts opts @ [b]\<rparr>, 1)
      else if starts_with a ''-e'' then Inr (opts\<lparr>se_scripts := se_scripts opts @ [drop 2 a]\<rparr>, 0)
      else if starts_with a ''-'' \<and> length a > 1 then took 0 (scan_chars sed_flag opts (cluster a))
      else if se_scripts opts = [] then Inr (opts\<lparr>se_scripts := [a]\<rparr>, 0)
      else Inr (opts\<lparr>se_paths := se_paths opts @ [a]\<rparr>, 0))"

definition sed_body :: "SedCmd list \<Rightarrow> sed_opts \<Rightarrow> string option \<Rightarrow> string \<Rightarrow> ('h, unit) cact" where
  "sed_body cmds opts source data =
     (let result = unlines (sed_lines cmds (se_suppress opts) 0 (text_lines data)) in
      if se_in_place opts then
        (case source of
           Some path \<Rightarrow> andThen (ctx_write_file path result) (\<lambda>_. ret ())
         | None \<Rightarrow> ret ())
      else ctx_out result)"

definition builtin_sed :: "regex_new \<Rightarrow> 'h program" where
  "builtin_sed regex args =
     andThen (args_tail args) (\<lambda>rest.
     with_options (scan_args sed_scan \<lparr>se_in_place = False, se_suppress = False, se_scripts = [], se_paths = []\<rparr>
         rest) (\<lambda>opts.
       if se_scripts opts = [] then bail ''sed: no script''
       else (case parse_sed_commands regex (join [NL] (se_scripts opts)) of
               Inl e \<Rightarrow> bail (''sed: '' @ e)
             | Inr cmds \<Rightarrow>
                 andThen (fold_act (with_source ''sed'' (\<lambda>_ source data. sed_body cmds opts source data))
                            ((), 0) (sources (se_paths opts)))
                   (\<lambda>(_, code). ret code))))"

end
