(* ===== verification/BuiltinsEnv.thy ===== *)
theory BuiltinsEnv
  imports BuiltinCore
begin

text \<open>
  The built-in programs that work on the environment, the directory and the aliases, the ones that
  print, \<open>test\<close>, and the system information. The text of a floating point number (\<open>%f\<close> and \<open>%e\<close>
  of \<open>printf\<close>) and the brook_math crate are parameters.
\<close>

section \<open>cd, pwd, env, export, unset\<close>

definition builtin_cd :: "'h program" where
  "builtin_cd args =
     andThen (ctx_get_env ''HOME'') (\<lambda>home.
     andThen ctx_cwd (\<lambda>cwd.
       let target = (if 1 < length args then args ! 1 else case home of Some h \<Rightarrow> h | None \<Rightarrow> ''/'');
           new_cwd = resolve_path cwd target in
       andThen (ctx_stat new_cwd) (\<lambda>r.
         case r of
           Inr s \<Rightarrow> if is_dir s then andThen (ctx_set_cwd new_cwd) (\<lambda>_. ret 0)
                    else bail (''cd: '' @ target @ '': not a directory'')
         | Inl e \<Rightarrow> bail (''cd: '' @ target @ '': '' @ show_vfs_error e))))"

definition builtin_pwd :: "'h program" where
  "builtin_pwd args = andThen ctx_cwd (\<lambda>cwd. andThen (out_line cwd) (\<lambda>_. ret 0))"

definition builtin_env :: "'h program" where
  "builtin_env args =
     andThen ctx_env_snapshot (\<lambda>env.
     andThen (out_lines (map (\<lambda>(k, v). k @ ''='' @ v) (sort_key fst (env_to_vec env)))) (\<lambda>_. ret 0))"

definition builtin_export :: "'h program" where
  "builtin_export args =
     (if length args < 2 then builtin_env args
      else andThen (for_each (\<lambda>arg. case split_once CHR ''='' arg of
               Some (k, v) \<Rightarrow> ctx_set_env k v | None \<Rightarrow> ret ()) (drop 1 args)) (\<lambda>_. ret 0))"

definition builtin_unset :: "'h program" where
  "builtin_unset args = andThen (for_each ctx_unset_env (drop 1 args)) (\<lambda>_. ret 0)"

section \<open>echo\<close>

fun echo_flags :: "string list \<Rightarrow> bool \<Rightarrow> bool \<Rightarrow> bool \<times> bool \<times> string list" where
  "echo_flags [] no_newline escape = (no_newline, escape, [])"
| "echo_flags (a # rest) no_newline escape =
     (if a = ''-n'' then echo_flags rest True escape
      else if a = ''-e'' then echo_flags rest no_newline True
      else if a = ''-E'' then echo_flags rest no_newline False
      else if a = ''-ne'' \<or> a = ''-en'' then echo_flags rest True True
      else (no_newline, escape, a # rest))"

definition echo_text :: "string list \<Rightarrow> string" where
  "echo_text args =
     (case echo_flags args False False of (no_newline, escape, rest) \<Rightarrow>
        (let txt = join '' '' rest in
         (if escape then interpret_escapes txt else txt) @ (if no_newline then [] else [NL])))"

definition builtin_echo :: "'h program" where
  "builtin_echo args =
     andThen (args_tail args) (\<lambda>rest. andThen (ctx_out (echo_text rest)) (\<lambda>_. ret 0))"

section \<open>printf\<close>

fun show_base :: "nat \<Rightarrow> (nat \<Rightarrow> char) \<Rightarrow> nat \<Rightarrow> string" where
  "show_base b d n = (if n < b \<or> b < 2 then [d n] else show_base b d (n div b) @ [d (n mod b)])"

declare show_base.simps [simp del]

text \<open>\<open>{:x}\<close>, \<open>{:X}\<close> and \<open>{:o}\<close> of an \<open>i64\<close> show its 64 bits.\<close>

definition bits64 :: "int \<Rightarrow> nat" where
  "bits64 n = nat (n mod 2 ^ 64)"

definition upper_digit :: "nat \<Rightarrow> char" where
  "upper_digit d = (if d < 10 then char_of (48 + d) else char_of (55 + d))"

definition i64_arg :: "string option \<Rightarrow> int" where
  "i64_arg a = (case Option.bind a (parse_signed 64) of Some n \<Rightarrow> n | None \<Rightarrow> 0)"

definition printf_escape :: "string \<Rightarrow> string" where
  "printf_escape c =
     (if c = ''n'' then [NL] else if c = ''t'' then [TAB] else if c = ''r'' then [CR]
      else if c = [BSLASH] then [BSLASH] else if c = ''0'' then [] else BSLASH # c)"

text \<open>A conversion: its text, and whether it takes the argument.\<close>

definition printf_conv :: "(char \<Rightarrow> string option \<Rightarrow> string) \<Rightarrow> string \<Rightarrow> string option \<Rightarrow> string \<times> bool" where
  "printf_conv f64 c a =
     (if c = ''s'' then (case a of Some s \<Rightarrow> s | None \<Rightarrow> [], True)
      else if c = ''d'' \<or> c = ''i'' then (show_int (i64_arg a), True)
      else if c = ''f'' then (f64 CHR ''f'' a, True)
      else if c = ''e'' then (f64 CHR ''e'' a, True)
      else if c = ''c'' then (case Option.bind a first_char of Some ch \<Rightarrow> ch | None \<Rightarrow> [], True)
      else if c = ''x'' then (show_base 16 hex_digit (bits64 (i64_arg a)), True)
      else if c = ''X'' then (show_base 16 upper_digit (bits64 (i64_arg a)), True)
      else if c = ''o'' then (show_base 8 hex_digit (bits64 (i64_arg a)), True)
      else if c = ''b'' then (interpret_escapes (case a of Some s \<Rightarrow> s | None \<Rightarrow> []), True)
      else if c = ''%'' then (''%'', False)
      else (''%'' @ c, False))"

fun printf_loop :: "(char \<Rightarrow> string option \<Rightarrow> string) \<Rightarrow> string list \<Rightarrow> string list \<Rightarrow> string" where
  "printf_loop f64 [] args = []"
| "printf_loop f64 [c] args = c"
| "printf_loop f64 (c # d # cs) args =
     (if c = [BSLASH] then printf_escape d @ printf_loop f64 cs args
      else if c = ''%'' then
        (case printf_conv f64 d (case args of [] \<Rightarrow> None | a # _ \<Rightarrow> Some a) of
           (txt, used) \<Rightarrow> txt @ printf_loop f64 cs (if used then drop 1 args else args))
      else c @ printf_loop f64 (d # cs) args)"

definition format_printf :: "(char \<Rightarrow> string option \<Rightarrow> string) \<Rightarrow> string \<Rightarrow> string list \<Rightarrow> string" where
  "format_printf f64 fmt args = printf_loop f64 (utf8_chars fmt) args"

definition builtin_printf :: "(char \<Rightarrow> string option \<Rightarrow> string) \<Rightarrow> 'h program" where
  "builtin_printf f64 args =
     (if length args < 2 then bail ''printf: missing format string''
      else andThen (ctx_out (format_printf f64 (args ! 1) (drop 2 args))) (\<lambda>_. ret 0))"

section \<open>test\<close>

fun position :: "string \<Rightarrow> string list \<Rightarrow> nat option" where
  "position x [] = None"
| "position x (y # ys) = (if y = x then Some 0 else map_option Suc (position x ys))"

lemma position_less: "position x ys = Some i \<Longrightarrow> i < length ys"
  by (induction ys arbitrary: i) (auto split: if_splits)

definition test_stat :: "string \<Rightarrow> (Stat \<Rightarrow> bool) \<Rightarrow> ('h, bool) cact" where
  "test_stat path P = andThen (ctx_stat path) (\<lambda>r. ret (case r of Inr s \<Rightarrow> P s | Inl _ \<Rightarrow> False))"

definition test_unary :: "string \<Rightarrow> string \<Rightarrow> ('h, bool) cact" where
  "test_unary op operand =
     (if op = ''-n'' then ret (operand \<noteq> [])
      else if op = ''-z'' then ret (operand = [])
      else if op = ''-f'' then test_stat operand is_file
      else if op = ''-d'' then test_stat operand is_dir
      else if op = ''-e'' then test_stat operand (\<lambda>_. True)
      else if op = ''-r'' \<or> op = ''-w'' \<or> op = ''-x'' then test_stat operand (\<lambda>_. True)
      else if op = ''-s'' then test_stat operand (\<lambda>s. st_size s > 0)
      else ret (op \<noteq> []))"

definition test_binary :: "string \<Rightarrow> string \<Rightarrow> string \<Rightarrow> bool" where
  "test_binary lhs op rhs =
     (if op = ''='' \<or> op = ''=='' then lhs = rhs
      else if op = ''!='' then lhs \<noteq> rhs
      else if op = ''-eq'' then parse_num lhs = parse_num rhs
      else if op = ''-ne'' then parse_num lhs \<noteq> parse_num rhs
      else if op = ''-lt'' then parse_num lhs < parse_num rhs
      else if op = ''-gt'' then parse_num lhs > parse_num rhs
      else if op = ''-le'' then parse_num lhs \<le> parse_num rhs
      else if op = ''-ge'' then parse_num lhs \<ge> parse_num rhs
      else False)"

function eval_test :: "string list \<Rightarrow> ('h, bool) cact" where
  "eval_test args =
     (if args = [] then ret False
      else case position ''-o'' args of
        Some pos \<Rightarrow>
          andThen (eval_test (take pos args)) (\<lambda>l.
          andThen (eval_test (drop (pos + 1) args)) (\<lambda>r. ret (l \<or> r)))
      | None \<Rightarrow>
        (case position ''-a'' args of
           Some pos \<Rightarrow>
             andThen (eval_test (take pos args)) (\<lambda>l.
             andThen (eval_test (drop (pos + 1) args)) (\<lambda>r. ret (l \<and> r)))
         | None \<Rightarrow>
             if length args = 1 then ret (args ! 0 \<noteq> [])
             else if args ! 0 = ''!'' then andThen (eval_test (drop 1 args)) (\<lambda>b. ret (\<not> b))
             else if length args = 2 then test_unary (args ! 0) (args ! 1)
             else if length args = 3 then ret (test_binary (args ! 0) (args ! 1) (args ! 2))
             else ret False))"
  by pat_completeness auto
termination
  by (relation "measure length") (auto dest: position_less)

declare eval_test.simps [simp del]

definition builtin_test :: "'h program" where
  "builtin_test args =
     andThen (args_tail args) (\<lambda>rest0.
       let rest = (if args ! 0 = ''['' \<and> rest0 \<noteq> [] \<and> last rest0 = '']'' then butlast rest0 else rest0) in
       andThen (eval_test rest) (\<lambda>b. ret (if b then 0 else 1)))"

section \<open>read, awk, kill\<close>

definition builtin_read :: "'h program" where
  "builtin_read args =
     andThen ctx_read_stdin (\<lambda>data.
     andThen (ctx_set_env (if 1 < length args then args ! 1 else ''REPLY'')
       (case text_lines data of [] \<Rightarrow> [] | l # _ \<Rightarrow> l)) (\<lambda>_. ret 0))"

definition builtin_awk :: "'h program" where
  "builtin_awk args = bail ''awk: not supported -- use grep, sed, cut, or tr as alternatives''"

definition builtin_kill :: "'h program" where
  "builtin_kill args = ret 0"

section \<open>Aliases\<close>

definition alias_line :: "string \<Rightarrow> string \<Rightarrow> string" where
  "alias_line name val = ''alias '' @ name @ ''='' @ [SQUOTE] @ val @ [SQUOTE]"

definition alias_arg :: "int \<Rightarrow> string \<Rightarrow> ('h, int) cact" where
  "alias_arg code arg =
     (case split_once CHR ''='' arg of
        Some (name, val) \<Rightarrow> andThen (ctx_set_alias name val) (\<lambda>_. ret code)
      | None \<Rightarrow>
          andThen (ctx_get_alias arg) (\<lambda>r.
            case r of
              Some val \<Rightarrow> andThen (out_line (alias_line arg val)) (\<lambda>_. ret code)
            | None \<Rightarrow> bail (''alias: '' @ arg @ '': not found'')))"

definition builtin_alias :: "'h program" where
  "builtin_alias args =
     (if length args < 2 then
        andThen ctx_aliases_snapshot (\<lambda>aliases.
        andThen (out_lines (map (\<lambda>(name, val). alias_line name val) (sort_key fst aliases))) (\<lambda>_. ret 0))
      else fold_act alias_arg 0 (drop 1 args))"

definition unalias_arg :: "int \<Rightarrow> string \<Rightarrow> ('h, int) cact" where
  "unalias_arg code arg =
     (if arg = ''-a'' then
        andThen ctx_aliases_snapshot (\<lambda>aliases.
        andThen (for_each ctx_unset_alias (sm_keys aliases)) (\<lambda>_. ret code))
      else andThen (ctx_get_alias arg) (\<lambda>r.
        case r of
          Some _ \<Rightarrow> andThen (ctx_unset_alias arg) (\<lambda>_. ret code)
        | None \<Rightarrow> bail (''unalias: '' @ arg @ '': not found'')))"

definition builtin_unalias :: "'h program" where
  "builtin_unalias args = fold_act unalias_arg 0 (drop 1 args)"

section \<open>uname and neofetch\<close>

definition CARGO_PKG_VERSION :: string where
  "CARGO_PKG_VERSION = ''0.2.2''"

definition uname_text :: "string list \<Rightarrow> string" where
  "uname_text args =
     (let everything = list_ex (\<lambda>a. a = ''-a'') args;
          has = (\<lambda>c. list_ex (str_contains c) args) in
      join '' ''
        ((if everything \<or> args = [] \<or> has CHR ''s'' then [''wasm_shell''] else [])
         @ (if everything \<or> has CHR ''n'' then [''wasm_shell''] else [])
         @ (if everything \<or> has CHR ''r'' then [CARGO_PKG_VERSION] else [])
         @ (if everything \<or> has CHR ''v'' then [''#1''] else [])
         @ (if everything \<or> has CHR ''m'' then [''wasm32''] else [])))"

definition builtin_uname :: "'h program" where
  "builtin_uname args =
     andThen (args_tail args) (\<lambda>rest. andThen (out_line (uname_text rest)) (\<lambda>_. ret 0))"

text \<open>A labelled line for each of the trimmed texts that is not empty.\<close>

definition info_lines :: "string \<Rightarrow> string list \<Rightarrow> string" where
  "info_lines label ts =
     unlines (map (\<lambda>t. label @ '': '' @ t) (filter (\<lambda>t. t \<noteq> []) (map trim ts)))"

definition info_file :: "string \<Rightarrow> (string \<Rightarrow> string) \<Rightarrow> ('h, string) cact" where
  "info_file path show = andThen (ctx_read_file path) (\<lambda>r.
     ret (case r of Inr data \<Rightarrow> show data | Inl _ \<Rightarrow> []))"

definition builtin_neofetch :: "'h program" where
  "builtin_neofetch args =
     andThen (info_file ''/etc/hostname'' (\<lambda>d. info_lines ''Hostname'' [from_utf8_lossy d])) (\<lambda>host.
     andThen (info_file ''/etc/cpu'' (\<lambda>d. info_lines ''CPU'' [from_utf8_lossy d])) (\<lambda>cpu.
     andThen (info_file ''/etc/gpu'' (\<lambda>d. info_lines ''GPU'' (text_lines d))) (\<lambda>gpu.
     andThen (ctx_out (''OS: wasm_shell '' @ CARGO_PKG_VERSION @ [NL] @ host @ cpu @ gpu)) (\<lambda>_. ret 0))))"

section \<open>calculate\<close>

text \<open>What brook_math's \<open>evaluate_multiline\<close> gives, values being their text.\<close>

datatype MathOutput = PureExpr string | MathValue string | MathOk | MathFail string

type_synonym math_lib = "string \<Rightarrow> string + MathOutput \<times> (string \<times> string) list"

fun math_text :: "MathOutput \<Rightarrow> string" where
  "math_text (PureExpr v) = v"
| "math_text (MathValue v) = v"
| "math_text MathOk = ''OK''"
| "math_text (MathFail orig) = ''no: `'' @ orig @ ''` does not hold''"

definition builtin_calculate :: "math_lib \<Rightarrow> 'h program" where
  "builtin_calculate evaluate args =
     andThen (args_tail args) (\<lambda>rest.
     andThen (if rest = [] then andThen ctx_read_stdin (\<lambda>data. ret (from_utf8_lossy data))
              else ret (join '' '' rest)) (\<lambda>expr.
       case evaluate expr of
         Inr (result, computed) \<Rightarrow>
           andThen (out_line (math_text result
             @ concat (map (\<lambda>(name, val). [NL] @ name @ '' = '' @ val) computed))) (\<lambda>_. ret 0)
       | Inl e \<Rightarrow> bail (''calculate: error: '' @ e)))"

definition builtin_bc :: "math_lib \<Rightarrow> 'h program" where
  "builtin_bc evaluate args = builtin_calculate evaluate args"

end
