(* ===== verification/BuiltinsLib.thy ===== *)
theory BuiltinsLib
  imports BuiltinCore
begin

text \<open>
  The built-in programs around a library: \<open>toml\<close>, whose parser is a parameter and whose editing and
  formatting are the code's own, and \<open>resvg\<close>, whose parser, geometry and renderer are the fields of a
  record. A float or a date of a TOML value is its text.
\<close>

section \<open>toml\<close>

datatype TomlValue =
    TString string
  | TInteger int
  | TFloat string
  | TBoolean bool
  | TDatetime string
  | TArray "TomlValue list"
  | TTable "(string \<times> TomlValue) list"

type_synonym toml_table = "(string, TomlValue) smap"
type_synonym toml_lib = "string \<Rightarrow> string + toml_table"

definition toml_escape_char :: "char \<Rightarrow> string" where
  "toml_escape_char c =
     (if c = DQUOTE then [BSLASH, DQUOTE] else if c = BSLASH then [BSLASH, BSLASH]
      else if c = NL then [BSLASH, CHR ''n''] else if c = TAB then [BSLASH, CHR ''t'']
      else if c = CR then [BSLASH, CHR ''r''] else [c])"

definition toml_escape_str :: "string \<Rightarrow> string" where
  "toml_escape_str s = DQUOTE # concat (map toml_escape_char s) @ [DQUOTE]"

fun toml_format_val :: "TomlValue \<Rightarrow> string" where
  "toml_format_val (TString s) = toml_escape_str s"
| "toml_format_val (TInteger i) = show_int i"
| "toml_format_val (TFloat f) = f"
| "toml_format_val (TBoolean b) = (if b then ''true'' else ''false'')"
| "toml_format_val (TDatetime d) = d"
| "toml_format_val (TArray arr) =
     (if arr = [] then ''[]''
      else CHR ''['' # NL # concat (map (\<lambda>item. ''    '' @ toml_format_val item @ [CHR '','', NL]) arr) @ '']'')"
| "toml_format_val (TTable t) =
     ''{ '' @ join '', '' (map (\<lambda>(k, v). k @ '' = '' @ toml_format_val v) t) @ '' }''"

definition toml_format_table :: "toml_table \<Rightarrow> string" where
  "toml_format_table table = unlines (map (\<lambda>(key, val). key @ '' = '' @ toml_format_val val) table)"

definition quoted :: "string \<Rightarrow> string" where
  "quoted s = [SQUOTE] @ s @ [SQUOTE]"

text \<open>The change of the table, or the message of the failure.\<close>

definition toml_push :: "string \<Rightarrow> string \<Rightarrow> toml_table \<Rightarrow> string + toml_table" where
  "toml_push key val table =
     (case (case sm_get table key of Some v \<Rightarrow> v | None \<Rightarrow> TArray []) of
        TArray v \<Rightarrow> Inr (sm_insert key (TArray (v @ [TString val])) table)
      | _ \<Rightarrow> Inl (''toml: '' @ quoted key @ '' is not an array''))"

definition toml_remove :: "string \<Rightarrow> string \<Rightarrow> toml_table \<Rightarrow> string + toml_table" where
  "toml_remove key val table =
     (case sm_get table key of
        Some (TArray v) \<Rightarrow>
          (let v' = filter (\<lambda>item. item \<noteq> TString val) v in
           if length v' = length v then Inl (''toml: '' @ quoted val @ '' not found in '' @ quoted key)
           else Inr (sm_insert key (TArray v') table))
      | Some _ \<Rightarrow> Inl (''toml: '' @ quoted key @ '' is not an array'')
      | None \<Rightarrow> Inl (''toml: key '' @ quoted key @ '' not found''))"

definition toml_edit :: "string \<Rightarrow> string \<Rightarrow> string \<Rightarrow> toml_table \<Rightarrow> string + toml_table" where
  "toml_edit op key val table =
     (if op = ''push'' then toml_push key val table
      else if op = ''remove'' then toml_remove key val table
      else Inl (''toml: unknown operation '' @ quoted op @ '' (expected push or remove)''))"

definition toml_help :: string where
  "toml_help = unlines
     [''toml - TOML file editor'', [], ''USAGE:'',
      ''  toml <file> <key> push <value>     Append a string to an array key'',
      ''  toml <file> <key> remove <value>   Remove a string from an array key'', [], ''NOTES:'',
      ''  File is created if it does not exist.'',
      ''  File is always rewritten with 4-space indentation.'', [], ''EXAMPLES:'',
      ''  toml memory.toml notes push '' @ [DQUOTE] @ ''hello'' @ [DQUOTE],
      ''  toml memory.toml notes remove '' @ [DQUOTE] @ ''hello'' @ [DQUOTE]]"

text \<open>The table in the file, which is empty and announced as created when the file does not read.\<close>

definition toml_load :: "toml_lib \<Rightarrow> string \<Rightarrow> ('h, string + toml_table) cact" where
  "toml_load from_str file =
     andThen (ctx_read_file file) (\<lambda>r.
       case r of
         Inr data \<Rightarrow>
           ret (case from_str (from_utf8_lossy data) of
                  Inr t \<Rightarrow> Inr t
                | Inl e \<Rightarrow> Inl (''toml: parse error in '' @ file @ '': '' @ e))
       | Inl _ \<Rightarrow> andThen (out_line (''toml: created '' @ file)) (\<lambda>_. ret (Inr [])))"

definition builtin_toml :: "toml_lib \<Rightarrow> 'h program" where
  "builtin_toml from_str args0 =
     (if ''--help'' \<in> set args0 then andThen (ctx_out toml_help) (\<lambda>_. ret 0)
      else andThen (args_tail args0) (\<lambda>args.
        if length args < 4 then bail ''toml: usage: toml <file> <key> <push|remove> <value>''
        else (let file = args ! 0 in
          andThen (toml_load from_str file) (\<lambda>t. with_options t (\<lambda>table.
          with_options (toml_edit (args ! 2) (args ! 1) (args ! 3) table) (\<lambda>table'.
          andThen (ctx_write_file file (toml_format_table table')) (\<lambda>r.
            case r of
              Inr _ \<Rightarrow> ret 0
            | Inl e \<Rightarrow> bail (''toml: failed to write '' @ file @ '': '' @ show_vfs_error e))))))))"

section \<open>resvg\<close>

type_synonym IntSize = "nat \<times> nat"

datatype FitTo = Original | Width nat | Height nat | Size nat nat

text \<open>
  A parsed drawing: its size in pixels, and the PNG of its rendering at a scale (from its size to
  another, or none), on a background, in an image of a size. The geometry of the crates: a
  \<open>usvg::Size\<close> exists for a width and a height, and so on.
\<close>

record SvgTree =
  tree_size :: IntSize
  tree_png :: "(IntSize \<times> IntSize) option \<Rightarrow> string option \<Rightarrow> IntSize \<Rightarrow> string + string"

record SvgLib =
  svg_color :: "string \<Rightarrow> string option"
  svg_size_from_wh :: "nat \<Rightarrow> nat \<Rightarrow> bool"
  svg_int_from_wh :: "nat \<Rightarrow> nat \<Rightarrow> IntSize option"
  svg_scale_to_width :: "IntSize \<Rightarrow> nat \<Rightarrow> IntSize option"
  svg_scale_to_height :: "IntSize \<Rightarrow> nat \<Rightarrow> IntSize option"
  svg_scale_to :: "IntSize \<Rightarrow> IntSize \<Rightarrow> IntSize"
  svg_tree :: "nat \<times> nat \<Rightarrow> string \<Rightarrow> string + SvgTree"
  svg_pixmap :: "IntSize \<Rightarrow> bool"

definition fit_to_size :: "SvgLib \<Rightarrow> FitTo \<Rightarrow> IntSize \<Rightarrow> IntSize option" where
  "fit_to_size svg fit sz =
     (case fit of
        Original \<Rightarrow> Some sz
      | Width w \<Rightarrow> svg_scale_to_width svg sz w
      | Height h \<Rightarrow> svg_scale_to_height svg sz h
      | Size w h \<Rightarrow> map_option (svg_scale_to svg sz) (svg_int_from_wh svg w h))"

definition fit_to_transform :: "SvgLib \<Rightarrow> FitTo \<Rightarrow> IntSize \<Rightarrow> (IntSize \<times> IntSize) option" where
  "fit_to_transform svg fit sz = map_option (Pair sz) (fit_to_size svg fit sz)"

record resvg_opts =
  rs_width :: "nat option"
  rs_height :: "nat option"
  rs_background :: "string option"
  rs_input :: "string option"
  rs_output :: "string option"

definition resvg_scan :: "SvgLib \<Rightarrow> resvg_opts scan" where
  "resvg_scan svg opts a as =
     (let next = (case as of [] \<Rightarrow> None | b # _ \<Rightarrow> Some b); u32 = parse_unsigned 32 in
      if a = ''-w'' \<or> a = ''--width'' then Inr (opts\<lparr>rs_width := Option.bind next u32\<rparr>, 1)
      else if a = ''-h'' \<or> a = ''--height'' then Inr (opts\<lparr>rs_height := Option.bind next u32\<rparr>, 1)
      else if a = ''--background'' then Inr (opts\<lparr>rs_background := Option.bind next (svg_color svg)\<rparr>, 1)
      else if starts_with a ''--width='' then Inr (opts\<lparr>rs_width := u32 (drop 8 a)\<rparr>, 0)
      else if starts_with a ''--height='' then Inr (opts\<lparr>rs_height := u32 (drop 9 a)\<rparr>, 0)
      else if starts_with a ''--background='' then Inr (opts\<lparr>rs_background := svg_color svg (drop 13 a)\<rparr>, 0)
      else if starts_with a ''-'' \<and> length a > 1 then Inl (''resvg: unknown option: '' @ a)
      else if rs_input opts = None then Inr (opts\<lparr>rs_input := Some a\<rparr>, 0)
      else Inr (opts\<lparr>rs_output := Some a\<rparr>, 0))"

definition resvg_help :: string where
  "resvg_help = unlines
     [''resvg - SVG to PNG renderer'', [], ''USAGE:'',
      ''  resvg [OPTIONS] <in-svg> <out-png>'',
      ''  resvg [OPTIONS] <in-svg> -c        # output to stdout'', [], ''OPTIONS:'',
      ''  -w, --width LENGTH     Output width in pixels'',
      ''  -h, --height LENGTH    Output height in pixels'',
      ''  --background COLOR     Background color (e.g. white, #fff, #ffffff)'',
      ''  --help                 Print this help'', [], ''ARGS:'',
      ''  <in-svg>   Input SVG file, or - for stdin'',
      ''  <out-png>  Output PNG file, or -c for stdout'']"

text \<open>The default size and the fit; the \<open>unwrap\<close> of a size that does not exist panics.\<close>

definition resvg_fit :: "SvgLib \<Rightarrow> nat option \<Rightarrow> nat option \<Rightarrow> ((nat \<times> nat) \<times> FitTo) option" where
  "resvg_fit svg width height =
     (let w = (case width of Some n \<Rightarrow> n | None \<Rightarrow> 100); h = (case height of Some n \<Rightarrow> n | None \<Rightarrow> 100) in
      if \<not> svg_size_from_wh svg 100 100 \<or> \<not> svg_size_from_wh svg w h then None
      else Some ((w, h),
        case (width, height) of
          (Some w, Some h) \<Rightarrow> Size w h
        | (Some w, None) \<Rightarrow> Width w
        | (None, Some h) \<Rightarrow> Height h
        | (None, None) \<Rightarrow> Original))"

definition resvg_render :: "SvgLib \<Rightarrow> nat \<times> nat \<Rightarrow> FitTo \<Rightarrow> string option \<Rightarrow> string \<Rightarrow> string + string" where
  "resvg_render svg default_size fit background svg_string =
     (case svg_tree svg default_size svg_string of
        Inl e \<Rightarrow> Inl (''resvg: failed to parse SVG: '' @ e)
      | Inr tree \<Rightarrow>
          (case fit_to_size svg fit (tree_size tree) of
             None \<Rightarrow> Inl ''resvg: target size is zero''
           | Some sz \<Rightarrow>
               if \<not> svg_pixmap svg sz then Inl ''resvg: cannot allocate pixmap''
               else (case tree_png tree (fit_to_transform svg fit (tree_size tree)) background sz of
                       Inl e \<Rightarrow> Inl (''resvg: failed to encode PNG: '' @ e)
                     | Inr png \<Rightarrow> Inr png)))"

text \<open>The bytes of the input, or the message that it does not read.\<close>

definition resvg_input :: "string \<Rightarrow> ('h, string + string) cact" where
  "resvg_input input =
     (if input = ''-'' then andThen ctx_read_stdin (\<lambda>data. ret (Inr data))
      else andThen (ctx_read_file input) (\<lambda>r.
        ret (case r of Inr d \<Rightarrow> Inr d | Inl e \<Rightarrow> Inl (''resvg: '' @ input @ '': '' @ show_vfs_error e))))"

definition builtin_resvg :: "SvgLib \<Rightarrow> 'h program" where
  "builtin_resvg svg args =
     (if ''--help'' \<in> set args then andThen (ctx_out resvg_help) (\<lambda>_. ret 0)
      else with_options (scan_args (resvg_scan svg) \<lparr>rs_width = None, rs_height = None, rs_background = None,
          rs_input = None, rs_output = None\<rparr> (drop 1 args)) (\<lambda>opts.
        case rs_input opts of
          None \<Rightarrow> bail ''resvg: missing input file''
        | Some input \<Rightarrow>
            (case rs_output opts of
               None \<Rightarrow> bail ''resvg: missing output file (or -c)''
             | Some output_path \<Rightarrow>
                 andThen (resvg_input input) (\<lambda>r. with_options r (\<lambda>data.
                   if \<not> valid_utf8 data then bail ''resvg: input is not valid UTF-8''
                   else (case resvg_fit svg (rs_width opts) (rs_height opts) of
                     None \<Rightarrow> panic
                   | Some (default_size, fit) \<Rightarrow>
                       with_options (resvg_render svg default_size fit (rs_background opts) data) (\<lambda>png.
                         if output_path = ''-c'' then andThen (ctx_out png) (\<lambda>_. ret 0)
                         else andThen (ctx_write_file output_path png) (\<lambda>w.
                           case w of
                             Inr _ \<Rightarrow> ret 0
                           | Inl e \<Rightarrow> bail (''resvg: '' @ output_path @ '': '' @ show_vfs_error e)))))))))"

end
