(* ===== verification/Builtins.thy ===== *)
theory Builtins
  imports BuiltinsFs BuiltinsSed BuiltinsEnv BuiltinsLib
begin

text \<open>
  The registration of the built-in programs and the new shell. The libraries they call are the
  fields of a record, with the bound on the depth of the recursive walks.
\<close>

record Libs =
  lib_regex :: regex_new
  lib_evaluate :: math_lib
  lib_f64 :: "char \<Rightarrow> string option \<Rightarrow> string"
  lib_toml :: toml_lib
  lib_svg :: SvgLib
  lib_depth :: nat

text \<open>\<open>sleep\<close> waits and changes nothing; \<open>true\<close>, \<open>false\<close> and \<open>wait\<close> give a code.\<close>

definition const_program :: "int \<Rightarrow> 'h program" where
  "const_program code args = ret code"

definition builtin_programs :: "Libs \<Rightarrow> (string \<times> 'h program) list" where
  "builtin_programs lib =
     [(''/usr/bin/cat'', builtin_cat),
      (''/usr/bin/ls'', builtin_ls (lib_depth lib)),
      (''/usr/bin/mkdir'', builtin_mkdir),
      (''/usr/bin/rm'', builtin_rm),
      (''/usr/bin/mv'', builtin_mv),
      (''/usr/bin/cp'', builtin_cp (lib_depth lib)),
      (''/usr/bin/touch'', builtin_touch),
      (''/usr/bin/find'', builtin_find (lib_depth lib)),
      (''/usr/bin/head'', builtin_head),
      (''/usr/bin/tail'', builtin_tail),
      (''/usr/bin/wc'', builtin_wc),
      (''/usr/bin/sort'', builtin_sort),
      (''/usr/bin/uniq'', builtin_uniq),
      (''/usr/bin/cut'', builtin_cut),
      (''/usr/bin/tr'', builtin_tr),
      (''/usr/bin/grep'', builtin_grep (lib_regex lib) (lib_depth lib)),
      (''/usr/bin/sed'', builtin_sed (lib_regex lib)),
      (''/usr/bin/cd'', builtin_cd),
      (''/usr/bin/pwd'', builtin_pwd),
      (''/usr/bin/env'', builtin_env),
      (''/usr/bin/export'', builtin_export),
      (''/usr/bin/unset'', builtin_unset),
      (''/usr/bin/echo'', builtin_echo),
      (''/usr/bin/printf'', builtin_printf (lib_f64 lib)),
      (''/usr/bin/true'', const_program 0),
      (''/usr/bin/false'', const_program 1),
      (''/usr/bin/test'', builtin_test),
      (''/usr/bin/sleep'', const_program 0),
      (''/usr/bin/read'', builtin_read),
      (''/usr/bin/awk'', builtin_awk),
      (''/usr/bin/wait'', const_program 0),
      (''/usr/bin/kill'', builtin_kill),
      (''/usr/bin/alias'', builtin_alias),
      (''/usr/bin/unalias'', builtin_unalias),
      (''/usr/bin/uname'', builtin_uname),
      (''/usr/bin/neofetch'', builtin_neofetch),
      (''/usr/bin/bc'', builtin_bc (lib_evaluate lib)),
      (''/usr/bin/calculate'', builtin_calculate (lib_evaluate lib)),
      (''/usr/bin/resvg'', builtin_resvg (lib_svg lib)),
      (''/usr/bin/toml'', builtin_toml (lib_toml lib))]"

definition register :: "Libs \<Rightarrow> 'h Shell \<Rightarrow> 'h Shell" where
  "register lib sh = foldl (\<lambda>s (name, f). add_program name f s) sh (builtin_programs lib)"

text \<open>
  A new shell: the initial filesystem (its construction panics on an error, which \<open>VfsSpec\<close> rules
  out), three variables, and the built-in programs. The heredoc queue is taken as
  empty, as it is at the start of the thread.
\<close>

definition initial_env :: EnvMap where
  "initial_env =
     env_set ''TMPDIR'' ''/tmp'' (env_set ''HOME'' ''/home''
       (env_set ''PATH'' ''/usr/bin:/bin:/usr/local/bin'' env_new))"

definition bare_shell :: "'h \<Rightarrow> 'h Shell" where
  "bare_shell h =
     \<lparr>sh_fs = snd (vfs_new h), sh_registry = [], sh_env = initial_env, sh_cwd = ''/'', sh_aliases = [],
       sh_last_exit = 0, sh_bufs = [], sh_tls = tls_init\<rparr>"

definition shell_new :: "Libs \<Rightarrow> 'h \<Rightarrow> 'h Shell" where
  "shell_new lib h = register lib (bare_shell h)"

end
