(* ===== verification/Exec.thy ===== *)
theory Exec
  imports Shell Arith
begin

text \<open>
  Word expansion (\<open>expand.rs\<close>), execution (\<open>exec.rs\<close>) and the entry points of \<open>shell.rs\<close>. Expansion and
  execution call each other through command substitution; both recurse over the syntax tree, so
  the mutual recursion ends by its size. The one call that leaves the tree is the \<open>source\<close>
  built-in, which parses a file and executes it: it is the argument \<open>src\<close> of the functions, and
  \<open>run_level\<close> ties that knot with a bound on the depth of nested \<open>source\<close> commands (the code's
  recursion has none). The argument \<open>oc\<close> is the overflow-checks flag of the build.
\<close>

section \<open>Dispatch\<close>

type_synonym 'h source = "script \<Rightarrow> Io \<Rightarrow> ('h, int) sact"

definition arg :: "string list \<Rightarrow> nat \<Rightarrow> string option" where
  "arg args i = (if i < length args then Some (args ! i) else None)"

definition out :: "Io \<Rightarrow> string \<Rightarrow> ('h, unit) sact" where
  "out io s = sh_write (io_stdout io) s"

definition err :: "Io \<Rightarrow> string \<Rightarrow> ('h, unit) sact" where
  "err io s = sh_write (io_stderr io) s"

text \<open>A message on standard error and an exit code.\<close>

definition complain :: "Io \<Rightarrow> string \<Rightarrow> int \<Rightarrow> ('h, int) sact" where
  "complain io msg code = andThen (err io (msg @ [NL])) (\<lambda>_. ret code)"

definition exit_builtin :: "string list \<Rightarrow> ('h, int) sact" where
  "exit_builtin args =
     (let code = (case arg args 1 of Some s \<Rightarrow> (case parse_signed 32 s of Some n \<Rightarrow> n | None \<Rightarrow> 0) | None \<Rightarrow> 0)
      in fail (Exit code))"

definition source_builtin :: "'h source \<Rightarrow> string list \<Rightarrow> Io \<Rightarrow> ('h, int) sact" where
  "source_builtin src args io =
     (case arg args 1 of
        None \<Rightarrow> complain io ''source: filename required'' 1
      | Some path \<Rightarrow>
          andThen (gets sh_cwd) (\<lambda>cwd.
          andThen (attempt (sh_vfs (read_file (resolve_path cwd path)))) (\<lambda>r.
            case r of
              Inl e \<Rightarrow> complain io (''source: '' @ path @ '': '' @ show_vfs_error e) 1
            | Inr data \<Rightarrow>
                if \<not> valid_utf8 data then complain io ''source: file is not valid UTF-8'' 1
                else andThen (attempt (sh_parse data)) (\<lambda>p.
                  case p of
                    Inl e \<Rightarrow> complain io (''source: '' @ show_parse_error e) 1
                  | Inr script \<Rightarrow> src script io))))"

fun which_loop :: "Io \<Rightarrow> string list \<Rightarrow> int \<Rightarrow> ('h, int) sact" where
  "which_loop io [] code = ret code"
| "which_loop io (name # names) code =
     andThen (gets (\<lambda>sh. find_path (sh_registry sh) name (path_var sh))) (\<lambda>p.
       case p of
         Some path \<Rightarrow> andThen (out io (path @ [NL])) (\<lambda>_. which_loop io names code)
       | None \<Rightarrow> andThen (err io (name @ '': not found'' @ [NL])) (\<lambda>_. which_loop io names 1))"

definition which_builtin :: "string list \<Rightarrow> Io \<Rightarrow> ('h, int) sact" where
  "which_builtin args io =
     (if length args < 2 then complain io ''which: missing argument'' 1
      else which_loop io (drop 1 args) 0)"

definition shell_intrinsics :: "string list" where
  "shell_intrinsics = [''exit'', ''source'', ''.'', ''xargs'', ''which'', ''type'']"

definition type_line :: "string \<Rightarrow> 'h Shell \<Rightarrow> string" where
  "type_line name sh =
     (case sm_get (sh_aliases sh) name of
        Some val \<Rightarrow> name @ '' is aliased to `'' @ val @ [SQUOTE, NL]
      | None \<Rightarrow>
          if name \<in> set shell_intrinsics then name @ '' is a shell builtin'' @ [NL]
          else (case find_path (sh_registry sh) name (path_var sh) of
                  Some p \<Rightarrow> name @ '' is '' @ p @ [NL]
                | None \<Rightarrow> name @ '': not found'' @ [NL]))"

fun type_loop :: "Io \<Rightarrow> string list \<Rightarrow> ('h, int) sact" where
  "type_loop io [] = ret 0"
| "type_loop io (name # names) =
     andThen (gets (type_line name)) (\<lambda>line. andThen (out io line) (\<lambda>_. type_loop io names))"

definition type_builtin :: "string list \<Rightarrow> Io \<Rightarrow> ('h, int) sact" where
  "type_builtin args io =
     (if length args < 2 then complain io ''type: missing argument'' 1
      else type_loop io (drop 1 args))"

text \<open>
  A registered program runs on a context of its own that shares the filesystem and the buffers; its
  environment, directory and aliases come back only when it returns a code.
\<close>

definition run_program :: "'h program \<Rightarrow> string list \<Rightarrow> Io \<Rightarrow> ('h, int) sact" where
  "run_program cb args io =
     (\<lambda>sh. case cb args \<lparr>cx_env = sh_env sh, cx_cwd = sh_cwd sh, cx_aliases = sh_aliases sh,
              cx_fs = sh_fs sh, cx_bufs = sh_bufs sh, cx_io = io\<rparr> of (r, c) \<Rightarrow>
        (let sh1 = sh\<lparr>sh_fs := cx_fs c, sh_bufs := cx_bufs c\<rparr> in
         (r, case r of
               Ok code \<Rightarrow> sh1\<lparr>sh_env := cx_env c, sh_cwd := cx_cwd c, sh_aliases := cx_aliases c\<rparr>
             | _ \<Rightarrow> sh1)))"

definition not_found :: "string \<Rightarrow> Io \<Rightarrow> ('h, int) sact" where
  "not_found name io =
     (if str_contains SLASH name then
        andThen (gets sh_cwd) (\<lambda>cwd.
        andThen (attempt (sh_vfs (stat (resolve_path cwd name)))) (\<lambda>r.
        complain io (''wasm_shell: '' @ name @
          (case r of Inr _ \<Rightarrow> '': Permission denied'' | Inl _ \<Rightarrow> '': No such file or directory'')) 126))
      else complain io (name @ '': command not found'') 127)"

text \<open>
  \<open>xargs\<close> dispatches the command it builds with what it left of its input, which is nothing: a
  second \<open>xargs\<close> finds no words and ends.
\<close>

definition stdin_tokens :: "Io \<Rightarrow> string list" where
  "stdin_tokens io = split_whitespace (from_utf8_lossy (fst (read_to_end (io_stdin io))))"

definition drained :: "Io \<Rightarrow> Io" where
  "drained io = io\<lparr>io_stdin := snd (read_to_end (io_stdin io))\<rparr>"

lemma read_to_end_all: "fst (read_to_end r) = reader_rest r"
  by (simp add: read_to_end_def poll_read_def reader_rest_def Let_def)

lemma drained_rest: "reader_rest (io_stdin (drained io)) = []"
  by (auto simp: drained_def read_to_end_def poll_read_def reader_rest_def Let_def)

lemma no_tokens: "reader_rest (io_stdin io) = [] \<Longrightarrow> stdin_tokens io = []"
  by (simp add: stdin_tokens_def read_to_end_all)

function dispatch :: "'h source \<Rightarrow> string \<Rightarrow> string list \<Rightarrow> Io \<Rightarrow> ('h, int) sact" where
  "dispatch src name args io =
     (if name = ''exit'' then exit_builtin args
      else if name = ''source'' \<or> name = ''.'' then source_builtin src args io
      else if name = ''xargs'' then
        (if stdin_tokens io = [] then ret 0
         else (let cmd_name = (case arg args 1 of Some s \<Rightarrow> s | None \<Rightarrow> ''echo'') in
               dispatch src cmd_name (cmd_name # drop 2 args @ stdin_tokens io) (drained io)))
      else if name = ''which'' then which_builtin args io
      else if name = ''type'' then type_builtin args io
      else (\<lambda>sh. case resolve_program (sh_registry sh) name (path_var sh) of
              Some cb \<Rightarrow> run_program cb args io sh
            | None \<Rightarrow> not_found name io sh))"
  by pat_completeness auto
termination
proof (relation "measure (\<lambda>(_, _, _, io). length (reader_rest (io_stdin io)))")
  fix name :: string and io and args :: "string list" and x and src :: "'h source"
  assume "stdin_tokens io \<noteq> []"
  then have "reader_rest (io_stdin io) \<noteq> []" using no_tokens by blast
  then show "((src, x, x # drop 2 args @ stdin_tokens io, drained io), src, name, args, io)
      \<in> measure (\<lambda>(_, _, _, io). length (reader_rest (io_stdin io)))"
    by (simp add: drained_rest)
qed simp

declare dispatch.simps [simp del]

section \<open>The pieces of a simple command\<close>

text \<open>Alias expansion: the words of the alias before the arguments.\<close>

definition alias_parts :: "string \<Rightarrow> 'h Shell \<Rightarrow> string \<times> string list" where
  "alias_parts raw_name sh =
     (case sm_get (sh_aliases sh) raw_name of
        Some alias_val \<Rightarrow>
          (case split_ascii_whitespace alias_val of [] \<Rightarrow> (raw_name, []) | p # ps \<Rightarrow> (p, ps))
      | None \<Rightarrow> (raw_name, []))"

record DeferredWrite =
  dw_path :: string
  dw_buf :: VecWriter
  dw_append :: bool

definition flush_one :: "DeferredWrite \<Rightarrow> ('h, unit) sact" where
  "flush_one dw =
     andThen (sh_bytes (dw_buf dw)) (\<lambda>bytes.
     andThen (if dw_append dw
              then andThen (attempt (sh_vfs (read_file (dw_path dw)))) (\<lambda>r.
                   ret ((case r of Inr existing \<Rightarrow> existing | Inl _ \<Rightarrow> []) @ bytes))
              else ret bytes) (\<lambda>data.
     map_err VfsE (sh_vfs (write_file (dw_path dw) data))))"

fun flush_deferred :: "DeferredWrite list \<Rightarrow> ('h, unit) sact" where
  "flush_deferred [] = ret ()"
| "flush_deferred (dw # dws) = andThen (flush_one dw) (\<lambda>_. flush_deferred dws)"

fun restore_vars :: "(string \<times> string option) list \<Rightarrow> ('h, unit) sact" where
  "restore_vars [] = ret ()"
| "restore_vars ((name, old) # saved) =
     andThen (modify (sh_env_update (case old of Some v \<Rightarrow> env_set name v | None \<Rightarrow> env_unset name)))
       (\<lambda>_. restore_vars saved)"

definition default_fd :: "nat option \<Rightarrow> redirect_kind \<Rightarrow> nat" where
  "default_fd fd kind = (case fd of Some n \<Rightarrow> n | None \<Rightarrow> (if kind = Read then 0 else 1))"

text \<open>The stream an output redirection opens, and the duplications that are not ignored.\<close>

definition open_output :: "nat \<Rightarrow> VecWriter \<Rightarrow> Io \<Rightarrow> Io" where
  "open_output fd buf io =
     (if fd = 1 then io\<lparr>io_stdout := buf\<rparr> else if fd = 2 then io\<lparr>io_stderr := buf\<rparr> else io)"

definition dup_fd :: "nat \<Rightarrow> nat \<Rightarrow> Io \<Rightarrow> Io" where
  "dup_fd fd target_fd io =
     (if fd = 2 \<and> target_fd = 1 then io\<lparr>io_stderr := io_stdout io\<rparr>
      else if fd = 1 \<and> target_fd = 2 then io\<lparr>io_stdout := io_stderr io\<rparr>
      else io)"

text \<open>The streams of a command substitution, and what it makes of the bytes.\<close>

definition exec_capture :: "(Io \<Rightarrow> ('h, int) sact) \<Rightarrow> ('h, string) sact" where
  "exec_capture run =
     andThen sh_new_writer (\<lambda>stdout.
     andThen sh_new_writer (\<lambda>stderr.
     andThen (run \<lparr>io_stdin = reader_new [], io_stdout = stdout, io_stderr = stderr\<rparr>) (\<lambda>_.
     sh_bytes stdout)))"

definition substitute :: "(Io \<Rightarrow> ('h, int) sact) \<Rightarrow> ('h, string) sact" where
  "substitute run =
     andThen (exec_capture run) (\<lambda>bytes. ret (trim_end_matches NL (from_utf8_lossy bytes)))"

definition arith_value :: "bool \<Rightarrow> string \<Rightarrow> ('h, string) sact" where
  "arith_value oc expr =
     (\<lambda>sh. map_err IoE (andThen (lift_outcome (eval_arith oc expr (sh_env sh))) (\<lambda>val. ret (show_int val))) sh)"

definition expand_special :: "special_var \<Rightarrow> 'h Shell \<Rightarrow> string" where
  "expand_special special sh =
     (case special of
        Zero \<Rightarrow> ''wasm_shell''
      | Positional _ \<Rightarrow> []
      | StarVar \<Rightarrow> []
      | AtVar \<Rightarrow> []
      | Hash \<Rightarrow> ''0''
      | Pid \<Rightarrow> ''1''
      | LastExit \<Rightarrow> show_int (sh_last_exit sh)
      | LastBgPid \<Rightarrow> ''0'')"

definition tilde :: "string \<Rightarrow> 'h Shell \<Rightarrow> string" where
  "tilde s sh =
     (if s = ''~'' \<or> starts_with s ''~/''
      then (case get_env ''HOME'' sh of Some h \<Rightarrow> h | None \<Rightarrow> ''/'') @ drop 1 s
      else s)"

text \<open>The value of a variable if it is set and not empty.\<close>

definition nonempty_var :: "string \<Rightarrow> ('h, string option) sact" where
  "nonempty_var name =
     gets (\<lambda>sh. case get_env name sh of Some v \<Rightarrow> (if v = [] then None else Some v) | None \<Rightarrow> None)"

definition var_or_empty :: "string \<Rightarrow> 'h Shell \<Rightarrow> string" where
  "var_or_empty name sh = (case get_env name sh of Some v \<Rightarrow> v | None \<Rightarrow> [])"

section \<open>Expansion and execution\<close>

function (sequential)
  expand_word :: "bool \<Rightarrow> 'h source \<Rightarrow> word \<Rightarrow> ('h, string) sact"
  and expand_words :: "bool \<Rightarrow> 'h source \<Rightarrow> word list \<Rightarrow> ('h, string list) sact"
  and expand_dq_part :: "bool \<Rightarrow> 'h source \<Rightarrow> dq_part \<Rightarrow> ('h, string) sact"
  and expand_dq_parts :: "bool \<Rightarrow> 'h source \<Rightarrow> dq_part list \<Rightarrow> ('h, string) sact"
  and expand_var :: "bool \<Rightarrow> 'h source \<Rightarrow> var_expr \<Rightarrow> ('h, string) sact"
  and expand_heredoc :: "bool \<Rightarrow> 'h source \<Rightarrow> heredoc \<Rightarrow> ('h, string) sact"
  and execute_commands :: "bool \<Rightarrow> 'h source \<Rightarrow> command list \<Rightarrow> Io \<Rightarrow> int \<Rightarrow> ('h, int) sact"
  and execute_command :: "bool \<Rightarrow> 'h source \<Rightarrow> command \<Rightarrow> Io \<Rightarrow> ('h, int) sact"
  and execute_stages :: "bool \<Rightarrow> 'h source \<Rightarrow> simple_command list \<Rightarrow> Io \<Rightarrow> int \<Rightarrow> ('h, int) sact"
  and execute_simple :: "bool \<Rightarrow> 'h source \<Rightarrow> simple_command \<Rightarrow> Io \<Rightarrow> ('h, int) sact"
  and assign_loop :: "bool \<Rightarrow> 'h source \<Rightarrow> bool \<Rightarrow> (string \<times> word) list
        \<Rightarrow> (string \<times> string option) list \<Rightarrow> ('h, (string \<times> string option) list) sact"
  and apply_redirections :: "bool \<Rightarrow> 'h source \<Rightarrow> redirect list \<Rightarrow> Io \<Rightarrow> DeferredWrite list
        \<Rightarrow> ('h, Io \<times> DeferredWrite list) sact" where
  "expand_word oc src (Literal s) = gets (tilde s)"
| "expand_word oc src (SingleQuoted s) = ret s"
| "expand_word oc src (DoubleQuoted parts) = expand_dq_parts oc src parts"
| "expand_word oc src (Variable var) = expand_var oc src var"
| "expand_word oc src (CommandSubst script) = substitute (\<lambda>io. execute_commands oc src script io 0)"
| "expand_word oc src (ArithSubst expr) = arith_value oc expr"
| "expand_word oc src (HeredocWord h) = expand_heredoc oc src h"
| "expand_word oc src (Concat parts) = andThen (expand_words oc src parts) (\<lambda>xs. ret (concat xs))"
| "expand_words oc src [] = ret []"
| "expand_words oc src (w # ws) =
     andThen (expand_word oc src w) (\<lambda>x. andThen (expand_words oc src ws) (\<lambda>xs. ret (x # xs)))"
| "expand_dq_part oc src (DQLiteral s) = ret s"
| "expand_dq_part oc src (DQVariable var) = expand_var oc src var"
| "expand_dq_part oc src (DQCommandSubst script) = substitute (\<lambda>io. execute_commands oc src script io 0)"
| "expand_dq_part oc src (DQArithSubst expr) = arith_value oc expr"
| "expand_dq_parts oc src [] = ret []"
| "expand_dq_parts oc src (p # ps) =
     andThen (expand_dq_part oc src p) (\<lambda>x. andThen (expand_dq_parts oc src ps) (\<lambda>y. ret (x @ y)))"
| "expand_var oc src (SimpleVar name) = gets (var_or_empty name)"
| "expand_var oc src (DefaultIfUnset name dflt) =
     andThen (nonempty_var name) (\<lambda>v. case v of Some x \<Rightarrow> ret x | None \<Rightarrow> expand_word oc src dflt)"
| "expand_var oc src (AssignIfUnset name dflt) =
     andThen (nonempty_var name) (\<lambda>v. case v of
        Some x \<Rightarrow> ret x
      | None \<Rightarrow> andThen (expand_word oc src dflt) (\<lambda>x.
                andThen (modify (set_env name x)) (\<lambda>_. ret x)))"
| "expand_var oc src (AlternateIfSet name alt) =
     andThen (nonempty_var name) (\<lambda>v. case v of Some _ \<Rightarrow> expand_word oc src alt | None \<Rightarrow> ret [])"
| "expand_var oc src (ErrorIfUnset name msg) =
     andThen (nonempty_var name) (\<lambda>v. case v of
        Some x \<Rightarrow> ret x
      | None \<Rightarrow> andThen (expand_word oc src msg) (\<lambda>m.
          fail (IoE (name @ '': '' @ (if m = [] then ''parameter null or not set'' else m)))))"
| "expand_var oc src (Length name) = gets (\<lambda>sh. show_nat (length (var_or_empty name sh)))"
| "expand_var oc src (Special special) = gets (expand_special special)"
| "expand_heredoc oc src (Heredoc d q st (HBLiteral s)) = ret s"
| "expand_heredoc oc src (Heredoc d q st (HBParts parts)) = expand_dq_parts oc src parts"
| "execute_commands oc src [] io code = ret code"
| "execute_commands oc src (cmd # cmds) io code =
     andThen (execute_command oc src cmd io) (\<lambda>c.
     andThen (set_last_exit c) (\<lambda>_. execute_commands oc src cmds io c))"
| "execute_command oc src (Simple sc) io = execute_simple oc src sc io"
| "execute_command oc src (Pipeline stages negated) io =
     andThen (execute_stages oc src stages io 0) (\<lambda>c.
       ret (if negated then (if c = 0 then 1 else 0) else c))"
| "execute_command oc src (AndCmd c1 c2) io =
     andThen (execute_command oc src c1 io) (\<lambda>c.
     andThen (set_last_exit c) (\<lambda>_. if c = 0 then execute_command oc src c2 io else ret c))"
| "execute_command oc src (OrCmd c1 c2) io =
     andThen (execute_command oc src c1 io) (\<lambda>c.
     andThen (set_last_exit c) (\<lambda>_. if c \<noteq> 0 then execute_command oc src c2 io else ret c))"
| "execute_command oc src (Sequence cmds) io = execute_commands oc src cmds io 0"
| "execute_command oc src (Background cmd) io = execute_command oc src cmd io"
| "execute_command oc src (Subshell script) io =
     andThen (gets sh_env) (\<lambda>saved_env.
     andThen (gets sh_cwd) (\<lambda>saved_cwd.
     andThen (execute_commands oc src script io 0) (\<lambda>code.
     andThen (modify (\<lambda>sh. sh\<lparr>sh_env := saved_env, sh_cwd := saved_cwd\<rparr>)) (\<lambda>_. ret code))))"
| "execute_command oc src (Group script) io = execute_commands oc src script io 0"
| "execute_stages oc src [] io code = ret code"
| "execute_stages oc src [stage] io code =
     andThen (execute_simple oc src stage io) (\<lambda>c. andThen (set_last_exit c) (\<lambda>_. ret c))"
| "execute_stages oc src (stage # s2 # stages) io code =
     andThen sh_new_writer (\<lambda>stdout.
     andThen (execute_simple oc src stage (io\<lparr>io_stdout := stdout\<rparr>)) (\<lambda>c.
     andThen (set_last_exit c) (\<lambda>_.
     andThen (sh_bytes stdout) (\<lambda>bytes.
     execute_stages oc src (s2 # stages) (io\<lparr>io_stdin := reader_new bytes\<rparr>) c))))"
| "execute_simple oc src (SimpleCommand assigns None args redirs) io =
     andThen (assign_loop oc src False assigns []) (\<lambda>_. ret 0)"
| "execute_simple oc src (SimpleCommand assigns (Some name_word) args redirs) io =
     andThen (assign_loop oc src True assigns []) (\<lambda>saved.
     andThen (expand_word oc src name_word) (\<lambda>raw_name.
     andThen (gets (alias_parts raw_name)) (\<lambda>(name, alias_prefix).
     andThen (expand_words oc src args) (\<lambda>xs.
     andThen (apply_redirections oc src redirs io []) (\<lambda>(io', deferred).
     andThen (attempt (dispatch src name (name # alias_prefix @ xs) io')) (\<lambda>code.
     andThen (flush_deferred deferred) (\<lambda>_.
     andThen (restore_vars saved) (\<lambda>_. settle code))))))))"
| "assign_loop oc src scoped [] saved = ret saved"
| "assign_loop oc src scoped ((name, w) # assigns) saved =
     andThen (expand_word oc src w) (\<lambda>x.
     andThen (gets (get_env name)) (\<lambda>old.
     andThen (modify (set_env name x)) (\<lambda>_.
     assign_loop oc src scoped assigns (if scoped then saved @ [(name, old)] else saved))))"
| "apply_redirections oc src [] io deferred = ret (io, deferred)"
| "apply_redirections oc src (Redirect fd kind (TWord w) # redirs) io deferred =
     andThen (expand_word oc src w) (\<lambda>x.
     andThen (gets (\<lambda>sh. resolve_path (sh_cwd sh) x)) (\<lambda>path.
       if kind = Read then
         andThen (map_err VfsE (sh_vfs (read_file path))) (\<lambda>data.
         apply_redirections oc src redirs (io\<lparr>io_stdin := reader_new data\<rparr>) deferred)
       else
         andThen sh_new_writer (\<lambda>buf.
         apply_redirections oc src redirs
           (if kind = ReadWrite then io\<lparr>io_stdout := buf, io_stderr := buf\<rparr>
            else open_output (default_fd fd kind) buf io)
           (deferred @ [\<lparr>dw_path = path, dw_buf = buf, dw_append = (kind = Append)\<rparr>]))))"
| "apply_redirections oc src (Redirect fd kind (THeredoc h) # redirs) io deferred =
     (if kind = Read then
        andThen (expand_heredoc oc src h) (\<lambda>body.
        apply_redirections oc src redirs (io\<lparr>io_stdin := reader_new body\<rparr>) deferred)
      else apply_redirections oc src redirs io deferred)"
| "apply_redirections oc src (Redirect fd kind (TFd target_fd) # redirs) io deferred =
     apply_redirections oc src redirs (dup_fd (default_fd fd kind) target_fd io) deferred"
| "apply_redirections oc src (Redirect fd kind TCloseFd # redirs) io deferred =
     apply_redirections oc src redirs io deferred"
  by pat_completeness auto
termination
  by (relation "measure (case_sum
        (case_sum (case_sum (\<lambda>(_, _, w). size w) (case_sum (\<lambda>(_, _, ws). size_list size ws) (\<lambda>(_, _, p). size p)))
          (case_sum (\<lambda>(_, _, ps). size_list size ps) (case_sum (\<lambda>(_, _, v). size v) (\<lambda>(_, _, h). size h))))
        (case_sum (case_sum (\<lambda>(_, _, cs, _, _). size_list size cs) (case_sum (\<lambda>(_, _, c, _). size c) (\<lambda>(_, _, ss, _, _). size_list size ss)))
          (case_sum (\<lambda>(_, _, sc, _). size sc)
            (case_sum (\<lambda>(_, _, _, as, _). size_list (size_prod (\<lambda>_. 0) size) as) (\<lambda>(_, _, rs, _, _). size_list size rs)))))")
     simp_all

lemmas exec_induct = expand_word_expand_words_expand_dq_part_expand_dq_parts_expand_var_expand_heredoc_execute_commands_execute_command_execute_stages_execute_simple_assign_loop_apply_redirections.induct

section \<open>Entry points\<close>

text \<open>A script under a bound on the nesting of \<open>source\<close>.\<close>

definition execute_script :: "bool \<Rightarrow> 'h source \<Rightarrow> script \<Rightarrow> Io \<Rightarrow> ('h, int) sact" where
  "execute_script oc src script io = execute_commands oc src script io 0"

fun run_level :: "bool \<Rightarrow> nat \<Rightarrow> 'h source" where
  "run_level oc 0 = (\<lambda>script io. lift_outcome SourceLimit)"
| "run_level oc (Suc d) = execute_script oc (run_level oc d)"

record ExecOutput =
  eo_code :: int
  eo_stdout :: string
  eo_stderr :: string

definition exec_with_stdin :: "bool \<Rightarrow> nat \<Rightarrow> string \<Rightarrow> string \<Rightarrow> ('h, ExecOutput) sact" where
  "exec_with_stdin oc d source_text stdin =
     andThen (map_err (\<lambda>e. ParseE (show_parse_error e)) (sh_parse source_text)) (\<lambda>script.
     andThen sh_new_writer (\<lambda>stdout.
     andThen sh_new_writer (\<lambda>stderr.
     andThen (attempt (run_level oc d script
        \<lparr>io_stdin = reader_new stdin, io_stdout = stdout, io_stderr = stderr\<rparr>)) (\<lambda>r.
     andThen (case r of Inr c \<Rightarrow> ret c | Inl (Exit n) \<Rightarrow> ret n | Inl e \<Rightarrow> fail e) (\<lambda>code.
     andThen (set_last_exit code) (\<lambda>_.
     andThen (sh_bytes stdout) (\<lambda>o_bytes.
     andThen (sh_bytes stderr) (\<lambda>e_bytes.
     ret \<lparr>eo_code = code, eo_stdout = o_bytes, eo_stderr = e_bytes\<rparr>))))))))"

definition exec :: "bool \<Rightarrow> nat \<Rightarrow> string \<Rightarrow> ('h, ExecOutput) sact" where
  "exec oc d source_text = exec_with_stdin oc d source_text []"

end
