(* ===== verification/ExecContract.thy ===== *)
theory ExecContract
  imports Exec ParserTotal VfsSpec
begin

text \<open>
  What execution keeps, proved once for any contract. A contract is an invariant \<open>I\<close> of the state, a
  relation \<open>R\<close> between the state before and after, and the set \<open>K\<close> of the kinds of outcome allowed.
  The locale \<open>step_contract\<close> closes a contract under the combinators; \<open>shell_contract\<close> adds the
  steps execution is made of and the registered programs, and derives the contract for every
  function of the executor by one induction over its recursion. The contracts used for the
  properties are interpretations.
\<close>

section \<open>Contracts\<close>

datatype kind = KOk | KErr | KPanic | KFuel | KLimit

fun kind_of :: "('a, 'e) outcome \<Rightarrow> kind" where
  "kind_of (Ok a) = KOk"
| "kind_of (Err e) = KErr"
| "kind_of Panic = KPanic"
| "kind_of OutOfFuel = KFuel"
| "kind_of SourceLimit = KLimit"

definition upholds_at :: "('s \<Rightarrow> bool) \<Rightarrow> ('s \<Rightarrow> 's \<Rightarrow> bool) \<Rightarrow> kind set \<Rightarrow> ('s, 'a, 'e) act \<Rightarrow> 's \<Rightarrow> bool" where
  "upholds_at I R K m s \<longleftrightarrow> kind_of (fst (m s)) \<in> K \<and> I (snd (m s)) \<and> R s (snd (m s))"

definition upholds :: "('s \<Rightarrow> bool) \<Rightarrow> ('s \<Rightarrow> 's \<Rightarrow> bool) \<Rightarrow> kind set \<Rightarrow> ('s, 'a, 'e) act \<Rightarrow> bool" where
  "upholds I R K m \<longleftrightarrow> (\<forall>s. I s \<longrightarrow> upholds_at I R K m s)"

lemma upholdsI: "(\<And>s. I s \<Longrightarrow> upholds_at I R K m s) \<Longrightarrow> upholds I R K m"
  by (simp add: upholds_def)

lemma upholdsD: "upholds I R K m \<Longrightarrow> I s \<Longrightarrow> upholds_at I R K m s"
  by (simp add: upholds_def)

named_theorems up_intros \<open>introduction rules for upholds\<close>

locale step_contract =
  fixes I :: "'s \<Rightarrow> bool" and R :: "'s \<Rightarrow> 's \<Rightarrow> bool" and K :: "kind set"
  assumes same: "R s s"
    and chain: "R s t \<Longrightarrow> R t u \<Longrightarrow> R s u"
    and allows_ok: "KOk \<in> K"
    and allows_err: "KErr \<in> K"
begin

lemma up_ret [up_intros]: "upholds I R K (ret a)"
  by (simp add: upholds_def upholds_at_def same allows_ok)

lemma up_fail [up_intros]: "upholds I R K (fail e)"
  by (simp add: upholds_def upholds_at_def same allows_err)

lemma up_gets [up_intros]: "upholds I R K (gets f)"
  by (simp add: upholds_def upholds_at_def same allows_ok)

lemma up_Pair [up_intros]: "upholds I R K (Pair (Ok a))" "upholds I R K (Pair (Err e))"
  by (simp_all add: upholds_def upholds_at_def same allows_ok allows_err)

lemma up_modify: "(\<And>s. I s \<Longrightarrow> I (f s) \<and> R s (f s)) \<Longrightarrow> upholds I R K (modify f)"
  by (simp add: upholds_def upholds_at_def allows_ok)

lemma up_lift: "kind_of r \<in> K \<Longrightarrow> upholds I R K (lift_outcome r)"
  by (simp add: upholds_def upholds_at_def same)

lemma up_andThen_at:
  assumes m: "upholds_at I R K m s" and f: "\<And>a s'. m s = (Ok a, s') \<Longrightarrow> upholds_at I R K (f a) s'"
  shows "upholds_at I R K (andThen m f) s"
proof (cases "m s")
  case (Pair r s')
  then show ?thesis
    using m f chain
    by (cases r) (auto simp: upholds_at_def andThen_def)
qed

lemma up_andThen [up_intros]:
  assumes "upholds I R K m" "\<And>a. upholds I R K (f a)"
  shows "upholds I R K (andThen m f)"
proof (rule upholdsI)
  fix s assume s: "I s"
  have "I s'" if "m s = (r, s')" for r s'
    using upholdsD [OF assms(1) s] that by (simp add: upholds_at_def)
  then show "upholds_at I R K (andThen m f) s"
    using s by (intro up_andThen_at upholdsD [OF assms(1)] upholdsD [OF assms(2)])
qed

lemma up_attempt_at: "upholds_at I R K m s \<Longrightarrow> upholds_at I R K (attempt m) s"
  by (cases "m s"; cases "fst (m s)") (auto simp: upholds_at_def attempt_def allows_ok)

lemma up_attempt [up_intros]: "upholds I R K m \<Longrightarrow> upholds I R K (attempt m)"
  by (simp add: upholds_def up_attempt_at)

lemma up_map_err [up_intros]: "upholds I R K m \<Longrightarrow> upholds I R K (map_err g m)"
  unfolding upholds_def
proof (intro allI impI)
  fix s assume "\<forall>s. I s \<longrightarrow> upholds_at I R K m s" "I s"
  then have "upholds_at I R K m s" by blast
  then show "upholds_at I R K (map_err g m) s"
    by (cases "m s"; cases "fst (m s)") (auto simp: upholds_at_def map_err_def allows_err)
qed

lemma up_settle [up_intros]: "upholds I R K (settle x)"
  by (cases x) (simp_all add: settle_def up_intros)

end

section \<open>The executor keeps a contract\<close>

definition good_source :: "('h Shell \<Rightarrow> bool) \<Rightarrow> ('h Shell \<Rightarrow> 'h Shell \<Rightarrow> bool) \<Rightarrow> kind set \<Rightarrow> 'h source \<Rightarrow> bool" where
  "good_source I R K src \<longleftrightarrow> (\<forall>script io. upholds I R K (src script io))"

locale shell_contract = step_contract I R K
  for I :: "'h Shell \<Rightarrow> bool" and R :: "'h Shell \<Rightarrow> 'h Shell \<Rightarrow> bool" and K :: "kind set" +
  assumes env_step: "I sh \<Longrightarrow> I (sh\<lparr>sh_env := e\<rparr>) \<and> R sh (sh\<lparr>sh_env := e\<rparr>)"
    and cwd_step: "I sh \<Longrightarrow> I (sh\<lparr>sh_cwd := d\<rparr>) \<and> R sh (sh\<lparr>sh_cwd := d\<rparr>)"
    and last_step: "I sh \<Longrightarrow> I (sh\<lparr>sh_last_exit := c\<rparr>) \<and> R sh (sh\<lparr>sh_last_exit := c\<rparr>)"
    and new_writer_step [up_intros]: "upholds I R K sh_new_writer"
    and write_step [up_intros]: "upholds I R K (sh_write w s)"
    and read_step [up_intros]: "upholds I R K (sh_vfs (read_file p))"
    and write_file_step [up_intros]: "upholds I R K (sh_vfs (write_file p d))"
    and stat_step [up_intros]: "upholds I R K (sh_vfs (stat p))"
    and parse_step [up_intros]: "upholds I R K (sh_parse text)"
    and arith_step: "kind_of (eval_arith oc text env) \<in> K"
    and program_step: "I sh \<Longrightarrow> sm_get (sh_registry sh) p = Some cb \<Longrightarrow> upholds_at I R K (run_program cb args io) sh"
begin

lemma up_last_exit [up_intros]: "upholds I R K (set_last_exit c)"
  unfolding set_last_exit_def by (rule up_modify) (simp add: last_step)

lemma up_env: "upholds I R K (modify (sh_env_update f))"
proof (rule up_modify)
  fix sh assume "I sh"
  moreover have "sh_env_update f sh = sh\<lparr>sh_env := f (sh_env sh)\<rparr>" by simp
  ultimately show "I (sh_env_update f sh) \<and> R sh (sh_env_update f sh)" using env_step by metis
qed

lemma up_set_env [up_intros]: "upholds I R K (modify (set_env k v))"
  unfolding set_env_def by (rule up_modify) (simp add: env_step)

lemma up_scope [up_intros]: "upholds I R K (modify (\<lambda>sh. sh\<lparr>sh_env := e, sh_cwd := d\<rparr>))"
proof (rule up_modify)
  fix sh assume "I sh"
  then have "I (sh\<lparr>sh_env := e\<rparr>)" "R sh (sh\<lparr>sh_env := e\<rparr>)" by (auto simp: env_step)
  then show "I (sh\<lparr>sh_env := e, sh_cwd := d\<rparr>) \<and> R sh (sh\<lparr>sh_env := e, sh_cwd := d\<rparr>)"
    using cwd_step chain by metis
qed

lemma up_bytes [up_intros]: "upholds I R K (sh_bytes w)"
  unfolding sh_bytes_def by (rule up_gets)

lemma up_complain [up_intros]: "upholds I R K (complain io msg code)"
  unfolding complain_def err_def by (intro up_intros)

lemma up_arith [up_intros]: "upholds I R K (arith_value oc e)"
proof (rule upholdsI)
  fix sh assume "I sh"
  moreover have "upholds I R K (map_err IoE (andThen (lift_outcome (eval_arith oc e (sh_env sh))) (\<lambda>val. ret (show_int val))))"
    by (intro up_intros up_lift arith_step)
  ultimately show "upholds_at I R K (arith_value oc e) sh"
    by (simp add: arith_value_def upholds_at_def upholds_def)
qed

lemma up_nonempty [up_intros]: "upholds I R K (nonempty_var name)"
  unfolding nonempty_var_def by (rule up_gets)

lemma up_substitute [up_intros]: "(\<And>io. upholds I R K (run io)) \<Longrightarrow> upholds I R K (substitute run)"
  unfolding substitute_def exec_capture_def by (intro up_intros)

lemma up_which: "upholds I R K (which_loop io names code)"
  by (induction names arbitrary: code) (auto simp: out_def err_def split: option.split intro!: up_intros)

lemma up_type: "upholds I R K (type_loop io names)"
  by (induction names) (auto simp: out_def intro!: up_intros)

lemma up_not_found [up_intros]: "upholds I R K (not_found name io)"
  by (auto simp: not_found_def intro!: up_intros)

lemma up_source: "good_source I R K src \<Longrightarrow> upholds I R K (source_builtin src args io)"
  unfolding source_builtin_def good_source_def
  by (auto split: option.split sum.split intro!: up_intros)

lemma up_flush [up_intros]: "upholds I R K (flush_deferred dws)"
  by (induction dws) (auto simp: flush_one_def split: sum.split intro!: up_intros)

lemma up_restore [up_intros]: "upholds I R K (restore_vars saved)"
  by (induction saved rule: restore_vars.induct) (auto intro!: up_intros up_env)

lemma up_resolved:
  assumes "I sh" "resolve_program (sh_registry sh) name pv = Some cb"
  shows "upholds_at I R K (run_program cb args io) sh"
  using assms program_step by (auto simp: resolve_program_def split: option.splits)

lemma up_dispatch: "good_source I R K src \<Longrightarrow> upholds I R K (dispatch src name args io)"
proof (induction src name args io rule: dispatch.induct)
  case (1 src name args io)
  let ?last = "\<lambda>sh. case resolve_program (sh_registry sh) name (path_var sh) of
     Some cb \<Rightarrow> run_program cb args io sh | None \<Rightarrow> not_found name io sh"
  have last: "upholds I R K ?last"
  proof (rule upholdsI)
    fix sh assume sh: "I sh"
    show "upholds_at I R K ?last sh"
      using up_resolved [OF sh] upholdsD [OF up_not_found sh]
      by (cases "resolve_program (sh_registry sh) name (path_var sh)") (auto simp: upholds_at_def)
  qed
  have simple: "upholds I R K (exit_builtin args)" "upholds I R K (which_builtin args io)"
    "upholds I R K (type_builtin args io)"
    by (auto simp: exit_builtin_def which_builtin_def type_builtin_def Let_def
        intro!: up_intros up_which up_type)
  note src = up_source [OF 1(2)]
  show ?case
    by (subst dispatch.simps)
       (use 1 last simple src in \<open>auto simp: Let_def intro!: up_ret\<close>)
qed

lemma executor:
  shows "good_source I R K src \<longrightarrow> upholds I R K (expand_word oc src w)"
    and "good_source I R K src \<longrightarrow> upholds I R K (expand_words oc src ws)"
    and "good_source I R K src \<longrightarrow> upholds I R K (expand_dq_part oc src p)"
    and "good_source I R K src \<longrightarrow> upholds I R K (expand_dq_parts oc src ps)"
    and "good_source I R K src \<longrightarrow> upholds I R K (expand_var oc src v)"
    and "good_source I R K src \<longrightarrow> upholds I R K (expand_heredoc oc src h)"
    and "good_source I R K src \<longrightarrow> upholds I R K (execute_commands oc src cs io code)"
    and "good_source I R K src \<longrightarrow> upholds I R K (execute_command oc src c io)"
    and "good_source I R K src \<longrightarrow> upholds I R K (execute_stages oc src sts io code)"
    and "good_source I R K src \<longrightarrow> upholds I R K (execute_simple oc src sc io)"
    and "good_source I R K src \<longrightarrow> upholds I R K (assign_loop oc src scoped as saved)"
    and "good_source I R K src \<longrightarrow> upholds I R K (apply_redirections oc src rs io dws)"
proof (induction oc src w and oc src ws and oc src p and oc src ps and oc src v and oc src h
    and oc src cs io code and oc src c io and oc src sts io code and oc src sc io and oc src scoped as saved and oc src rs io dws
    rule: exec_induct [where
      ?P1.0 = "\<lambda>oc src w. good_source I R K src \<longrightarrow> upholds I R K (expand_word oc src w)"
      and ?P2.0 = "\<lambda>oc src ws. good_source I R K src \<longrightarrow> upholds I R K (expand_words oc src ws)"
      and ?P3.0 = "\<lambda>oc src p. good_source I R K src \<longrightarrow> upholds I R K (expand_dq_part oc src p)"
      and ?P4.0 = "\<lambda>oc src ps. good_source I R K src \<longrightarrow> upholds I R K (expand_dq_parts oc src ps)"
      and ?P5.0 = "\<lambda>oc src v. good_source I R K src \<longrightarrow> upholds I R K (expand_var oc src v)"
      and ?P6.0 = "\<lambda>oc src h. good_source I R K src \<longrightarrow> upholds I R K (expand_heredoc oc src h)"
      and ?P7.0 = "\<lambda>oc src cs io code. good_source I R K src \<longrightarrow> upholds I R K (execute_commands oc src cs io code)"
      and ?P8.0 = "\<lambda>oc src c io. good_source I R K src \<longrightarrow> upholds I R K (execute_command oc src c io)"
      and ?P9.0 = "\<lambda>oc src sts io code. good_source I R K src \<longrightarrow> upholds I R K (execute_stages oc src sts io code)"
      and ?P10.0 = "\<lambda>oc src sc io. good_source I R K src \<longrightarrow> upholds I R K (execute_simple oc src sc io)"
      and ?P11.0 = "\<lambda>oc src scoped as saved. good_source I R K src \<longrightarrow> upholds I R K (assign_loop oc src scoped as saved)"
      and ?P12.0 = "\<lambda>oc src rs io dws. good_source I R K src \<longrightarrow> upholds I R K (apply_redirections oc src rs io dws)"])
qed (auto split: option.split prod.split intro!: up_intros up_dispatch)

lemma level: "KLimit \<in> K \<Longrightarrow> good_source I R K (run_level oc d)"
  by (induction d) (auto simp: good_source_def execute_script_def intro!: up_lift executor(7) [rule_format])

lemma exec_upholds:
  assumes "KLimit \<in> K"
  shows "upholds I R K (exec_with_stdin oc d text stdin)"
proof -
  have "upholds I R K (run_level oc d script io)" for script io
    using level [OF assms] by (simp add: good_source_def)
  then show ?thesis
    unfolding exec_with_stdin_def
    by (auto split: sum.split ShellError.split intro!: up_intros)
qed

end

end
