(* ===== verification/BuiltinsContract.thy ===== *)
theory BuiltinsContract
  imports Builtins ExecContract
begin

text \<open>
  What the built-in programs keep, for any contract (see \<open>ExecContract\<close>). The locale
  \<open>reader_contract\<close> asks for the steps of the programs that only read and print, and
  \<open>program_contract\<close> extends it with the steps that change the context; each proves the contract for
  its programs. A contract whose outcomes exclude \<open>OutOfFuel\<close> excludes the recursive walks.
\<close>

section \<open>Programs that read and print\<close>

locale reader_contract = step_contract I R K
  for I :: "'h ProgramContext \<Rightarrow> bool" and R :: "'h ProgramContext \<Rightarrow> 'h ProgramContext \<Rightarrow> bool" and K :: "kind set" +
  assumes allows_panic: "KPanic \<in> K"
    and out_step [up_intros]: "upholds I R K (ctx_out s)"
    and err_step [up_intros]: "upholds I R K (ctx_err s)"
    and stdin_step [up_intros]: "upholds I R K ctx_read_stdin"
    and read_step [up_intros]: "upholds I R K (ctx_read_file p)"
    and list_step [up_intros]: "upholds I R K (ctx_list_dir p)"
    and stat_step [up_intros]: "upholds I R K (ctx_stat p)"
begin

lemma up_fold_act [up_intros]: "(\<And>a x. upholds I R K (f a x)) \<Longrightarrow> upholds I R K (fold_act f a xs)"
  by (induction xs arbitrary: a) (auto intro!: up_intros)

lemma up_for_each [up_intros]: "(\<And>x. upholds I R K (f x)) \<Longrightarrow> upholds I R K (for_each f xs)"
  by (induction xs) (auto intro!: up_intros)

lemma up_try_vfs [up_intros]:
  "upholds I R K m \<Longrightarrow> (\<And>a. upholds I R K (f a)) \<Longrightarrow> upholds I R K (try_vfs m f)"
  unfolding try_vfs_def by (auto split: sum.split intro!: up_intros)

lemma up_try_each [up_intros]: "(\<And>x. upholds I R K (f x)) \<Longrightarrow> upholds I R K (try_each f xs)"
  by (induction xs) (auto intro!: up_intros)

lemma up_panic [up_intros]: "upholds I R K panic"
  by (simp add: upholds_def upholds_at_def same allows_panic)

lemma up_noFuel: "KFuel \<in> K \<Longrightarrow> upholds I R K noFuel"
  by (simp add: upholds_def upholds_at_def same)

lemma up_bail [up_intros]: "upholds I R K (bail m)"
  unfolding bail_def by (intro up_intros)

lemma up_path_error [up_intros]: "upholds I R K (path_error prog p e)"
  unfolding path_error_def by (rule up_bail)

lemma up_with_options [up_intros]: "(\<And>a. upholds I R K (f a)) \<Longrightarrow> upholds I R K (with_options r f)"
  unfolding with_options_def by (auto split: sum.split intro!: up_intros)

lemma up_args_tail [up_intros]: "upholds I R K (args_tail args)"
  unfolding args_tail_def by (auto split: list.split intro!: up_intros)

lemma up_out_line [up_intros]: "upholds I R K (out_line s)"
  unfolding out_line_def by (rule out_step)

lemma up_out_lines [up_intros]: "upholds I R K (out_lines ls)"
  unfolding out_lines_def by (intro up_intros)

lemma up_snapshots [up_intros]:
  "upholds I R K ctx_cwd" "upholds I R K (ctx_get_env k)" "upholds I R K ctx_env_snapshot"
  "upholds I R K (ctx_get_alias k)" "upholds I R K ctx_aliases_snapshot"
  unfolding ctx_cwd_def ctx_get_env_def ctx_env_snapshot_def ctx_get_alias_def ctx_aliases_snapshot_def
  by (rule up_gets)+

lemma up_collect_lines [up_intros]: "upholds I R K (collect_lines paths)"
  unfolding collect_lines_def collect_step_def by (auto split: sum.split intro!: up_intros)

lemma up_with_source [up_intros]:
  "(\<And>a s d. upholds I R K (body a s d)) \<Longrightarrow> upholds I R K (with_source prog body acc source)"
  unfolding with_source_def by (auto split: prod.split option.split sum.split intro!: up_intros)

lemma up_cat: "upholds I R K (builtin_cat args)"
  unfolding builtin_cat_def cat_body_def by (auto intro!: up_intros)

lemma up_text_programs:
  "upholds I R K (builtin_head args)" "upholds I R K (builtin_tail args)" "upholds I R K (builtin_wc args)"
  "upholds I R K (builtin_sort args)" "upholds I R K (builtin_uniq args)" "upholds I R K (builtin_cut args)"
  "upholds I R K (builtin_tr args)"
  unfolding builtin_head_def builtin_tail_def builtin_wc_def builtin_sort_def builtin_uniq_def
    builtin_cut_def builtin_tr_def Let_def
  by (auto split: prod.split intro!: up_intros)

lemma up_test_unary [up_intros]: "upholds I R K (test_unary op p)"
  unfolding test_unary_def test_stat_def by (auto intro!: up_intros)

lemma up_eval_test [up_intros]: "upholds I R K (eval_test args)"
proof (induction args rule: length_induct)
  case (1 args)
  then have shorter: "length ys < length args \<Longrightarrow> upholds I R K (eval_test ys)" for ys by blast
  show ?case
    by (subst eval_test.simps)
       (auto split: option.split dest: position_less intro!: up_ret up_Pair up_andThen up_test_unary shorter)
qed

lemma up_printers:
  "upholds I R K (builtin_pwd args)" "upholds I R K (builtin_env args)" "upholds I R K (builtin_echo args)"
  "upholds I R K (builtin_printf f64 args)" "upholds I R K (builtin_test args)" "upholds I R K (builtin_awk args)"
  "upholds I R K (builtin_kill args)" "upholds I R K (builtin_uname args)" "upholds I R K (builtin_neofetch args)"
  "upholds I R K (builtin_calculate calc args)" "upholds I R K (builtin_bc calc args)"
  "upholds I R K (const_program code args)"
  unfolding builtin_pwd_def builtin_env_def builtin_echo_def builtin_printf_def builtin_test_def
    builtin_awk_def builtin_kill_def builtin_uname_def builtin_neofetch_def info_file_def
    builtin_calculate_def builtin_bc_def const_program_def Let_def
  by (auto split: sum.split intro!: up_intros)

lemma up_ls_format_entry [up_intros]: "upholds I R K (ls_format_entry path long)"
  unfolding ls_format_entry_def Let_def by (auto intro!: up_intros)

lemma up_list_dir_recursive: "KFuel \<in> K \<Longrightarrow> upholds I R K (list_dir_recursive n dir long all recursive)"
  by (induction n arbitrary: dir) (auto simp: ls_entry_def Let_def split: sum.split intro!: up_intros up_noFuel)

lemma up_walk_dir_inner: "KFuel \<in> K \<Longrightarrow> upholds I R K (walk_dir_inner n dir acc)"
  by (induction n arbitrary: dir acc) (auto simp: Let_def split: sum.split intro!: up_intros up_noFuel)

lemma up_find_recursive:
  "KFuel \<in> K \<Longrightarrow> upholds I R K (find_recursive n base dir depth maxdepth name_pat type_filter)"
  by (induction n arbitrary: dir depth) (auto simp: Let_def split: sum.split intro!: up_intros up_noFuel)

lemma up_walkers:
  assumes "KFuel \<in> K"
  shows "upholds I R K (builtin_ls n args)" "upholds I R K (builtin_find n args)"
    "upholds I R K (builtin_grep regex n args)"
  unfolding builtin_ls_def ls_path_def builtin_find_def builtin_grep_def grep_files_def grep_file_def
    grep_data_def walk_dir_def Let_def
  using up_list_dir_recursive [OF assms] up_walk_dir_inner [OF assms] up_find_recursive [OF assms]
  by (auto split: sum.split option.split intro!: up_intros)

end

section \<open>Programs that change their context\<close>

locale program_contract = reader_contract I R K
  for I :: "'h ProgramContext \<Rightarrow> bool" and R :: "'h ProgramContext \<Rightarrow> 'h ProgramContext \<Rightarrow> bool" and K :: "kind set" +
  assumes set_env_step [up_intros]: "upholds I R K (ctx_set_env k v)"
    and unset_env_step [up_intros]: "upholds I R K (ctx_unset_env k)"
    and set_cwd_step [up_intros]: "upholds I R K (ctx_set_cwd p)"
    and set_alias_step [up_intros]: "upholds I R K (ctx_set_alias k v)"
    and unset_alias_step [up_intros]: "upholds I R K (ctx_unset_alias k)"
    and write_step [up_intros]: "upholds I R K (ctx_write_file p d)"
    and mkdir_step [up_intros]: "upholds I R K (ctx_mkdir p b)"
    and remove_step [up_intros]: "upholds I R K (ctx_remove p b)"
    and rename_step [up_intros]: "upholds I R K (ctx_rename p q)"
    and copy_step [up_intros]: "upholds I R K (ctx_copy p q)"
begin

lemma up_stat_is_dir [up_intros]: "upholds I R K (stat_is_dir p)"
  unfolding stat_is_dir_def by (intro up_intros)

lemma up_fs_programs:
  "upholds I R K (builtin_mkdir args)" "upholds I R K (builtin_rm args)" "upholds I R K (builtin_mv args)"
  "upholds I R K (builtin_touch args)"
  unfolding builtin_mkdir_def builtin_rm_def builtin_mv_def builtin_touch_def touch_path_def Let_def
  by (auto split: sum.split intro!: up_intros)

lemma up_sed: "upholds I R K (builtin_sed regex args)"
  unfolding builtin_sed_def sed_body_def Let_def by (auto split: sum.split option.split intro!: up_intros)

lemma up_env_programs:
  "upholds I R K (builtin_cd args)" "upholds I R K (builtin_export args)" "upholds I R K (builtin_unset args)"
  "upholds I R K (builtin_read args)" "upholds I R K (builtin_alias args)" "upholds I R K (builtin_unalias args)"
  unfolding builtin_cd_def builtin_export_def builtin_unset_def builtin_read_def builtin_alias_def
    alias_arg_def builtin_unalias_def unalias_arg_def Let_def
  using up_printers(2)
  by (auto split: sum.split option.split prod.split intro!: up_intros)

lemma up_lib_programs: "upholds I R K (builtin_toml toml args)" "upholds I R K (builtin_resvg svg args)"
  unfolding builtin_toml_def toml_load_def builtin_resvg_def resvg_input_def Let_def
  by (auto split: sum.split option.split intro!: up_intros)

lemma up_cp_recursive: "KFuel \<in> K \<Longrightarrow> upholds I R K (cp_recursive n src dst)"
  by (induction n arbitrary: src dst) (auto simp: Let_def intro!: up_intros up_noFuel)

lemma up_cp: "KFuel \<in> K \<Longrightarrow> upholds I R K (builtin_cp n args)"
  unfolding builtin_cp_def cp_path_def Let_def
  using up_cp_recursive by (auto split: sum.split intro!: up_intros)

lemmas up_straight = up_cat up_text_programs up_printers up_fs_programs up_sed up_env_programs up_lib_programs

end

end
