(* ===== verification/ShellContracts.thy ===== *)
theory ShellContracts
  imports BuiltinsContract
begin

text \<open>
  From the filesystem to the shell. A contract of the filesystem operations gives one for the
  built-in programs, which also keep their handles and only append to the streams, and one for the
  shell whose registered programs keep the first. The filesystem's operations provide the contract:
  on a well-formed filesystem each returns and keeps it well formed with the same mounts.
\<close>

section \<open>Streams grow\<close>

definition grows :: "string list \<Rightarrow> string list \<Rightarrow> bool" where
  "grows bs bs' \<longleftrightarrow> length bs \<le> length bs' \<and> (\<forall>w. \<exists>t. vw_bytes w bs' = vw_bytes w bs @ t)"

lemma grows_refl [simp]: "grows bs bs"
  by (simp add: grows_def)

lemma grows_trans: "grows a b \<Longrightarrow> grows b c \<Longrightarrow> grows a c"
  unfolding grows_def by (metis append.assoc le_trans)

lemma grows_write [simp]: "grows bs (vw_write w s bs)"
  by (auto simp: grows_def vw_write_def vw_bytes_def nth_list_update)

lemma grows_new [simp]: "grows bs (snd (vw_new bs))"
  by (auto simp: grows_def vw_new_def vw_bytes_def nth_append)

section \<open>Contracts of the filesystem\<close>

locale vfs_contract = step_contract J S L
  for J :: "'h Vfs \<Rightarrow> bool" and S :: "'h Vfs \<Rightarrow> 'h Vfs \<Rightarrow> bool" and L :: "kind set" +
  assumes vfs_panic: "KPanic \<in> L"
    and fs_read: "upholds J S L (read_file p)"
    and fs_write: "upholds J S L (write_file p d)"
    and fs_list: "upholds J S L (list_dir p)"
    and fs_stat: "upholds J S L (stat p)"
    and fs_mkdir: "upholds J S L (mkdir p b)"
    and fs_remove: "upholds J S L (remove p b)"
    and fs_rename: "upholds J S L (rename p q)"
    and fs_copy: "upholds J S L (copy p q)"

definition ctx_inv :: "('h Vfs \<Rightarrow> bool) \<Rightarrow> 'h ProgramContext \<Rightarrow> bool" where
  "ctx_inv J c \<longleftrightarrow> J (cx_fs c)"

definition ctx_rel :: "('h Vfs \<Rightarrow> 'h Vfs \<Rightarrow> bool) \<Rightarrow> 'h ProgramContext \<Rightarrow> 'h ProgramContext \<Rightarrow> bool" where
  "ctx_rel S c c' \<longleftrightarrow> S (cx_fs c) (cx_fs c') \<and> grows (cx_bufs c) (cx_bufs c')
     \<and> io_stdout (cx_io c') = io_stdout (cx_io c) \<and> io_stderr (cx_io c') = io_stderr (cx_io c)"

definition good_program :: "('h Vfs \<Rightarrow> bool) \<Rightarrow> ('h Vfs \<Rightarrow> 'h Vfs \<Rightarrow> bool) \<Rightarrow> kind set \<Rightarrow> 'h program \<Rightarrow> bool" where
  "good_program J S L f \<longleftrightarrow> (\<forall>args. upholds (ctx_inv J) (ctx_rel S) L (f args))"

definition shell_inv :: "('h Vfs \<Rightarrow> bool) \<Rightarrow> ('h Vfs \<Rightarrow> 'h Vfs \<Rightarrow> bool) \<Rightarrow> kind set \<Rightarrow> 'h Shell \<Rightarrow> bool" where
  "shell_inv J S L sh \<longleftrightarrow> J (sh_fs sh) \<and> \<not> hd_borrowed (sh_tls sh)
     \<and> (\<forall>p f. sm_get (sh_registry sh) p = Some f \<longrightarrow> good_program J S L f)"

definition shell_rel :: "('h Vfs \<Rightarrow> 'h Vfs \<Rightarrow> bool) \<Rightarrow> 'h Shell \<Rightarrow> 'h Shell \<Rightarrow> bool" where
  "shell_rel S sh sh' \<longleftrightarrow> S (sh_fs sh) (sh_fs sh') \<and> grows (sh_bufs sh) (sh_bufs sh')
     \<and> sh_registry sh' = sh_registry sh"

lemma settled_kind: "settled r \<Longrightarrow> kind_of r \<in> {KOk, KErr, KPanic}"
  by (cases r) auto

lemma i64_kind: "i64_outcome r \<Longrightarrow> kind_of r \<in> {KOk, KErr, KPanic}"
  by (cases r) (auto simp: i64_outcome_def)

context vfs_contract
begin

lemma kinds: "{KOk, KErr, KPanic} \<subseteq> L"
  using allows_ok allows_err vfs_panic by simp

lemma lift_ctx: "upholds J S L m \<Longrightarrow> upholds (ctx_inv J) (ctx_rel S) L (ctx_fs m)"
proof (rule upholdsI)
  fix c :: "'h ProgramContext"
  assume m: "upholds J S L m" and c: "ctx_inv J c"
  then have "upholds_at J S L m (cx_fs c)" by (simp add: ctx_inv_def upholds_def)
  then show "upholds_at (ctx_inv J) (ctx_rel S) L (ctx_fs m) c"
    by (cases "m (cx_fs c)"; cases "fst (m (cx_fs c))")
       (simp_all add: upholds_at_def ctx_fs_def attempt_def ctx_inv_def ctx_rel_def allows_ok)
qed

lemma lift_shell: "upholds J S L m \<Longrightarrow> upholds (shell_inv J S L) (shell_rel S) L (sh_vfs m)"
  by (auto simp: upholds_def upholds_at_def sh_vfs_def shell_inv_def shell_rel_def split: prod.splits)

lemma at_ctx: "(\<And>c. m c = f c c) \<Longrightarrow> (\<And>c. upholds I R K (f c)) \<Longrightarrow> upholds I R K m"
  by (simp add: upholds_def upholds_at_def)

lemma ctx_ops:
  "upholds (ctx_inv J) (ctx_rel S) L (ctx_read_file p)"
  "upholds (ctx_inv J) (ctx_rel S) L (ctx_write_file p d)"
  "upholds (ctx_inv J) (ctx_rel S) L (ctx_list_dir p)"
  "upholds (ctx_inv J) (ctx_rel S) L (ctx_stat p)"
  "upholds (ctx_inv J) (ctx_rel S) L (ctx_mkdir p b)"
  "upholds (ctx_inv J) (ctx_rel S) L (ctx_remove p b)"
  "upholds (ctx_inv J) (ctx_rel S) L (ctx_rename p q)"
  "upholds (ctx_inv J) (ctx_rel S) L (ctx_copy p q)"
  unfolding ctx_read_file_def ctx_write_file_def ctx_list_dir_def ctx_stat_def ctx_mkdir_def
    ctx_remove_def ctx_rename_def ctx_copy_def
  by (rule at_ctx, rule refl, rule lift_ctx,
      rule fs_read fs_write fs_list fs_stat fs_mkdir fs_remove fs_rename fs_copy)+

lemma ctx_local:
  "(\<And>c. cx_fs (f c) = cx_fs c \<and> grows (cx_bufs c) (cx_bufs (f c)) \<and> cx_io (f c) = cx_io c)
   \<Longrightarrow> upholds (ctx_inv J) (ctx_rel S) L (modify f)"
  by (simp add: upholds_def upholds_at_def ctx_inv_def ctx_rel_def same allows_ok)

lemma program_is_contract: "program_contract (ctx_inv J) (ctx_rel S) L"
proof
  show "ctx_rel S s u" if "ctx_rel S s t" "ctx_rel S t u" for s t u :: "'h ProgramContext"
    using that chain grows_trans by (auto simp: ctx_rel_def)
  show "upholds (ctx_inv J) (ctx_rel S) L ctx_read_stdin"
    by (auto simp: upholds_def upholds_at_def ctx_read_stdin_def ctx_inv_def ctx_rel_def same allows_ok split: prod.split)
  show "upholds (ctx_inv J) (ctx_rel S) L (ctx_out s)" "upholds (ctx_inv J) (ctx_rel S) L (ctx_err s)" for s
    unfolding ctx_out_def ctx_err_def by (intro ctx_local; simp)+
  show "upholds (ctx_inv J) (ctx_rel S) L (ctx_set_env k v)" "upholds (ctx_inv J) (ctx_rel S) L (ctx_unset_env k)"
    "upholds (ctx_inv J) (ctx_rel S) L (ctx_set_cwd k)" "upholds (ctx_inv J) (ctx_rel S) L (ctx_set_alias k v)"
    "upholds (ctx_inv J) (ctx_rel S) L (ctx_unset_alias k)" for k v
    unfolding ctx_set_env_def ctx_unset_env_def ctx_set_cwd_def ctx_set_alias_def ctx_unset_alias_def
    by (intro ctx_local; simp)+
qed (simp_all add: ctx_rel_def same allows_ok allows_err vfs_panic ctx_ops)

lemmas straight_facts = program_contract.up_straight [OF program_is_contract]

lemma good_straight:
  "good_program J S L builtin_cat" "good_program J S L builtin_mkdir" "good_program J S L builtin_rm"
  "good_program J S L builtin_mv" "good_program J S L builtin_touch" "good_program J S L builtin_head"
  "good_program J S L builtin_tail" "good_program J S L builtin_wc" "good_program J S L builtin_sort"
  "good_program J S L builtin_uniq" "good_program J S L builtin_cut" "good_program J S L builtin_tr"
  "good_program J S L (builtin_sed regex)" "good_program J S L builtin_cd" "good_program J S L builtin_pwd"
  "good_program J S L builtin_env" "good_program J S L builtin_export" "good_program J S L builtin_unset"
  "good_program J S L builtin_echo" "good_program J S L (builtin_printf f64)" "good_program J S L builtin_test"
  "good_program J S L builtin_read" "good_program J S L builtin_awk" "good_program J S L builtin_kill"
  "good_program J S L builtin_alias" "good_program J S L builtin_unalias" "good_program J S L builtin_uname"
  "good_program J S L builtin_neofetch" "good_program J S L (builtin_bc calc)"
  "good_program J S L (builtin_calculate calc)" "good_program J S L (builtin_resvg svg)"
  "good_program J S L (builtin_toml toml)" "good_program J S L (const_program code)"
  unfolding good_program_def by (rule allI, rule straight_facts)+

lemma good_walkers:
  assumes "KFuel \<in> L"
  shows "good_program J S L (builtin_ls n)" "good_program J S L (builtin_cp n)"
    "good_program J S L (builtin_find n)" "good_program J S L (builtin_grep regex n)"
  unfolding good_program_def
  by (rule allI, rule reader_contract.up_walkers [OF program_contract.axioms(1) [OF program_is_contract] assms]
        program_contract.up_cp [OF program_is_contract assms])+

lemma program_runs:
  assumes "shell_inv J S L sh" "sm_get (sh_registry sh) p = Some f"
  shows "upholds_at (shell_inv J S L) (shell_rel S) L (run_program f args io) sh"
proof -
  let ?c = "\<lparr>cx_env = sh_env sh, cx_cwd = sh_cwd sh, cx_aliases = sh_aliases sh, cx_fs = sh_fs sh,
    cx_bufs = sh_bufs sh, cx_io = io\<rparr>"
  have "upholds_at (ctx_inv J) (ctx_rel S) L (f args) ?c"
    using assms by (auto simp: shell_inv_def good_program_def ctx_inv_def intro!: upholdsD)
  then show ?thesis
    using assms(1)
    by (cases "f args ?c"; cases "fst (f args ?c)")
       (auto simp: upholds_at_def run_program_def Let_def ctx_inv_def ctx_rel_def shell_inv_def shell_rel_def)
qed

lemma shell_local:
  "shell_inv J S L sh \<Longrightarrow> sh_fs sh' = sh_fs sh \<Longrightarrow> sh_tls sh' = sh_tls sh \<Longrightarrow> sh_registry sh' = sh_registry sh
   \<Longrightarrow> grows (sh_bufs sh) (sh_bufs sh') \<Longrightarrow> shell_inv J S L sh' \<and> shell_rel S sh sh'"
  by (simp add: shell_inv_def shell_rel_def same)

lemma shell_parse: "upholds (shell_inv J S L) (shell_rel S) L (sh_parse src)"
proof (rule upholdsI)
  fix sh :: "'h Shell" assume sh: "shell_inv J S L sh"
  then have "settled (fst (parse src (sh_tls sh))) \<and> \<not> hd_borrowed (snd (parse src (sh_tls sh)))"
    by (intro parse_settled) (simp add: shell_inv_def)
  then show "upholds_at (shell_inv J S L) (shell_rel S) L (sh_parse src) sh"
    using sh settled_kind kinds
    by (cases "parse src (sh_tls sh)") (fastforce simp: upholds_at_def sh_parse_def shell_inv_def shell_rel_def same)
qed

lemma shell_is_contract: "shell_contract (shell_inv J S L) (shell_rel S) L"
proof
  show "shell_rel S s u" if "shell_rel S s t" "shell_rel S t u" for s t u :: "'h Shell"
    using that chain grows_trans by (auto simp: shell_rel_def)
  show "upholds (shell_inv J S L) (shell_rel S) L sh_new_writer"
    by (rule upholdsI)
       (simp add: upholds_at_def sh_new_writer_def split_def shell_local allows_ok)
  show "upholds (shell_inv J S L) (shell_rel S) L (sh_write w s)" for w s
    by (rule upholdsI) (simp add: upholds_at_def sh_write_def shell_local allows_ok)
  show "kind_of (eval_arith oc s env) \<in> L" for oc s env
    using i64_kind [OF eval_arith_i64] kinds by blast
qed (simp_all add: shell_local shell_rel_def same allows_ok allows_err lift_shell fs_read fs_write fs_stat
      shell_parse program_runs)

end

end
