(* ===== verification/ShellSafety.thy ===== *)
theory ShellSafety
  imports ShellContracts
begin

text \<open>
  The contracts of \<open>ShellContracts\<close> and \<open>BuiltinsContract\<close> on the code's own definitions, and what
  they give: execution settles and keeps the shell well formed, a session of a new shell keeps every
  part of it that no command is to change, the built-in programs return, and the ones that only read
  change nothing.
\<close>

section \<open>The filesystem provides the contract\<close>

definition fs_ok :: "'h Vfs \<Rightarrow> bool" where
  "fs_ok v \<longleftrightarrow> vfs_ok v \<and> (\<forall>e \<in> set (vfs_mounts v). mount_returns (me_point e))"

definition same_mounts :: "'h Vfs \<Rightarrow> 'h Vfs \<Rightarrow> bool" where
  "same_mounts v v' \<longleftrightarrow> vfs_mounts v' = vfs_mounts v"

definition settling :: "kind set" where
  "settling = {KOk, KErr, KPanic, KLimit}"

lemma returns_map_ok [simp]: "returns (map_ok f r) = returns r"
  by (cases r) (auto simp: map_ok_def)

lemma total_apfst_iff: "total_op (\<lambda>v. apfst (map_ok f) (c v)) v = total_op c v"
  by (cases "c v") (simp add: total_op_def)

lemma fs_total: "fs_ok v \<Longrightarrow> total_op (run_vop c) v"
  by (simp add: fs_ok_def total_vop)

lemma fs_ops_total:
  assumes "fs_ok v"
  shows "total_op (read_file p) v" "total_op (write_file p d) v" "total_op (list_dir p) v" "total_op (stat p) v"
    "total_op (mkdir p b) v" "total_op (remove p b) v" "total_op (rename p q) v" "total_op (copy p q) v"
  using fs_total [OF assms, of "ReadOp p"] fs_total [OF assms, of "WriteOp p d"]
    fs_total [OF assms, of "ListOp p"] fs_total [OF assms, of "StatOp p"]
    fs_total [OF assms, of "MkdirOp p b"] fs_total [OF assms, of "RemoveOp p b"]
    fs_total [OF assms, of "RenameOp p q"] fs_total [OF assms, of "CopyOp p q"]
  by (simp_all add: total_apfst_iff)

lemma total_upholds:
  assumes "\<And>v. fs_ok v \<Longrightarrow> total_op m v" "{KOk, KErr} \<subseteq> L"
  shows "upholds fs_ok same_mounts L m"
proof (rule upholdsI)
  fix v :: "'a Vfs" assume v: "fs_ok v"
  have "returns (fst (m v))" "vfs_ok (snd (m v))" "vfs_mounts (snd (m v)) = vfs_mounts v"
    using assms(1) [OF v] by (simp_all add: total_op_def)
  moreover have "kind_of r \<in> L" if "returns r" for r :: "('b, VfsError) outcome"
    using that assms(2) by (cases r) auto
  ultimately show "upholds_at fs_ok same_mounts L m v"
    using v by (simp add: upholds_at_def fs_ok_def same_mounts_def)
qed

lemma fs_is_contract: "{KOk, KErr, KPanic} \<subseteq> L \<Longrightarrow> vfs_contract fs_ok same_mounts L"
  by unfold_locales (auto simp: same_mounts_def intro!: total_upholds fs_ops_total)

interpretation settling_fs: vfs_contract fs_ok same_mounts settling
  by (rule fs_is_contract) (simp add: settling_def)

interpretation any_fs: vfs_contract fs_ok same_mounts UNIV
  by (rule fs_is_contract) simp

interpretation settling_programs: program_contract "ctx_inv fs_ok" "ctx_rel same_mounts" settling
  by (rule settling_fs.program_is_contract)

interpretation any_programs: program_contract "ctx_inv fs_ok" "ctx_rel same_mounts" UNIV
  by (rule any_fs.program_is_contract)

interpretation settling_shell: shell_contract "shell_inv fs_ok same_mounts settling" "shell_rel same_mounts" settling
  by (rule settling_fs.shell_is_contract)

interpretation any_shell: shell_contract "shell_inv fs_ok same_mounts UNIV" "shell_rel same_mounts" UNIV
  by (rule any_fs.shell_is_contract)

section \<open>The programs\<close>

definition walking_programs :: "string list" where
  "walking_programs = [''/usr/bin/ls'', ''/usr/bin/cp'', ''/usr/bin/find'', ''/usr/bin/grep'']"

lemma straight_good_list:
  "list_all (\<lambda>(name, f). name \<notin> set walking_programs \<longrightarrow> good_program fs_ok same_mounts settling f)
     (builtin_programs lib)"
  by (simp add: builtin_programs_def walking_programs_def settling_fs.good_straight)

lemma straight_good:
  "(name, f) \<in> set (builtin_programs lib) \<Longrightarrow> name \<notin> set walking_programs
   \<Longrightarrow> good_program fs_ok same_mounts settling f"
  using straight_good_list [of lib] by (auto simp: list_all_iff)

lemma all_good_list: "list_all (\<lambda>(name, f). good_program fs_ok same_mounts UNIV f) (builtin_programs lib)"
  by (simp add: builtin_programs_def any_fs.good_straight any_fs.good_walkers)

lemma all_good: "(name, f) \<in> set (builtin_programs lib) \<Longrightarrow> good_program fs_ok same_mounts UNIV f"
  using all_good_list [of lib] by (auto simp: list_all_iff)

section \<open>The shell\<close>

text \<open>A shell whose filesystem is well formed and whose registered programs all come back.\<close>

definition shell_ok :: "'h Shell \<Rightarrow> bool" where
  "shell_ok sh \<longleftrightarrow> shell_inv fs_ok same_mounts settling sh"

definition install :: "(string \<times> 'h program) list \<Rightarrow> 'h Shell \<Rightarrow> 'h Shell" where
  "install ps sh = foldl (\<lambda>s (name, f). add_program name f s) sh ps"

lemma install_inv:
  "shell_inv J S L sh \<Longrightarrow> \<forall>(name, f) \<in> set ps. good_program J S L f \<Longrightarrow> shell_inv J S L (install ps sh)"
proof (induction ps arbitrary: sh)
  case (Cons p ps)
  obtain name f where p: "p = (name, f)" by fastforce
  have "shell_inv J S L (add_program name f sh)"
    using Cons.prems by (auto simp: p shell_inv_def add_program_def registry_add_def)
  then show ?case
    using Cons.IH Cons.prems(2) by (simp add: install_def p)
qed (simp add: install_def)

lemma bare_inv: "shell_inv fs_ok same_mounts L (bare_shell h)"
  by (simp add: shell_inv_def bare_shell_def fs_ok_def vfs_new_ok tls_init_def)

lemma register_install: "register lib = install (builtin_programs lib)"
  by (simp add: register_def install_def fun_eq_iff)

lemma new_inv: "shell_inv fs_ok same_mounts UNIV (shell_new lib h)"
  unfolding shell_new_def register_install by (intro install_inv bare_inv) (auto intro: all_good)

text \<open>A session: scripts executed one after the other, each with its standard input.\<close>

definition session :: "bool \<Rightarrow> nat \<Rightarrow> (string \<times> string) list \<Rightarrow> 'h Shell \<Rightarrow> 'h Shell" where
  "session oc d scripts sh = foldl (\<lambda>s (script, input). snd (exec_with_stdin oc d script input s)) sh scripts"

lemma session_inv:
  "shell_inv fs_ok same_mounts UNIV sh \<Longrightarrow>
   shell_inv fs_ok same_mounts UNIV (session oc d scripts sh) \<and> shell_rel same_mounts sh (session oc d scripts sh)"
proof (induction scripts arbitrary: sh)
  case Nil
  then show ?case by (simp add: session_def shell_rel_def same_mounts_def)
next
  case (Cons p scripts)
  obtain script input where p: "p = (script, input)" by fastforce
  let ?s = "snd (exec_with_stdin oc d script input sh)"
  have "upholds_at (shell_inv fs_ok same_mounts UNIV) (shell_rel same_mounts) UNIV (exec_with_stdin oc d script input) sh"
    by (rule upholdsD [OF any_shell.exec_upholds Cons.prems]) simp
  then have s: "shell_inv fs_ok same_mounts UNIV ?s" "shell_rel same_mounts sh ?s"
    by (simp_all add: upholds_at_def)
  show ?case
    using Cons.IH [OF s(1)] any_shell.chain [OF s(2)] by (simp add: session_def p)
qed

text \<open>
  C8: execution settles. On a shell with a well-formed filesystem, mounts that return and programs
  that return, every script comes back with an output, an error, a panic of the code, or the bound on
  nested \<open>source\<close> commands: no fuel of the lexer, the parser, the arithmetic or the executor is ever
  too small. The shell is again well formed, and the streams have only been appended to.
\<close>

theorem exec_settles:
  assumes "shell_ok sh"
  shows "fst (exec_with_stdin oc d script input sh) \<noteq> OutOfFuel
     \<and> shell_ok (snd (exec_with_stdin oc d script input sh))
     \<and> grows (sh_bufs sh) (sh_bufs (snd (exec_with_stdin oc d script input sh)))"
proof -
  have "upholds_at (shell_inv fs_ok same_mounts settling) (shell_rel same_mounts) settling (exec_with_stdin oc d script input) sh"
    by (rule upholdsD [OF settling_shell.exec_upholds]) (use assms in \<open>simp_all add: shell_ok_def settling_def\<close>)
  then show ?thesis
    by (cases "fst (exec_with_stdin oc d script input sh)")
       (auto simp: upholds_at_def shell_ok_def shell_rel_def settling_def)
qed

theorem exec_settles_witness:
  "fst (exec_with_stdin False 3 ''cat; mkdir -p a/b && (cd a; echo $((1/0)) >x)'' ''input''
     (install [(''cat'', builtin_cat), (''mkdir'', builtin_mkdir), (''cd'', builtin_cd), (''echo'', builtin_echo)]
        (bare_shell ()))) \<noteq> OutOfFuel"
proof -
  have good: "good_program fs_ok same_mounts settling f"
    if "f \<in> {builtin_cat, builtin_mkdir, builtin_cd, builtin_echo}" for f :: "unit program"
    using that by (auto simp: settling_fs.good_straight)
  have "shell_ok (install [(''cat'', builtin_cat), (''mkdir'', builtin_mkdir), (''cd'', builtin_cd),
      (''echo'', builtin_echo)] (bare_shell ()))"
    unfolding shell_ok_def by (intro install_inv bare_inv) (auto intro: good)
  then show ?thesis using exec_settles by blast
qed

text \<open>
  C9: the invariant of a session. Whatever scripts run on a new shell with all the built-in
  programs, and however they end, the filesystem stays a well-formed tree without mounts, the heredoc
  queue of the parser is free again, the registry is the one of the start, and what was written to a
  stream stays there.
\<close>

theorem session_invariant:
  "let sh = shell_new lib h; sh' = session oc d scripts sh in
   vfs_ok (sh_fs sh') \<and> vfs_mounts (sh_fs sh') = [] \<and> \<not> hd_borrowed (sh_tls sh')
   \<and> sh_registry sh' = sh_registry sh \<and> grows (sh_bufs sh) (sh_bufs sh')"
proof -
  have "vfs_mounts (sh_fs (install ps sh)) = vfs_mounts (sh_fs sh)" for ps and sh :: "'a Shell"
    by (induction ps arbitrary: sh) (auto simp: install_def add_program_def)
  then have "vfs_mounts (sh_fs (shell_new lib h)) = []"
    by (simp add: shell_new_def register_install bare_shell_def vfs_new_ok)
  then show ?thesis
    using session_inv [OF new_inv, of oc d scripts lib h]
    by (simp add: Let_def shell_inv_def shell_rel_def fs_ok_def same_mounts_def)
qed

section \<open>Programs that change nothing\<close>

definition unmounted_ctx :: "'h ProgramContext \<Rightarrow> bool" where
  "unmounted_ctx c \<longleftrightarrow> vfs_mounts (cx_fs c) = []"

text \<open>All but the streams is what it was.\<close>

definition only_output :: "'h ProgramContext \<Rightarrow> 'h ProgramContext \<Rightarrow> bool" where
  "only_output c c' \<longleftrightarrow> cx_fs c' = cx_fs c \<and> cx_env c' = cx_env c \<and> cx_cwd c' = cx_cwd c
     \<and> cx_aliases c' = cx_aliases c \<and> grows (cx_bufs c) (cx_bufs c')"

lemma query_unmounted:
  "(\<And>v. vfs_mounts v = [] \<Longrightarrow> snd (m v) = v) \<Longrightarrow> upholds unmounted_ctx only_output UNIV (ctx_fs m)"
  by (fastforce simp: upholds_def upholds_at_def unmounted_ctx_def only_output_def ctx_fs_def attempt_def split: prod.split)

interpretation readers: reader_contract unmounted_ctx only_output UNIV
proof
  have find: "vfs_mounts v = [] \<Longrightarrow> find_mount (vfs_mounts v) q = None" for v :: "'h Vfs" and q
    by simp
  have at: "(\<And>c. m c = f c c) \<Longrightarrow> (\<And>c. upholds unmounted_ctx only_output UNIV (f c))
      \<Longrightarrow> upholds unmounted_ctx only_output UNIV m" for m :: "('h, 'x) cact" and f
    by (simp add: upholds_def upholds_at_def)
  show "upholds unmounted_ctx only_output UNIV (ctx_read_file p)" for p
    unfolding ctx_read_file_def by (rule at, rule refl, rule query_unmounted) (simp add: read_file_def Let_def find)
  show "upholds unmounted_ctx only_output UNIV (ctx_list_dir p)" for p
    unfolding ctx_list_dir_def by (rule at, rule refl, rule query_unmounted) (simp add: list_dir_def Let_def find)
  show "upholds unmounted_ctx only_output UNIV (ctx_stat p)" for p
    unfolding ctx_stat_def by (rule at, rule refl, rule query_unmounted) (simp add: stat_def Let_def find)
qed (auto simp: only_output_def upholds_def upholds_at_def ctx_out_def ctx_err_def ctx_read_stdin_def
      unmounted_ctx_def intro: grows_trans split: prod.split)

definition reading_programs :: "string list" where
  "reading_programs = map (\<lambda>n. ''/usr/bin/'' @ n)
     [''cat'', ''ls'', ''find'', ''head'', ''tail'', ''wc'', ''sort'', ''uniq'', ''cut'', ''tr'', ''grep'', ''pwd'',
      ''env'', ''echo'', ''printf'', ''true'', ''false'', ''test'', ''awk'', ''wait'', ''kill'', ''uname'',
      ''neofetch'', ''bc'', ''calculate'']"

lemma readers_list:
  "list_all (\<lambda>(name, f). name \<in> set reading_programs \<longrightarrow>
      (\<forall>args. upholds unmounted_ctx only_output UNIV (f args))) (builtin_programs lib)"
  by (simp add: builtin_programs_def reading_programs_def readers.up_cat readers.up_text_programs
      readers.up_printers readers.up_walkers)

text \<open>
  C11: the programs that are meant only to read and print do only that. Without mounts, none of them
  changes the filesystem, the environment, the directory or the aliases, however it ends.
\<close>

theorem readers_change_nothing:
  assumes "(name, f) \<in> set (builtin_programs lib)" "name \<in> set reading_programs"
    and "vfs_mounts (cx_fs c) = []"
  shows "only_output c (snd (f args c))"
proof -
  have "\<forall>args. upholds unmounted_ctx only_output UNIV (f args)"
    using assms(1,2) readers_list [of lib] by (auto simp: list_all_iff)
  then show ?thesis
    using assms(3) by (auto simp: upholds_def upholds_at_def unmounted_ctx_def)
qed

theorem readers_change_nothing_witness:
  "only_output (\<lparr>cx_env = [], cx_cwd = ''/'', cx_aliases = [], cx_fs = snd (vfs_new ()), cx_bufs = [ [], [] ],
      cx_io = \<lparr>io_stdin = reader_new [], io_stdout = 0, io_stderr = 1\<rparr>\<rparr>)
    (snd (builtin_find 9 [''find'', ''.''] \<lparr>cx_env = [], cx_cwd = ''/'', cx_aliases = [], cx_fs = snd (vfs_new ()),
      cx_bufs = [ [], [] ], cx_io = \<lparr>io_stdin = reader_new [], io_stdout = 0, io_stderr = 1\<rparr>\<rparr>))"
  using readers_change_nothing [of "''/usr/bin/find''" "builtin_find 9" "undefined\<lparr>lib_depth := 9\<rparr>"
      "\<lparr>cx_env = [], cx_cwd = ''/'', cx_aliases = [], cx_fs = snd (vfs_new ()), cx_bufs = [ [], [] ],
      cx_io = \<lparr>io_stdin = reader_new [], io_stdout = 0, io_stderr = 1\<rparr>\<rparr>" "[''find'', ''.'']"]
  by (simp add: builtin_programs_def reading_programs_def vfs_new_ok)

end
