(* ===== verification/SourceDepth.thy ===== *)
theory SourceDepth
  imports ExecContract Builtins
begin

text \<open>
  The bound on nested \<open>source\<close> commands does not change what a script does: a run that stays within a
  bound runs the same within every larger one. \<open>limit_le m m'\<close> says that \<open>m'\<close> does what \<open>m\<close> does
  wherever \<open>m\<close> does not meet the bound; it goes through the executor by its induction rule.
\<close>

definition limit_le :: "('s, 'a, 'e) act \<Rightarrow> ('s, 'a, 'e) act \<Rightarrow> bool" where
  "limit_le m m' \<longleftrightarrow> (\<forall>s. fst (m s) = SourceLimit \<or> m' s = m s)"

named_theorems limit_intros \<open>monotonicity in the bound\<close>

lemma limit_refl [limit_intros]: "limit_le m m"
  by (simp add: limit_le_def)

lemma limit_bottom [limit_intros]: "limit_le (lift_outcome SourceLimit) m"
  by (simp add: limit_le_def)

lemma limit_andThen [limit_intros]:
  assumes "limit_le m m'" "\<And>a. limit_le (f a) (f' a)"
  shows "limit_le (andThen m f) (andThen m' f')"
  unfolding limit_le_def
proof
  fix s
  show "fst (andThen m f s) = SourceLimit \<or> andThen m' f' s = andThen m f s"
  proof (cases "fst (m s) = SourceLimit")
    case True
    then show ?thesis by (cases "m s") (simp add: andThen_def)
  next
    case False
    then have "m' s = m s" using assms(1) by (auto simp: limit_le_def)
    then show ?thesis
      using assms(2) by (cases "m s"; cases "fst (m s)") (auto simp: andThen_def limit_le_def)
  qed
qed

lemma limit_if:
  "(b \<Longrightarrow> limit_le x x') \<Longrightarrow> (\<not> b \<Longrightarrow> limit_le y y') \<Longrightarrow> limit_le (if b then x else y) (if b then x' else y')"
  by simp

lemma limit_attempt [limit_intros]: "limit_le m m' \<Longrightarrow> limit_le (attempt m) (attempt m')"
  unfolding limit_le_def
proof
  fix s
  assume "\<forall>s. fst (m s) = SourceLimit \<or> m' s = m s"
  then have "fst (m s) = SourceLimit \<or> m' s = m s" by blast
  then show "fst (attempt m s) = SourceLimit \<or> attempt m' s = attempt m s"
    by (cases "m s") (auto simp: attempt_def)
qed

lemma limit_exec_capture [limit_intros]:
  "(\<And>io. limit_le (run io) (run' io)) \<Longrightarrow> limit_le (exec_capture run) (exec_capture run')"
  unfolding exec_capture_def by (intro limit_intros)

lemma limit_substitute [limit_intros]:
  "(\<And>io. limit_le (run io) (run' io)) \<Longrightarrow> limit_le (substitute run) (substitute run')"
  unfolding substitute_def by (intro limit_intros)

definition source_le :: "'h source \<Rightarrow> 'h source \<Rightarrow> bool" where
  "source_le src src' \<longleftrightarrow> (\<forall>script io. limit_le (src script io) (src' script io))"

lemma limit_source: "source_le src src' \<Longrightarrow> limit_le (source_builtin src args io) (source_builtin src' args io)"
  unfolding source_builtin_def source_le_def
  by (auto split: option.split sum.split intro!: limit_intros)

lemma limit_dispatch: "source_le src src' \<Longrightarrow> limit_le (dispatch src name args io) (dispatch src' name args io)"
proof (induction src name args io rule: dispatch.induct)
  case (1 src name args io)
  let ?cmd = "case arg args 1 of Some s \<Rightarrow> s | None \<Rightarrow> ''echo''"
  have next_cmd: "limit_le (dispatch src ?cmd xs (drained io)) (dispatch src' ?cmd xs (drained io))"
    if "name = ''xargs''" "stdin_tokens io \<noteq> []" "xs = ?cmd # drop 2 args @ stdin_tokens io" for xs
    unfolding that(3) by (rule 1(1)) (use that 1(2) in auto)
  have eq: "dispatch s name args io = (if name = ''xargs'' then
      (if stdin_tokens io = [] then ret 0 else dispatch s ?cmd (?cmd # drop 2 args @ stdin_tokens io) (drained io))
      else if name = ''source'' \<or> name = ''.'' then source_builtin s args io
      else if name = ''exit'' then exit_builtin args
      else if name = ''which'' then which_builtin args io
      else if name = ''type'' then type_builtin args io
      else (\<lambda>sh. case resolve_program (sh_registry sh) name (path_var sh) of
              Some cb \<Rightarrow> run_program cb args io sh | None \<Rightarrow> not_found name io sh))" for s :: "'a source"
    by (subst dispatch.simps) (simp add: Let_def)
  show ?case
    unfolding eq [of src] eq [of src']
    by (intro limit_if limit_refl next_cmd limit_source [OF 1(2)]) simp_all
qed

text \<open>One function of the executor, at its arguments, under a better \<open>source\<close>.\<close>

definition improves :: "('h source \<Rightarrow> ('s, 'a, 'e) act) \<Rightarrow> 'h source \<Rightarrow> bool" where
  "improves f src \<longleftrightarrow> (\<forall>src'. source_le src src' \<longrightarrow> limit_le (f src) (f src'))"

lemma executor_limit:
  shows "improves (\<lambda>src. expand_word oc src w) src"
    and "improves (\<lambda>src. expand_words oc src ws) src"
    and "improves (\<lambda>src. expand_dq_part oc src p) src"
    and "improves (\<lambda>src. expand_dq_parts oc src ps) src"
    and "improves (\<lambda>src. expand_var oc src v) src"
    and "improves (\<lambda>src. expand_heredoc oc src h) src"
    and "improves (\<lambda>src. execute_commands oc src cs io code) src"
    and "improves (\<lambda>src. execute_command oc src c io) src"
    and "improves (\<lambda>src. execute_stages oc src sts io code) src"
    and "improves (\<lambda>src. execute_simple oc src sc io) src"
    and "improves (\<lambda>src. assign_loop oc src scoped as saved) src"
    and "improves (\<lambda>src. apply_redirections oc src rs io dws) src"
proof (induction oc w src and oc ws src and oc p src and oc ps src and oc v src and oc h src
    and oc cs io code src and oc c io src and oc sts io code src and oc sc io src and oc scoped as saved src and oc rs io dws src
    rule: exec_induct [where
      ?P1.0 = "\<lambda>oc src w. improves (\<lambda>src. expand_word oc src w) src"
      and ?P2.0 = "\<lambda>oc src ws. improves (\<lambda>src. expand_words oc src ws) src"
      and ?P3.0 = "\<lambda>oc src p. improves (\<lambda>src. expand_dq_part oc src p) src"
      and ?P4.0 = "\<lambda>oc src ps. improves (\<lambda>src. expand_dq_parts oc src ps) src"
      and ?P5.0 = "\<lambda>oc src v. improves (\<lambda>src. expand_var oc src v) src"
      and ?P6.0 = "\<lambda>oc src h. improves (\<lambda>src. expand_heredoc oc src h) src"
      and ?P7.0 = "\<lambda>oc src cs io code. improves (\<lambda>src. execute_commands oc src cs io code) src"
      and ?P8.0 = "\<lambda>oc src c io. improves (\<lambda>src. execute_command oc src c io) src"
      and ?P9.0 = "\<lambda>oc src sts io code. improves (\<lambda>src. execute_stages oc src sts io code) src"
      and ?P10.0 = "\<lambda>oc src sc io. improves (\<lambda>src. execute_simple oc src sc io) src"
      and ?P11.0 = "\<lambda>oc src scoped as saved. improves (\<lambda>src. assign_loop oc src scoped as saved) src"
      and ?P12.0 = "\<lambda>oc src rs io dws. improves (\<lambda>src. apply_redirections oc src rs io dws) src"])
qed (auto simp: improves_def split: option.split prod.split intro!: limit_intros limit_dispatch)

lemma script_le: "source_le src src' \<Longrightarrow> source_le (execute_script oc src) (execute_script oc src')"
  using executor_limit(7) unfolding improves_def source_le_def execute_script_def by blast

lemma level_le: "source_le (run_level oc d) (run_level oc (Suc d))"
proof (induction d)
  case 0
  show ?case by (simp add: source_le_def limit_le_def)
next
  case (Suc d)
  from script_le [OF this] show ?case by simp
qed

lemma source_le_trans: "source_le a b \<Longrightarrow> source_le b c \<Longrightarrow> source_le a c"
  unfolding source_le_def limit_le_def by metis

lemma level_mono: "d \<le> d' \<Longrightarrow> source_le (run_level oc d) (run_level oc d')"
proof (induction rule: dec_induct)
  case base
  show ?case by (simp add: source_le_def limit_refl)
next
  case (step n)
  then show ?case using level_le source_le_trans by blast
qed

text \<open>
  A script that ends within the bound, whatever the way, has the same output, error, panic and final
  shell within every larger bound.
\<close>

lemma exec_limit_mono:
  assumes "fst (exec_with_stdin oc d script input sh) \<noteq> SourceLimit" "d \<le> d'"
  shows "exec_with_stdin oc d' script input sh = exec_with_stdin oc d script input sh"
proof -
  have "limit_le (run_level oc d s io) (run_level oc d' s io)" for s io
    using level_mono [OF assms(2), where oc = oc] by (auto simp: source_le_def)
  then have "limit_le (exec_with_stdin oc d script input) (exec_with_stdin oc d' script input)"
    unfolding exec_with_stdin_def by (auto intro!: limit_intros)
  then show ?thesis using assms(1) by (auto simp: limit_le_def)
qed

end
