(* ===== verification/CharFacts.thy ===== *)
theory CharFacts
  imports BuiltinCore
begin

text \<open>
  Characters as byte sequences: code points and their encoding are inverse to each other, and a string
  put together from characters comes apart into them again. The escapes of \<open>echo -e\<close> undo a quoting.
\<close>

section \<open>Code points\<close>

definition is_char :: "string \<Rightarrow> bool" where
  "is_char c \<longleftrightarrow> utf8_chunks c = [(True, c)]"

lemma is_char_wf: "is_char c \<longleftrightarrow> c \<noteq> [] \<and> wf_seq c (length c)"
proof
  assume c: "is_char c"
  then have ne: "c \<noteq> []" by (auto simp: is_char_def utf8_chunks.simps)
  obtain ok n where st: "utf8_step c = (ok, n)" by fastforce
  then have "ok" "take n c = c" using c ne by (auto simp: is_char_def utf8_chunks.simps [of c])
  then have "length c \<le> n" "utf8_step c = (True, n)" using st by (metis length_take min.cobounded2, simp)
  then show "c \<noteq> [] \<and> wf_seq c (length c)"
    using utf8_step_length [of c n] ne by (simp add: utf8_step_True)
next
  assume c: "c \<noteq> [] \<and> wf_seq c (length c)"
  then have "utf8_step c = (True, length c)" by (simp add: utf8_step_True)
  then show "is_char c" using c by (simp add: is_char_def utf8_chunks.simps [of c] utf8_chunks.simps [of "[]"])
qed

lemma is_char_valid: "is_char c \<Longrightarrow> valid_utf8 c"
  by (simp add: is_char_def valid_utf8_def)

lemma chars_concat: "list_all is_char cs \<Longrightarrow> utf8_chars (concat cs) = cs"
proof (induction cs)
  case (Cons c cs)
  then have "is_char c" "valid_utf8 c" by (simp_all add: is_char_valid)
  with Cons show ?case
    by (simp add: utf8_chars_def utf8_chunks_append) (simp add: is_char_def)
qed (simp add: utf8_chars_def utf8_chunks.simps)

lemma chunk_is_char: "(True, t) \<in> set (utf8_chunks s) \<Longrightarrow> is_char t"
proof (induction s rule: utf8_chunks.induct)
  case (1 s)
  have ne: "s \<noteq> []" using 1(2) by (auto simp: utf8_chunks.simps)
  obtain ok n where st: "utf8_step s = (ok, n)" by fastforce
  have unf: "utf8_chunks s = (ok, take n s) # utf8_chunks (drop n s)"
    using ne st by (subst utf8_chunks.simps) simp
  show ?case
  proof (cases "(True, t) \<in> set (utf8_chunks (drop n s))")
    case True
    with 1(1) [OF ne st [symmetric] refl] show ?thesis by simp
  next
    case False
    with 1(2) unf have ok: ok and t: "t = take n s" by auto
    then have "utf8_step t = (True, n)" "length t = n" "t \<noteq> []"
      using utf8_step_take st ne utf8_step_pos [of s] utf8_step_length [of s n] by fastforce+
    then show ?thesis by (simp add: is_char_wf utf8_step_True)
  qed
qed

lemma chars_are_chars: "valid_utf8 s \<Longrightarrow> c \<in> set (utf8_chars s) \<Longrightarrow> is_char c"
  by (auto simp: utf8_chars_def valid_utf8_def list_all_iff intro!: chunk_is_char)

lemma is_char_cases:
  "is_char c \<longleftrightarrow>
     (\<exists>a. c = [a] \<and> byte a < 128)
   \<or> (\<exists>a b. c = [a, b] \<and> 194 \<le> byte a \<and> byte a \<le> 223 \<and> 128 \<le> byte b \<and> byte b \<le> 191)
   \<or> (\<exists>a b d. c = [a, b, d] \<and> 224 \<le> byte a \<and> byte a \<le> 239
        \<and> (if byte a = 224 then 160 else 128) \<le> byte b \<and> byte b \<le> (if byte a = 237 then 159 else 191)
        \<and> 128 \<le> byte d \<and> byte d \<le> 191)
   \<or> (\<exists>a b d e. c = [a, b, d, e] \<and> 240 \<le> byte a \<and> byte a \<le> 244
        \<and> (if byte a = 240 then 144 else 128) \<le> byte b \<and> byte b \<le> (if byte a = 244 then 143 else 191)
        \<and> 128 \<le> byte d \<and> byte d \<le> 191 \<and> 128 \<le> byte e \<and> byte e \<le> 191)"
proof -
  consider "c = []" | a where "c = [a]" | a b where "c = [a, b]" | a b d where "c = [a, b, d]"
    | a b d e where "c = [a, b, d, e]" | "5 \<le> length c"
    by (cases c rule: remdups_adj.cases; cases "tl (tl c)" rule: remdups_adj.cases; cases "drop 4 c") auto
  then show ?thesis
    by cases (auto simp: is_char_wf wf_seq_def Let_def in_range_def)
qed

text \<open>The six-bit digits of a code point.\<close>

lemma digits2: "z < 64 \<Longrightarrow> (x * 64 + z) div 64 = x" "z < 64 \<Longrightarrow> (x * 64 + z) mod 64 = (z::nat)"
  by simp_all

lemma digits3:
  assumes "y < 64" "z < (64::nat)"
  shows "(x * 4096 + y * 64 + z) div 4096 = x" "(x * 4096 + y * 64 + z) div 64 mod 64 = y"
    "(x * 4096 + y * 64 + z) mod 64 = z"
proof -
  have e: "x * 4096 + y * 64 + z = (x * 64 + y) * 64 + z" by simp
  have d: "n div 4096 = n div 64 div 64" for n :: nat by (simp add: div_mult2_eq)
  show "(x * 4096 + y * 64 + z) div 4096 = x" "(x * 4096 + y * 64 + z) div 64 mod 64 = y"
    "(x * 4096 + y * 64 + z) mod 64 = z"
    unfolding e d by (simp_all only: digits2 assms)
qed

lemma digits4:
  assumes "w < 64" "y < 64" "z < (64::nat)"
  shows "(x * 262144 + w * 4096 + y * 64 + z) div 262144 = x"
    "(x * 262144 + w * 4096 + y * 64 + z) div 4096 mod 64 = w"
    "(x * 262144 + w * 4096 + y * 64 + z) div 64 mod 64 = y" "(x * 262144 + w * 4096 + y * 64 + z) mod 64 = z"
proof -
  have e: "x * 262144 + w * 4096 + y * 64 + z = ((x * 64 + w) * 64 + y) * 64 + z" by simp
  have d: "n div 262144 = n div 64 div 64 div 64" "n div 4096 = n div 64 div 64" for n :: nat
    by (simp_all add: div_mult2_eq)
  show "(x * 262144 + w * 4096 + y * 64 + z) div 262144 = x"
    "(x * 262144 + w * 4096 + y * 64 + z) div 4096 mod 64 = w"
    "(x * 262144 + w * 4096 + y * 64 + z) div 64 mod 64 = y" "(x * 262144 + w * 4096 + y * 64 + z) mod 64 = z"
    unfolding e d by (simp_all only: digits2 assms)
qed

lemma from_code_point: "is_char c \<Longrightarrow> from_u32 (code_point c) = Some c"
proof -
  assume "is_char c"
  then consider a where "c = [a]" "byte a < 128"
    | a b where "c = [a, b]" "194 \<le> byte a" "byte a \<le> 223" "128 \<le> byte b" "byte b \<le> 191"
    | a b d where "c = [a, b, d]" "224 \<le> byte a" "byte a \<le> 239"
        "(if byte a = 224 then 160 else 128) \<le> byte b" "byte b \<le> (if byte a = 237 then 159 else 191)"
        "128 \<le> byte d" "byte d \<le> 191"
    | a b d e where "c = [a, b, d, e]" "240 \<le> byte a" "byte a \<le> 244"
        "(if byte a = 240 then 144 else 128) \<le> byte b" "byte b \<le> (if byte a = 244 then 143 else 191)"
        "128 \<le> byte d" "byte d \<le> 191" "128 \<le> byte e" "byte e \<le> 191"
    by (auto simp: is_char_cases)
  then show ?thesis
  proof cases
    case (2 a b)
    define x y where "x = byte a - 192" and "y = byte b - 128"
    then have xy: "byte a = 192 + x" "byte b = 128 + y" "2 \<le> x" "x < 32" "y < 64" using 2 by auto
    then have n: "code_point c = x * 64 + y" by (simp add: code_point_def 2(1))
    have "a = char_of (192 + x)" "b = char_of (128 + y)" using xy by (metis char_of_char)+
    then show ?thesis
      unfolding n using xy digits2 [of y x] by (simp add: from_u32_def 2(1))
  next
    case (3 a b d)
    define x y z where "x = byte a - 224" and "y = byte b - 128" and "z = byte d - 128"
    then have xyz: "byte a = 224 + x" "byte b = 128 + y" "byte d = 128 + z" "x < 16" "y < 64" "z < 64"
      "x = 0 \<longrightarrow> 32 \<le> y" "x = 13 \<longrightarrow> y < 32"
      using 3 by (auto split: if_splits)
    then have n: "code_point c = x * 4096 + y * 64 + z" by (simp add: code_point_def 3(1))
    have "a = char_of (224 + x)" "b = char_of (128 + y)" "d = char_of (128 + z)"
      using xyz by (metis char_of_char)+
    moreover have "2048 \<le> x * 4096 + y * 64 + z" "x * 4096 + y * 64 + z < 65536" using xyz by linarith+
    moreover have "\<not> (55296 \<le> x * 4096 + y * 64 + z \<and> x * 4096 + y * 64 + z < 57344)"
      using xyz by (cases "x \<le> 12"; cases "x = 13") auto
    ultimately show ?thesis
      unfolding n using digits3 [OF xyz(5,6), of x] by (simp add: from_u32_def 3(1))
  next
    case (4 a b d e)
    define x w y z where "x = byte a - 240" and "w = byte b - 128" and "y = byte d - 128" and "z = byte e - 128"
    then have xyz: "byte a = 240 + x" "byte b = 128 + w" "byte d = 128 + y" "byte e = 128 + z"
      "x < 5" "w < 64" "y < 64" "z < 64" "x = 0 \<longrightarrow> 16 \<le> w" "x = 4 \<longrightarrow> w < 16"
      using 4 by (auto split: if_splits)
    then have n: "code_point c = x * 262144 + w * 4096 + y * 64 + z" by (simp add: code_point_def 4(1))
    have "a = char_of (240 + x)" "b = char_of (128 + w)" "d = char_of (128 + y)" "e = char_of (128 + z)"
      using xyz by (metis char_of_char)+
    moreover have "65536 \<le> x * 262144 + w * 4096 + y * 64 + z" "x * 262144 + w * 4096 + y * 64 + z < 1114112"
      using xyz by linarith+
    ultimately show ?thesis
      unfolding n using digits4 [OF xyz(6,7,8), of x] by (simp add: from_u32_def 4(1))
  qed (simp add: from_u32_def code_point_def)
qed

lemma byte_of_small: "n < 256 \<Longrightarrow> byte (char_of n) = n"
  by simp

lemma from_u32_char:
  assumes "from_u32 n = Some c"
  shows "is_char c \<and> code_point c = n"
proof -
  have d: "n div 4096 = n div 64 div 64" "n div 262144 = n div 64 div 64 div 64" by (simp_all add: div_mult2_eq)
  define z y w x where "z = n mod 64" and "y = n div 64 mod 64" and "w = n div 64 div 64 mod 64"
    and "x = n div 64 div 64 div 64"
  have lt: "z < 64" "y < 64" "w < 64" by (simp_all add: z_def y_def w_def)
  have "n = ((x * 64 + w) * 64 + y) * 64 + z" by (simp add: z_def y_def w_def x_def)
  then have n: "n = x * 262144 + w * 4096 + y * 64 + z" by simp
  consider "n < 128" | "128 \<le> n" "n < 2048" | "2048 \<le> n" "n < 65536" | "65536 \<le> n" "n < 1114112"
    using assms by (fastforce simp: from_u32_def split: if_splits)
  then show ?thesis
  proof cases
    case 1
    then show ?thesis using assms by (auto simp: from_u32_def is_char_cases code_point_def)
  next
    case 2
    have "x = 0" using 2 lt n by linarith
    moreover have "w = 0" using 2 lt n by linarith
    ultimately have zero: "x = 0" "w = 0" by blast+
    then have "2 \<le> y" "y < 32" using 2 lt n by linarith+
    moreover note zero
    moreover have q: "n div 64 = y" using zero lt by (subst n) (simp add: digits2)
    moreover have "c = [char_of (192 + y), char_of (128 + z)]"
      using assms 2 q by (auto simp: from_u32_def z_def [symmetric])
    ultimately show ?thesis using lt by (simp add: is_char_cases code_point_def, subst n, simp)
  next
    case 3
    then have "x = 0" using lt n by linarith
    moreover from this have "w < 16" "w = 0 \<longrightarrow> 32 \<le> y" using 3 lt n by linarith+
    moreover have "n div 4096 = w" using \<open>x = 0\<close> lt digits3 (1) [of y z w] by (subst n) simp
    moreover from this have "c = [char_of (224 + w), char_of (128 + y), char_of (128 + z)]"
      and "\<not> (55296 \<le> n \<and> n < 57344)"
      using assms 3 by (auto simp: from_u32_def z_def [symmetric] y_def [symmetric] split: if_splits)
    moreover have "w = 13 \<longrightarrow> y < 32" using calculation n lt by auto
    ultimately show ?thesis using n lt by (auto simp: is_char_cases code_point_def)
  next
    case 4
    then have "x \<le> 4" using lt n by linarith
    moreover from 4 have "x = 0 \<longrightarrow> 16 \<le> w" "x = 4 \<longrightarrow> w < 16" using lt n by linarith+
    moreover have "c = [char_of (240 + x), char_of (128 + w), char_of (128 + y), char_of (128 + z)]"
      using assms 4
      by (auto simp: from_u32_def d z_def [symmetric] y_def [symmetric] w_def [symmetric] x_def [symmetric] split: if_splits)
    ultimately show ?thesis using n lt by (auto simp: is_char_cases code_point_def)
  qed
qed

lemma from_u32_iff: "from_u32 n = Some c \<longleftrightarrow> is_char c \<and> code_point c = n"
  using from_u32_char from_code_point by blast

lemma char_range_facts:
  "set (char_range a b) = {c. is_char c \<and> code_point a \<le> code_point c \<and> code_point c \<le> code_point b}
   \<and> sorted_wrt (<) (map code_point (char_range a b))"
proof -
  let ?f = "\<lambda>n. the (from_u32 n)" and ?ns = "filter (\<lambda>n. from_u32 n \<noteq> None) [code_point a ..< Suc (code_point b)]"
  have r: "char_range a b = map ?f ?ns" by (simp add: char_range_def map_filter_def)
  have "map code_point (char_range a b) = ?ns"
    unfolding r map_map by (intro map_idI) (auto dest: from_u32_char)
  moreover have "sorted_wrt (<) ?ns" by (intro sorted_wrt_filter) (simp add: strict_sorted_iff del: upt_Suc)
  moreover have "c \<in> set (char_range a b) \<longleftrightarrow> is_char c \<and> code_point a \<le> code_point c \<and> code_point c \<le> code_point b" for c
  proof -
    have "c \<in> set (char_range a b) \<longleftrightarrow> (\<exists>n. code_point a \<le> n \<and> n \<le> code_point b \<and> from_u32 n = Some c)"
      unfolding r by (auto simp: image_iff less_Suc_eq_le simp del: upt_Suc)
    then show ?thesis by (auto simp: from_u32_iff)
  qed
  ultimately show ?thesis by auto
qed

text \<open>
  C29: the ranges of \<open>tr\<close>. \<open>a-b\<close> in a character set stands for the characters whose code points lie
  between those of \<open>a\<close> and \<open>b\<close>, every one of them once and in order, the surrogates left out: the
  conversion to a code point and back loses nothing, for sequences of one to four bytes.
\<close>

theorem char_range_interval:
  "set (char_range a b) = {c. is_char c \<and> code_point a \<le> code_point c \<and> code_point c \<le> code_point b}
   \<and> sorted_wrt (<) (map code_point (char_range a b))"
  by (rule char_range_facts)

section \<open>Escapes\<close>

text \<open>A quoting of a text in one line, by the escapes \<open>echo -e\<close> understands.\<close>

definition quote_char :: "string \<Rightarrow> string list" where
  "quote_char c =
     (if c = [BSLASH] then [ [BSLASH], [BSLASH] ] else if c = [NL] then [ [BSLASH], ''n'' ]
      else if c = [TAB] then [ [BSLASH], ''t'' ] else if c = [CR] then [ [BSLASH], ''r'' ] else [c])"

definition echo_quote :: "string \<Rightarrow> string" where
  "echo_quote s = concat (concat (map quote_char (utf8_chars s)))"

lemma escapes_plain: "c \<noteq> [BSLASH] \<Longrightarrow> escapes_loop (c # cs) = c @ escapes_loop cs"
  by (cases cs) auto

lemma escapes_quoted: "escapes_loop (concat (map quote_char cs)) = concat cs"
  by (induction cs) (auto simp: quote_char_def escapes_plain escape_of_def char_consts)

lemma quote_char_chars: "is_char c \<Longrightarrow> list_all is_char (quote_char c)"
  by (auto simp: quote_char_def is_char_cases char_consts)

text \<open>
  C28: escapes round trip. For every UTF-8 text, its quoting is one line and the escape interpreter of
  \<open>echo -e\<close> and \<open>printf %b\<close> gives the text back.
\<close>

theorem escapes_roundtrip:
  assumes "valid_utf8 s"
  shows "interpret_escapes (echo_quote s) = s \<and> NL \<notin> set (echo_quote s)"
proof -
  let ?qs = "concat (map quote_char (utf8_chars s))"
  have chars: "is_char c" if "c \<in> set (utf8_chars s)" for c using chars_are_chars [OF assms that] .
  then have "list_all is_char ?qs" using quote_char_chars by (fastforce simp: list_all_iff)
  then have "utf8_chars (echo_quote s) = ?qs" by (simp add: echo_quote_def chars_concat)
  then have "interpret_escapes (echo_quote s) = s" by (simp add: interpret_escapes_def escapes_quoted)
  moreover have "NL \<notin> set d" if "is_char c" "d \<in> set (quote_char c)" for c d
    using that by (auto simp: quote_char_def is_char_cases char_consts split: if_splits)
  ultimately show ?thesis using chars by (fastforce simp: echo_quote_def)
qed

theorem escapes_roundtrip_witness:
  "interpret_escapes (echo_quote (''a'' @ [NL, BSLASH, CHR 0xC3, CHR 0xA9, TAB])) = ''a'' @ [NL, BSLASH, CHR 0xC3, CHR 0xA9, TAB]"
proof -
  have "valid_utf8 (''a'' @ [NL, BSLASH, CHR 0xC3, CHR 0xA9, TAB])" by code_simp
  then show ?thesis using escapes_roundtrip by blast
qed

end
