(* ===== verification/TextFacts.thy ===== *)
theory TextFacts
  imports BuiltinsText BuiltinsEnv CharFacts "HOL-Library.Multiset"
begin

text \<open>
  What the text programs compute: \<open>sort\<close>, \<open>uniq\<close> and \<open>cut\<close> against their specifications, the glob
  matcher against the language of a pattern, \<open>tr\<close> against its sets, and \<open>test\<close> against a grammar.
\<close>

section \<open>sort\<close>

lemma distinct_adj_sorted: "sorted xs \<Longrightarrow> distinct_adj xs \<Longrightarrow> distinct xs"
  by (induction xs rule: remdups_adj.induct) (auto simp: order.antisym)

lemma adj_sorted: "sorted xs \<Longrightarrow> sorted (remdups_adj xs)"
  by (rule sorted_remdups_adj)

text \<open>
  The number on a line, as the reader sees it: digits, with a sign or not, between blank characters,
  of a value that fits 64 bits.
\<close>

definition decimal :: "string \<Rightarrow> int" where
  "decimal ds = int (foldl (\<lambda>n c. 10 * n + (byte c - 48)) 0 ds)"

definition denotes_number :: "string \<Rightarrow> int \<Rightarrow> bool" where
  "denotes_number line n \<longleftrightarrow>
     (\<exists>before sign ds after. line = concat before @ sign @ ds @ concat after
        \<and> list_all is_whitespace before \<and> list_all is_whitespace after
        \<and> sign \<in> {'''', ''+'', ''-''} \<and> ds \<noteq> [] \<and> list_all is_ascii_digit ds
        \<and> n = (if sign = ''-'' then - decimal ds else decimal ds)
        \<and> - 9223372036854775808 \<le> n \<and> n \<le> 9223372036854775807)"

lemma decimal_nonneg [simp]: "0 \<le> decimal ds"
  by (simp add: decimal_def)

lemma digits_val_fold:
  "digits_val a ds = Some n \<longleftrightarrow> list_all is_ascii_digit ds \<and> n = foldl (\<lambda>n c. 10 * n + (byte c - 48)) a ds"
  by (induction ds arbitrary: a) auto

lemma parse_digits_iff:
  "parse_digits ds = Some n \<longleftrightarrow> ds \<noteq> [] \<and> list_all is_ascii_digit ds \<and> int n = decimal ds"
  by (auto simp: parse_digits_def digits_val_fold decimal_def)

lemma digit_no_sign: "list_all is_ascii_digit ds \<Longrightarrow> \<not> starts_with ds ''-'' \<and> \<not> starts_with ds ''+''"
  by (cases ds) (auto simp: is_ascii_digit_def)

lemma parse_signed_iff:
  "parse_signed 64 t = Some n \<longleftrightarrow>
     (\<exists>sign ds. t = sign @ ds \<and> sign \<in> {'''', ''+'', ''-''} \<and> ds \<noteq> [] \<and> list_all is_ascii_digit ds
        \<and> n = (if sign = ''-'' then - decimal ds else decimal ds)
        \<and> - 9223372036854775808 \<le> n \<and> n \<le> 9223372036854775807)" (is "?L \<longleftrightarrow> ?R")
proof
  assume L: ?L
  consider (minus) ds where "t = ''-'' @ ds" | (plus) ds where "t = ''+'' @ ds"
    | (none) "\<not> starts_with t ''-''" "\<not> starts_with t ''+''"
    by (cases t) auto
  then show ?R
  proof cases
    case (minus ds)
    then show ?thesis using L
      by - (rule exI [of _ "''-''"], rule exI [of _ ds], auto simp: parse_signed_def Let_def parse_digits_iff split: option.splits if_splits)
  next
    case (plus ds)
    then show ?thesis using L
      by - (rule exI [of _ "''+''"], rule exI [of _ ds], auto simp: parse_signed_def Let_def parse_digits_iff split: option.splits if_splits)
  next
    case none
    then show ?thesis using L
      by - (rule exI [of _ "''''"], rule exI [of _ t], auto simp: parse_signed_def Let_def parse_digits_iff split: option.splits if_splits)
  qed
next
  assume ?R
  then obtain sign ds where t: "t = sign @ ds" "sign \<in> {'''', ''+'', ''-''}" "ds \<noteq> []" "list_all is_ascii_digit ds"
    and n: "n = (if sign = ''-'' then - decimal ds else decimal ds)" "- 9223372036854775808 \<le> n" "n \<le> 9223372036854775807"
    by blast
  obtain m where m: "decimal ds = int m" using decimal_nonneg nonneg_int_cases by blast
  then have "parse_digits ds = Some m" using t by (simp add: parse_digits_iff)
  then show ?L
    using t(2) digit_no_sign [OF t(4)] n m unfolding t(1) by (auto simp: parse_signed_def Let_def)
qed

lemma whitespace_is_char: "is_whitespace w \<Longrightarrow> is_char w"
  by (auto simp: is_whitespace_def is_char_wf wf_seq_def in_range_def split: list.splits)

lemma trim_parts:
  obtains before after where "list_all is_whitespace before" "list_all is_whitespace after"
    "s = concat before @ trim s @ concat after"
proof -
  let ?r = "dropWhile is_whitespace (utf8_chars s)"
  have "s = concat (takeWhile is_whitespace (utf8_chars s) @ rev (dropWhile is_whitespace (rev ?r))
      @ rev (takeWhile is_whitespace (rev ?r)))"
    by (simp only: rev_append [symmetric] takeWhile_dropWhile_id rev_rev_ident concat_chars)
  then have "s = concat (takeWhile is_whitespace (utf8_chars s)) @ trim s @ concat (rev (takeWhile is_whitespace (rev ?r)))"
    by (simp add: trim_def)
  then show ?thesis by (rule that [rotated 2]) (auto simp: list_all_iff dest: set_takeWhileD)
qed

lemma trim_core:
  assumes "list_all is_whitespace before" "list_all is_whitespace after" "core \<noteq> []"
    and "list_all (\<lambda>c. byte c < 128 \<and> \<not> is_whitespace [c]) core"
  shows "trim (concat before @ core @ concat after) = core"
proof -
  let ?cs = "map (\<lambda>c. [c]) core"
  have "is_char [c]" if "c \<in> set core" for c
    using assms(4) that by (auto simp: is_char_wf wf_seq_def list_all_iff)
  then have "list_all is_char (before @ ?cs @ after)"
    using assms(1,2) whitespace_is_char by (auto simp: list_all_iff)
  then have "utf8_chars (concat (before @ ?cs @ after)) = before @ ?cs @ after" by (rule chars_concat)
  then have chars: "utf8_chars (concat before @ core @ concat after) = before @ ?cs @ after" by simp
  have drops0: "dropWhile is_whitespace (?cs @ xs) = ?cs @ xs" "dropWhile is_whitespace (rev ?cs @ xs) = rev ?cs @ xs" for xs
    using assms(3,4) by (cases core; simp) (cases core rule: rev_cases; use assms(3,4) in simp)
  have drops: "dropWhile is_whitespace (before @ xs) = dropWhile is_whitespace xs"
    "dropWhile is_whitespace (rev after @ xs) = dropWhile is_whitespace xs"
    "dropWhile is_whitespace (?cs @ xs) = ?cs @ xs" "dropWhile is_whitespace (rev ?cs @ xs) = rev ?cs @ xs" for xs
    using assms(1,2) drops0 by (auto intro!: dropWhile_append2 simp: list_all_iff)
  have "trim (concat before @ core @ concat after)
      = concat (rev (dropWhile is_whitespace (rev (?cs @ after))))"
    by (simp only: trim_def chars drops)
  also have "rev (?cs @ after) = rev after @ rev ?cs @ []" by simp
  also have "dropWhile is_whitespace (rev after @ rev ?cs @ []) = rev ?cs @ []"
    by (simp only: drops)
  finally show ?thesis by simp
qed


lemma parse_num_denotes:
  "denotes_number l n \<Longrightarrow> parse_num l = n"
  "(\<nexists>n. denotes_number l n) \<Longrightarrow> parse_num l = 0"
proof -
  assume "denotes_number l n"
  then obtain before sign ds after where l: "l = concat before @ (sign @ ds) @ concat after"
    and w: "list_all is_whitespace before" "list_all is_whitespace after"
    and d: "sign \<in> {'''', ''+'', ''-''}" "ds \<noteq> []" "list_all is_ascii_digit ds"
    and n: "n = (if sign = ''-'' then - decimal ds else decimal ds)" "- 9223372036854775808 \<le> n" "n \<le> 9223372036854775807"
    unfolding denotes_number_def append_assoc by blast
  have "\<forall>c \<in> set (sign @ ds). is_ascii_digit c \<or> c = CHR ''+'' \<or> c = CHR ''-''"
    using d(1,3) by (auto simp: list_all_iff)
  moreover have "byte c < 128 \<and> \<not> is_whitespace [c]" if "is_ascii_digit c \<or> c = CHR ''+'' \<or> c = CHR ''-''" for c
    using that by (auto simp: is_ascii_digit_def is_whitespace_def)
  ultimately have "list_all (\<lambda>c. byte c < 128 \<and> \<not> is_whitespace [c]) (sign @ ds)"
    unfolding list_all_iff by blast
  then have "trim l = sign @ ds" unfolding l using trim_core [OF w, of "sign @ ds"] d(2) by simp
  moreover have "parse_signed 64 (sign @ ds) = Some n" unfolding parse_signed_iff using d n by blast
  ultimately show "parse_num l = n" by (simp add: parse_num_def)
next
  assume none: "\<nexists>n. denotes_number l n"
  obtain before after where w: "list_all is_whitespace before" "list_all is_whitespace after"
    "l = concat before @ trim l @ concat after" by (rule trim_parts)
  have "parse_signed 64 (trim l) = None"
  proof (rule ccontr)
    assume "parse_signed 64 (trim l) \<noteq> None"
    then obtain n where "parse_signed 64 (trim l) = Some n" by blast
    then have "denotes_number l n"
      unfolding parse_signed_iff denotes_number_def using w by (metis append_assoc)
    then show False using none by blast
  qed
  then show "parse_num l = 0" by (simp add: parse_num_def)
qed

lemma number_of_line:
  assumes "\<And>l n. denotes_number l n \<Longrightarrow> denotes_number l (num l)" "\<And>l. (\<nexists>n. denotes_number l n) \<Longrightarrow> num l = 0"
  shows "num = parse_num"
proof
  show "num l = parse_num l" for l
    using assms [of l] parse_num_denotes [of l] by (cases "\<exists>n. denotes_number l n") fastforce+
qed

text \<open>
  C24: \<open>sort\<close>. There is an arrangement of the lines of the input, every one as often as it was there,
  that is in the order asked for: by bytes, or under \<open>-n\<close> by the number on the line, 0 where there is
  none; ascending, or descending under \<open>-r\<close>. Under \<open>-n\<close> lines of equal number stay in their order, and
  under \<open>-n -r\<close> they are in the opposite order. The output is this arrangement, or under \<open>-u\<close> what is
  left of it without the lines that follow their equal; in byte order that is no line twice.
\<close>

theorem sort_lines_correct:
  assumes "\<And>l n. denotes_number l n \<Longrightarrow> denotes_number l (num l)" "\<And>l. (\<nexists>n. denotes_number l n) \<Longrightarrow> num l = 0"
  shows "\<exists>out. mset out = mset ls
     \<and> (if so_numeric opts
        then sorted_wrt (\<lambda>a b. if so_reverse opts then num b \<le> num a else num a \<le> num b) out
          \<and> (\<forall>k. [l \<leftarrow> out. num l = k] = (if so_reverse opts then rev [l \<leftarrow> ls. num l = k] else [l \<leftarrow> ls. num l = k]))
        else sorted_wrt (\<lambda>a b. if so_reverse opts then b \<le> a else a \<le> b) out)
     \<and> sort_lines opts ls = (if so_unique opts then remdups_adj out else out)
     \<and> (so_unique opts \<and> \<not> so_numeric opts \<longrightarrow> distinct (sort_lines opts ls))"
proof -
  let ?in = "if so_numeric opts then sort_key num ls else sort ls"
  let ?out = "if so_reverse opts then rev ?in else ?in"
  have s: "sort_lines opts ls = (if so_unique opts then remdups_adj ?out else ?out)"
    by (simp add: sort_lines_def Let_def number_of_line [OF assms])
  have key: "sorted_wrt (\<lambda>a b. num a \<le> num b) (sort_key num ls)" "sorted_wrt (\<le>) (sort ls)"
    using sorted_sort_key [of num ls] by (simp_all add: sorted_wrt_map)
  then have ordered: "sorted_wrt (\<lambda>a b. if so_reverse opts then num b \<le> num a else num a \<le> num b)
        (if so_reverse opts then rev (sort_key num ls) else sort_key num ls)"
    "sorted_wrt (\<lambda>a b. if so_reverse opts then b \<le> a else a \<le> b) (if so_reverse opts then rev (sort ls) else sort ls)"
    by (simp_all add: sorted_wrt_rev)
  have "distinct (remdups_adj (sort ls))" "distinct (remdups_adj (rev (sort ls)))"
    using adj_sorted [of "sort ls"] distinct_adj_remdups_adj [of "sort ls"]
    by (simp_all add: distinct_adj_sorted remdups_adj_rev)
  then show ?thesis
    using ordered by (intro exI [of _ ?out]) (auto simp: s sort_key_stable rev_filter [symmetric])
qed

theorem sort_lines_correct_witness:
  "\<exists>out. mset out = mset [''10'', ''b'', ''9'', ''a'']
     \<and> [l \<leftarrow> out. parse_num l = 0] = [''a'', ''b'']
     \<and> sort_lines \<lparr>so_reverse = True, so_numeric = True, so_unique = False, so_paths = []\<rparr> [''10'', ''b'', ''9'', ''a''] = out"
proof -
  let ?o = "\<lparr>so_reverse = True, so_numeric = True, so_unique = False, so_paths = []\<rparr>"
  have "[l \<leftarrow> [''10'', ''b'', ''9'', ''a'']. parse_num l = 0] = [''b'', ''a'']" by code_simp
  moreover have "denotes_number l (parse_num l)" if "denotes_number l n" for l n
    using that parse_num_denotes(1) [OF that] by simp
  ultimately show ?thesis
    using sort_lines_correct [of parse_num "[''10'', ''b'', ''9'', ''a'']" ?o] parse_num_denotes(2)
    by (auto split: if_splits)
qed

section \<open>uniq\<close>

lemma group_step_decode:
  "concat (map (\<lambda>(l, n). replicate n l) (group_step gs line)) = concat (map (\<lambda>(l, n). replicate n l) gs) @ [line]"
proof (cases "gs \<noteq> [] \<and> fst (last gs) = line")
  case True
  then obtain gs' n where "gs = gs' @ [(line, n)]" by (metis append_butlast_last_id prod.collapse)
  then show ?thesis by (simp add: group_step_def replicate_append_same)
qed (auto simp: group_step_def)

lemma group_step_keys:
  "gs \<noteq> [] \<Longrightarrow> fst (last (group_step gs line)) = line \<and>
     map fst (group_step gs line) = (if fst (last gs) = line then map fst gs else map fst gs @ [line])"
proof -
  assume "gs \<noteq> []"
  then obtain gs' g where "gs = gs' @ [g]" by (metis append_butlast_last_id)
  then show ?thesis by (auto simp: group_step_def)
qed

lemma distinct_adj_snoc: "distinct_adj (xs @ [x]) \<longleftrightarrow> distinct_adj xs \<and> (xs \<noteq> [] \<longrightarrow> last xs \<noteq> x)"
  by (induction xs rule: remdups_adj.induct) auto

lemma group_step_adj: "distinct_adj (map fst gs) \<Longrightarrow> distinct_adj (map fst (group_step gs line))"
proof (cases "gs = []")
  case False
  assume "distinct_adj (map fst gs)"
  then show ?thesis
    using False group_step_keys [OF False, of line] by (cases "fst (last gs) = line") (simp_all add: distinct_adj_snoc last_map)
qed (simp add: group_step_def)

lemma groups_decode:
  "concat (map (\<lambda>(l, n). replicate n l) (foldl group_step gs ls)) = concat (map (\<lambda>(l, n). replicate n l) gs) @ ls"
  by (induction ls arbitrary: gs) (simp_all add: group_step_decode)

lemma group_step_pos: "0 \<notin> snd ` set gs \<Longrightarrow> 0 \<notin> snd ` set (group_step gs line)"
  by (auto simp: group_step_def image_iff dest: in_set_butlastD)

lemma groups_pos: "0 \<notin> snd ` set gs \<Longrightarrow> 0 \<notin> snd ` set (foldl group_step gs ls)"
proof (induction ls arbitrary: gs)
  case (Cons l ls)
  then show ?case using group_step_pos by (simp only: foldl.simps) blast
qed simp

lemma groups_adj: "distinct_adj (map fst gs) \<Longrightarrow> distinct_adj (map fst (foldl group_step gs ls))"
  by (induction ls arbitrary: gs) (simp_all add: group_step_adj)

text \<open>
  C25: \<open>uniq\<close> is a run-length encoding. Its groups decode to the lines of the input, each has at least
  one line, and no two neighbours hold the same line; so plain \<open>uniq\<close> prints the input with every run
  of equal lines reduced to one, and \<open>-d\<close> the lines of the runs of two or more.
\<close>

theorem uniq_run_length:
  "concat (map (\<lambda>(l, n). replicate n l) (uniq_groups ls)) = ls
   \<and> 0 \<notin> snd ` set (uniq_groups ls)
   \<and> distinct_adj (map fst (uniq_groups ls))
   \<and> (\<not> un_count opts \<longrightarrow> uniq_lines opts ls =
        map fst (if un_dups opts then filter (\<lambda>(l, n). 2 \<le> n) (uniq_groups ls) else uniq_groups ls))"
proof (intro conjI impI)
  assume "\<not> un_count opts"
  then have f: "(\<lambda>(line, n). if un_count opts then pad_left 7 (show_nat n) @ '' '' @ line else line) = fst"
    by (auto simp: fun_eq_iff)
  have g: "filter (\<lambda>(line, n). \<not> (un_dups opts \<and> n < 2)) gs =
      (if un_dups opts then filter (\<lambda>(l, n). 2 \<le> n) gs else gs)" for gs :: "(string \<times> nat) list"
    by (auto simp: not_less intro!: filter_cong)
  show "uniq_lines opts ls =
      map fst (if un_dups opts then filter (\<lambda>(l, n). 2 \<le> n) (uniq_groups ls) else uniq_groups ls)"
    unfolding uniq_lines_def f g ..
qed (simp_all add: uniq_groups_def groups_decode groups_adj groups_pos del: image_eqI)

theorem uniq_run_length_witness:
  "uniq_lines \<lparr>un_count = False, un_dups = True, un_paths = []\<rparr> [''a'', ''a'', ''b'', ''a''] = [''a'']"
proof -
  have "map fst (filter (\<lambda>(l, n). 2 \<le> n) (uniq_groups [''a'', ''a'', ''b'', ''a''])) = [''a'']"
    by code_simp
  then show ?thesis
    using uniq_run_length [of "[''a'', ''a'', ''b'', ''a'']" "\<lparr>un_count = False, un_dups = True, un_paths = []\<rparr>"] by simp
qed

section \<open>cut\<close>

lemma select_fields_nths: "select_fields ranges xs = nths xs {i. field_in_range i ranges}"
proof -
  have "map snd (filter (\<lambda>(i, _). field_in_range i ranges) (enumerate k ys)) = nths ys {i. field_in_range (i + k) ranges}"
    for k and ys :: "'a list"
    by (induction ys arbitrary: k) (simp_all add: nths_Cons)
  from this [of 0 xs] show ?thesis by (simp add: select_fields_def)
qed

text \<open>The four forms of a list of fields, the positions they select, counted from one, and their text.\<close>

datatype selector = Single nat | UpTo nat | From nat | Between nat nat

fun positions :: "selector \<Rightarrow> nat set" where
  "positions (Single n) = {n}"
| "positions (UpTo n) = {1..n}"
| "positions (From n) = {n..}"
| "positions (Between m n) = {m..n}"

fun selector_text :: "selector \<Rightarrow> string" where
  "selector_text (Single n) = show_nat n"
| "selector_text (UpTo n) = ''-'' @ show_nat n"
| "selector_text (From n) = show_nat n @ ''-''"
| "selector_text (Between m n) = show_nat m @ ''-'' @ show_nat n"

fun selector_ok :: "selector \<Rightarrow> bool" where
  "selector_ok (Single n) \<longleftrightarrow> 1 \<le> n \<and> n < 4294967296"
| "selector_ok (UpTo n) \<longleftrightarrow> 1 \<le> n \<and> n < 4294967296"
| "selector_ok (From n) \<longleftrightarrow> 1 \<le> n \<and> n < 4294967296"
| "selector_ok (Between m n) \<longleftrightarrow> 1 \<le> m \<and> m < 4294967296 \<and> 1 \<le> n \<and> n < 4294967296"

definition selected :: "selector list \<Rightarrow> 'a list \<Rightarrow> 'a list" where
  "selected sels xs = nths xs {i. \<exists>s \<in> set sels. Suc i \<in> positions s}"

lemma find_pos_append: "\<forall>c \<in> set s. \<not> P c \<Longrightarrow> P d \<Longrightarrow> find_pos P (s @ d # t) = Some (length s)"
  by (induction s) auto

lemma digit_not: "is_ascii_digit c \<Longrightarrow> c \<noteq> CHR ''-'' \<and> c \<noteq> CHR '',''"
  by (auto simp: is_ascii_digit_def)

lemma dash_after: "find_pos (\<lambda>c. c = CHR ''-'') (show_nat n @ CHR ''-'' # t) = Some (length (show_nat n))"
  using show_nat_digits digit_not by (intro find_pos_append) auto

lemma no_dash: "find_pos (\<lambda>c. c = CHR ''-'') (show_nat n) = None"
  using show_nat_digits digit_not by (auto simp: find_pos_None)

lemma parse_usize_show: "n < 4294967296 \<Longrightarrow> parse_usize (show_nat n) = Some n"
  unfolding parse_usize_def by (rule parse_unsigned_show) (simp flip: of_nat_less_iff)

lemma parse_selector:
  "selector_ok s \<Longrightarrow> field_in_range i [parse_field (selector_text s)] \<longleftrightarrow> Suc i \<in> positions s"
proof -
  have "parse_usize [] = None" by (simp add: parse_usize_def parse_unsigned_def parse_digits_def)
  then show "selector_ok s \<Longrightarrow> ?thesis"
    by (cases s) (auto simp: parse_field_def field_number_def field_in_range_def dash_after no_dash parse_usize_show)
qed

lemma selector_no_comma: "CHR '','' \<notin> set (selector_text s)"
  using show_nat_digits digit_not by (cases s) auto

lemma parse_selectors:
  assumes "sels \<noteq> []" "\<forall>s \<in> set sels. selector_ok s"
  shows "select_fields (parse_fields (join '','' (map selector_text sels))) xs = selected sels xs"
proof -
  have "split_on CHR '','' (join '','' (map selector_text sels)) = map selector_text sels"
    by (rule split_join) (use assms(1) in \<open>auto simp: selector_no_comma\<close>)
  moreover have "field_in_range i (map (parse_field \<circ> selector_text) ss) \<longleftrightarrow> (\<exists>s \<in> set ss. Suc i \<in> positions s)"
    if "\<forall>s \<in> set ss. selector_ok s" for i ss
    using that
  proof (induction ss)
    case (Cons s ss)
    then show ?case using parse_selector [of s i] by (simp add: field_in_range_def)
  qed (simp add: field_in_range_def)
  ultimately show ?thesis
    using assms(2) by (simp add: select_fields_nths selected_def parse_fields_def)
qed

lemma split_at_append: "d \<notin> set p \<Longrightarrow> split_at_elem d (p @ d # cs) = p # split_at_elem d cs"
  by (induction p) auto

lemma split_at_none: "d \<notin> set p \<Longrightarrow> split_at_elem d p = [p]"
  by (induction p) auto

lemma split_pieces:
  assumes "pieces \<noteq> []" "is_char d" "\<forall>p \<in> set pieces. list_all is_char p \<and> d \<notin> set p"
  shows "split_char d (join d (map concat pieces)) = map concat pieces"
proof -
  have "\<exists>cs. list_all is_char cs \<and> join d (map concat pieces) = concat cs \<and> split_at_elem d cs = pieces"
    using assms
  proof (induction pieces rule: induct_list012)
    case (2 p)
    then show ?case by (intro exI [of _ p]) (simp add: split_at_none)
  next
    case (3 p q ps)
    then obtain cs where "list_all is_char cs" "join d (map concat (q # ps)) = concat cs" "split_at_elem d cs = q # ps"
      by auto
    then show ?case using 3 by (intro exI [of _ "p @ d # cs"]) (simp add: split_at_append)
  qed simp
  then show ?thesis by (auto simp: split_char_def chars_concat)
qed

text \<open>
  C26: \<open>cut\<close>. Take a list of fields in any of its forms, \<open>N\<close>, \<open>-N\<close>, \<open>N-\<close> and \<open>M-N\<close>, counted from
  one and written between commas. On a line made of pieces without the delimiter in them, cutting by
  fields gives the selected pieces in order, joined by the delimiter; cutting by characters gives
  the selected characters of the line.
\<close>

theorem cut_selects:
  assumes "sels \<noteq> []" "\<forall>s \<in> set sels. selector_ok s"
    and "is_char d" "pieces \<noteq> []" "\<forall>p \<in> set pieces. list_all is_char p \<and> d \<notin> set p" "list_all is_char cs"
  shows "cut_line (opts\<lparr>cu_delim := d, cu_chars := None, cu_fields := Some (parse_fields (join '','' (map selector_text sels)))\<rparr>)
         (join d (map concat pieces)) = join d (map concat (selected sels pieces))
     \<and> cut_line (opts\<lparr>cu_chars := Some (parse_fields (join '','' (map selector_text sels)))\<rparr>) (concat cs)
       = concat (selected sels cs)"
  using split_pieces [OF assms(4,3,5)] chars_concat [OF assms(6)]
  by (simp add: cut_line_def parse_selectors [OF assms(1,2)] selected_def nths_map)

theorem cut_selects_witness:
  "cut_line \<lparr>cu_delim = '':'', cu_fields = Some (parse_fields ''-2,4''), cu_chars = None, cu_paths = []\<rparr> ''a:b:c:d:e'' = ''a:b:d''"
proof -
  let ?o = "\<lparr>cu_delim = '':'', cu_fields = None, cu_chars = None, cu_paths = []\<rparr>"
  let ?ps = "[ [''a''], [''b''], [''c''], [''d''], [''e''] ]"
  have t: "join '','' (map selector_text [UpTo 2, Single 4]) = ''-2,4''" by code_simp
  have "is_char [c]" if "byte c < 128" for c using that by (simp add: is_char_wf wf_seq_def)
  then have "cut_line (?o\<lparr>cu_delim := '':'', cu_chars := None, cu_fields := Some (parse_fields (join '','' (map selector_text [UpTo 2, Single 4])))\<rparr>)
      (join '':'' (map concat ?ps)) = join '':'' (map concat (selected [UpTo 2, Single 4] ?ps))"
    by (intro cut_selects [of _ _ _ "[]", THEN conjunct1]) auto
  moreover have "selected [UpTo 2, Single 4] ?ps = [ [''a''], [''b''], [''d''] ]"
    by (simp add: selected_def nths_Cons)
  ultimately show ?thesis unfolding t by simp
qed

section \<open>Globs\<close>

text \<open>The language of a pattern, over bytes.\<close>

inductive glob_lang :: "string \<Rightarrow> string \<Rightarrow> bool" where
  glob_end: "glob_lang [] []"
| glob_star: "glob_lang p t \<Longrightarrow> glob_lang (CHR ''*'' # p) (s @ t)"
| glob_any: "glob_lang p t \<Longrightarrow> glob_lang (CHR ''?'' # p) (c # t)"
| glob_byte: "c \<noteq> CHR ''*'' \<Longrightarrow> c \<noteq> CHR ''?'' \<Longrightarrow> glob_lang p t \<Longrightarrow> glob_lang (c # p) (c # t)"

inductive_cases glob_nilE: "glob_lang [] t"
inductive_cases glob_consE: "glob_lang (c # p) t"

lemma glob_sound: "glob_match_bytes p t \<Longrightarrow> glob_lang p t"
proof (induction p t rule: glob_match_bytes.induct)
  case (3 p ps)
  then show ?case using glob_star [of ps "[]" "[]"] by simp
next
  case (4 p ps t ts)
  consider (star) "p = CHR ''*''" | (any) "p = CHR ''?''" | (byte) "p \<noteq> CHR ''*''" "p \<noteq> CHR ''?''" by blast
  then show ?case
  proof cases
    case star
    then consider "glob_lang ps (t # ts)" | "glob_lang (p # ps) ts" using 4 by auto
    then show ?thesis
    proof cases
      case 1
      then show ?thesis using glob_star [of ps "t # ts" "[]"] star by simp
    next
      case 2
      then obtain s u where "ts = s @ u" "glob_lang ps u" using star by (auto elim: glob_consE)
      then show ?thesis using glob_star [of ps u "t # s"] star by simp
    qed
  qed (use 4 in \<open>auto intro: glob_lang.intros\<close>)
qed (auto intro: glob_lang.intros)

lemma glob_star_extend: "glob_match_bytes p t \<Longrightarrow> glob_match_bytes (CHR ''*'' # p) (s @ t)"
proof (induction s)
  case Nil
  then show ?case by (cases t) simp_all
qed simp

lemma glob_complete: "glob_lang p t \<Longrightarrow> glob_match_bytes p t"
  by (induction rule: glob_lang.induct) (simp_all add: glob_star_extend)

text \<open>
  C22: the glob matcher of \<open>find -name\<close> decides the language of its pattern: a star stands for any
  bytes, a question mark for one byte, any other byte for itself, over the whole name.
\<close>

theorem glob_match_language: "glob_match p t \<longleftrightarrow> glob_lang p t"
  using glob_sound glob_complete by (auto simp: glob_match_def)

section \<open>tr\<close>

text \<open>
  A character set as it is written, and the characters it stands for: single characters, a backslash
  before those the notation uses, and ranges, which stand for the characters whose code points lie in
  between, in their order.
\<close>

datatype set_item = OneChar string | Range string string

fun item_text :: "set_item \<Rightarrow> string" where
  "item_text (OneChar c) =
     (if c = [BSLASH] \<or> c = ''-'' then BSLASH # c
      else if c = [NL] then [BSLASH, CHR ''n'']
      else if c = [TAB] then [BSLASH, CHR ''t'']
      else c)"
| "item_text (Range a b) = a @ ''-'' @ b"

fun item_ok :: "set_item \<Rightarrow> bool" where
  "item_ok (OneChar c) \<longleftrightarrow> is_char c"
| "item_ok (Range a b) \<longleftrightarrow> is_char a \<and> is_char b \<and> a \<noteq> [BSLASH] \<and> a \<noteq> ''-''"

fun item_chars :: "set_item \<Rightarrow> string list \<Rightarrow> bool" where
  "item_chars (OneChar c) cs \<longleftrightarrow> cs = [c]"
| "item_chars (Range a b) cs \<longleftrightarrow>
     set cs = {c. is_char c \<and> code_point a \<le> code_point c \<and> code_point c \<le> code_point b}
     \<and> sorted_wrt (<) (map code_point cs)"

definition stands_for :: "string \<Rightarrow> string list \<Rightarrow> bool" where
  "stands_for written cs \<longleftrightarrow> (\<exists>items css. written = concat (map item_text items) \<and> list_all item_ok items
     \<and> list_all2 item_chars items css \<and> cs = concat css)"

text \<open>The translation of a character, the second set padded with its last character.\<close>

definition translate :: "string list \<Rightarrow> string list \<Rightarrow> string \<Rightarrow> string" where
  "translate s1 s2 c =
     (if s2 = [] then c
      else case map_of (zip s1 (s2 @ replicate (length s1) (last s2))) c of Some d \<Rightarrow> d | None \<Rightarrow> c)"

text \<open>What squeezing keeps: the places whose character is not in the set or not the one before.\<close>

definition squeezed :: "string list \<Rightarrow> string list \<Rightarrow> string list" where
  "squeezed s cs = nths cs {i. cs ! i \<notin> set s \<or> i = 0 \<or> cs ! i \<noteq> cs ! (i - 1)}"

lemma sorted_points_unique:
  assumes "set xs = set ys" "sorted_wrt (<) (map code_point xs)" "sorted_wrt (<) (map code_point ys)"
  shows "xs = ys"
proof -
  have "map code_point xs = map code_point ys"
    using assms by (intro sorted_distinct_set_unique) (auto simp: strict_sorted_iff)
  moreover have "inj_on code_point (set xs \<union> set ys)"
    using assms(1,2) by (auto simp: strict_sorted_iff distinct_map)
  ultimately show ?thesis by (metis inj_on_map_eq_map)
qed

lemma range_chars: "item_chars (Range a b) cs \<longleftrightarrow> cs = char_range a b"
  using sorted_points_unique [of cs "char_range a b"] char_range_facts by (metis item_chars.simps(2))

lemma charset_plain:
  "c \<noteq> [BSLASH] \<Longrightarrow> cs = [] \<or> hd cs \<noteq> ''-'' \<Longrightarrow> charset_loop (c # cs) = c # charset_loop cs"
  by (cases cs; cases "tl cs") auto

text \<open>The characters of a set's text.\<close>

fun item_shape :: "set_item \<Rightarrow> string list" where
  "item_shape (OneChar c) =
     (if c = [BSLASH] \<or> c = ''-'' then [ [BSLASH], c ]
      else if c = [NL] then [ [BSLASH], ''n'' ]
      else if c = [TAB] then [ [BSLASH], ''t'' ]
      else [c])"
| "item_shape (Range a b) = [a, ''-'', b]"

lemma ascii_is_char: "byte c < 128 \<Longrightarrow> is_char [c]"
  by (simp add: is_char_wf wf_seq_def)

lemma item_shape_text: "item_ok it \<Longrightarrow> concat (item_shape it) = item_text it \<and> list_all is_char (item_shape it)"
  by (cases it) (auto simp: ascii_is_char char_consts)

lemma item_shape_hd: "item_ok it \<Longrightarrow> item_shape it \<noteq> [] \<and> hd (item_shape it) \<noteq> ''-''"
  by (cases it) (auto simp: char_consts)

lemma charset_item:
  assumes "item_ok it" "item_chars it cs" "rest = [] \<or> hd rest \<noteq> ''-''"
  shows "charset_loop (item_shape it @ rest) = cs @ charset_loop rest"
proof (cases it)
  case (OneChar c)
  have esc: "charset_loop ([BSLASH] # d # rest) = charset_escape d # charset_loop rest" for d
    by (cases rest) auto
  show ?thesis using assms charset_plain [of c rest] OneChar
    by (auto simp: esc [unfolded char_consts] charset_escape_def char_consts)
next
  case (Range a b)
  then show ?thesis using assms by (auto simp: range_chars simp del: item_chars.simps)
qed

lemma expand_stands_for: "stands_for written cs \<Longrightarrow> expand_charset written = cs"
proof -
  assume "stands_for written cs"
  then obtain items css where w: "written = concat (map item_text items)" and ok: "list_all item_ok items"
    and m: "list_all2 item_chars items css" and c: "cs = concat css"
    by (auto simp: stands_for_def)
  have "list_all is_char (concat (map item_shape items)) \<and> concat (concat (map item_shape items)) = written"
    using ok unfolding w by (induction items) (simp_all add: item_shape_text)
  then have "utf8_chars written = concat (map item_shape items)" by (metis chars_concat)
  moreover have "charset_loop (concat (map item_shape items)) = concat css"
    using m ok
  proof (induction rule: list_all2_induct)
    case (Cons it items c cs)
    have "concat (map item_shape items) = [] \<or> hd (concat (map item_shape items)) \<noteq> ''-''"
      using Cons.prems item_shape_hd by (cases items) auto
    then show ?case using Cons charset_item by simp
  qed simp
  ultimately show ?thesis by (simp add: expand_charset_def c)
qed

lemma index_of_map_of:
  assumes "length s1 \<le> length ds"
  shows "map_of (zip s1 ds) c = map_option ((!) ds) (index_of c s1)"
  using assms
proof (induction s1 arbitrary: ds)
  case (Cons x s1)
  then obtain d ds' where "ds = d # ds'" by (cases ds) auto
  then show ?case using Cons by (cases "index_of c s1") auto
qed simp

lemma index_of_less: "index_of x ys = Some i \<Longrightarrow> i < length ys"
  by (induction ys arbitrary: i) (auto split: if_splits)

lemma tr_char_translate: "tr_char s1 s2 c = translate s1 s2 c"
proof -
  have m: "map_of (zip s1 (s2 @ replicate (length s1) (last s2))) c
      = map_option ((!) (s2 @ replicate (length s1) (last s2))) (index_of c s1)"
    by (rule index_of_map_of) simp
  show ?thesis
  proof (cases "index_of c s1")
    case (Some i)
    then have "i < length s1" by (rule index_of_less)
    then show ?thesis using Some by (simp add: tr_char_def translate_def m nth_append)
  qed (simp add: tr_char_def translate_def m)
qed

lemma squeeze_nths:
  "tr_squeeze_loop s prev cs =
     nths cs {i. cs ! i \<notin> set s \<or> (if i = 0 then prev \<noteq> Some (cs ! 0) else cs ! i \<noteq> cs ! (i - 1))}"
proof (induction cs arbitrary: prev)
  case (Cons c cs)
  have "{i. (c # cs) ! Suc i \<notin> set s \<or> (c # cs) ! Suc i \<noteq> (c # cs) ! (Suc i - 1)}
      = {i. cs ! i \<notin> set s \<or> (if i = 0 then Some c \<noteq> Some (cs ! 0) else cs ! i \<noteq> cs ! (i - 1))}"
    (is "{i. ?P i} = {i. ?Q i}")
  proof -
    have "?P i \<longleftrightarrow> ?Q i" for i by (cases i) auto
    then show ?thesis by simp
  qed
  then show ?case using Cons by (auto simp: nths_Cons)
qed simp

lemma squeeze_squeezed: "tr_squeeze_loop s None cs = squeezed s cs"
proof -
  have "{i. cs ! i \<notin> set s \<or> (if i = 0 then None \<noteq> Some (cs ! 0) else cs ! i \<noteq> cs ! (i - 1))}
      = {i. cs ! i \<notin> set s \<or> i = 0 \<or> cs ! i \<noteq> cs ! (i - 1)}" by auto
  then show ?thesis by (simp only: squeeze_nths squeezed_def)
qed

text \<open>
  C27: \<open>tr\<close>. Let two texts be written sets of characters (single ones, escapes, ranges) and stand for
  \<open>s1\<close> and \<open>s2\<close>. On any text, \<open>tr\<close> with both sets replaces each character that is in \<open>s1\<close> by the one
  at its first place in \<open>s2\<close>, the last of \<open>s2\<close> serving for the places it lacks, and leaves the others
  and their order; with \<open>-d\<close> it keeps exactly the characters that are not in \<open>s1\<close>; with \<open>-s\<close> it then
  drops a character of \<open>s1\<close> that follows its equal, and nothing else. With one set and no \<open>-d\<close> there is
  no translation.
\<close>

theorem tr_correct:
  assumes "stands_for w1 s1" "stands_for w2 s2" "list_all is_char cs"
  shows "tr_text \<lparr>tr_delete = del, tr_squeeze = sq, tr_sets = [w1, w2]\<rparr> (concat cs) =
       concat (let out = (if del then [c \<leftarrow> cs. c \<notin> set s1] else map (translate s1 s2) cs) in
               if sq then squeezed s1 out else out)
     \<and> tr_text \<lparr>tr_delete = del, tr_squeeze = sq, tr_sets = [w1]\<rparr> (concat cs) =
       concat (let out = (if del then [c \<leftarrow> cs. c \<notin> set s1] else cs) in
               if sq then squeezed s1 out else out)"
  using expand_stands_for [OF assms(1)] expand_stands_for [OF assms(2)] chars_concat [OF assms(3)]
  by (simp add: tr_text_def tr_map_def first_set_def squeeze_squeezed tr_char_translate Let_def cong: map_cong)

theorem tr_correct_witness:
  "tr_text \<lparr>tr_delete = False, tr_squeeze = True, tr_sets = [''abc'', ''xa'']\<rparr> ''caad-bb'' = ''axxd-a''"
proof -
  have a: "is_char [c]" if "byte c < 128" for c using that by (rule ascii_is_char)
  have s: "stands_for ''abc'' [''a'', ''b'', ''c'']" "stands_for ''xa'' [''x'', ''a'']"
    unfolding stands_for_def
    by (rule exI [of _ "[OneChar ''a'', OneChar ''b'', OneChar ''c'']"], rule exI [of _ "[ [''a''], [''b''], [''c''] ]"],
        simp add: a char_consts)
       (rule exI [of _ "[OneChar ''x'', OneChar ''a'']"], rule exI [of _ "[ [''x''], [''a''] ]"], simp add: a char_consts)
  have c: "list_all is_char [''c'', ''a'', ''a'', ''d'', ''-'', ''b'', ''b'']" by (simp add: a)
  have t: "map (translate [''a'', ''b'', ''c''] [''x'', ''a'']) [''c'', ''a'', ''a'', ''d'', ''-'', ''b'', ''b'']
      = [''a'', ''x'', ''x'', ''d'', ''-'', ''a'', ''a'']"
    by code_simp
  have q: "squeezed [''a'', ''b'', ''c''] [''a'', ''x'', ''x'', ''d'', ''-'', ''a'', ''a'']
      = [''a'', ''x'', ''x'', ''d'', ''-'', ''a'']"
    unfolding squeeze_squeezed [symmetric] by code_simp
  show ?thesis
    using tr_correct [OF s c, of False True, THEN conjunct1] unfolding Let_def if_True if_False t q by simp
qed

section \<open>test\<close>

text \<open>
  The expressions of \<open>test\<close> as a grammar: \<open>-o\<close> binds least, then \<open>-a\<close>, then the negation; a
  primary is a list of words that holds no connective.
\<close>

datatype tprim = TPrim "string list"
datatype tneg = TNot tneg | TPri tprim
datatype tand = TAnd tneg tand | TNeg tneg
datatype tor = TOr tand tor | TConj tand

fun neg_words :: "tneg \<Rightarrow> string list" where
  "neg_words (TNot e) = ''!'' # neg_words e"
| "neg_words (TPri (TPrim ws)) = ws"

fun and_words :: "tand \<Rightarrow> string list" where
  "and_words (TAnd e f) = neg_words e @ ''-a'' # and_words f"
| "and_words (TNeg e) = neg_words e"

fun or_words :: "tor \<Rightarrow> string list" where
  "or_words (TOr e f) = and_words e @ ''-o'' # or_words f"
| "or_words (TConj e) = and_words e"

fun neg_prims :: "tneg \<Rightarrow> string list" where
  "neg_prims (TNot e) = neg_prims e"
| "neg_prims (TPri (TPrim ws)) = ws"

definition prim_ok :: "string list \<Rightarrow> bool" where
  "prim_ok ws \<longleftrightarrow> ws \<noteq> [] \<and> hd ws \<noteq> ''!'' \<and> ''-a'' \<notin> set ws \<and> ''-o'' \<notin> set ws"

fun and_ok :: "tand \<Rightarrow> bool" where
  "and_ok (TAnd e f) = (prim_ok (neg_prims e) \<and> and_ok f)"
| "and_ok (TNeg e) = prim_ok (neg_prims e)"

fun or_ok :: "tor \<Rightarrow> bool" where
  "or_ok (TOr e f) = (and_ok e \<and> or_ok f)"
| "or_ok (TConj e) = and_ok e"

text \<open>The meaning, with both operands of a connective evaluated, as the code does.\<close>

fun neg_sem :: "tneg \<Rightarrow> ('h, bool) cact" where
  "neg_sem (TNot e) = andThen (neg_sem e) (\<lambda>b. ret (\<not> b))"
| "neg_sem (TPri (TPrim ws)) = eval_test ws"

fun and_sem :: "tand \<Rightarrow> ('h, bool) cact" where
  "and_sem (TAnd e f) = andThen (neg_sem e) (\<lambda>l. andThen (and_sem f) (\<lambda>r. ret (l \<and> r)))"
| "and_sem (TNeg e) = neg_sem e"

fun or_sem :: "tor \<Rightarrow> ('h, bool) cact" where
  "or_sem (TOr e f) = andThen (and_sem e) (\<lambda>l. andThen (or_sem f) (\<lambda>r. ret (l \<or> r)))"
| "or_sem (TConj e) = and_sem e"

lemma position_split: "x \<notin> set xs \<Longrightarrow> position x (xs @ x # ys) = Some (length xs)"
  by (induction xs) auto

lemma position_None: "x \<notin> set xs \<Longrightarrow> position x xs = None"
  by (induction xs) auto

lemma neg_words_ne: "prim_ok (neg_prims e) \<Longrightarrow> neg_words e \<noteq> []"
  by (induction e rule: neg_words.induct) (auto simp: prim_ok_def)

lemma neg_words_plain:
  "prim_ok (neg_prims e) \<Longrightarrow> ''-a'' \<notin> set (neg_words e) \<and> ''-o'' \<notin> set (neg_words e)"
  by (induction e rule: neg_words.induct) (auto simp: prim_ok_def)

lemma and_words_plain: "and_ok e \<Longrightarrow> ''-o'' \<notin> set (and_words e)"
  by (induction e rule: and_words.induct) (auto simp: neg_words_plain)

lemma eval_neg: "prim_ok (neg_prims e) \<Longrightarrow> eval_test (neg_words e) = neg_sem e"
proof (induction e rule: neg_words.induct)
  case (1 e)
  then have p: "prim_ok (neg_prims e)" by simp
  then show ?case
    using 1 neg_words_ne [OF p] neg_words_plain [OF p]
    by (subst eval_test.simps) (simp add: position_None)
qed simp

lemma eval_and: "and_ok e \<Longrightarrow> eval_test (and_words e) = and_sem e"
proof (induction e rule: and_words.induct)
  case (1 e f)
  then show ?case
    using neg_words_plain [of e] and_words_plain [of f]
    by (subst eval_test.simps) (simp add: position_None position_split eval_neg)
qed (simp add: eval_neg)

text \<open>
  C21: \<open>test\<close> reads its words by the grammar. For every expression built with \<open>!\<close>, \<open>-a\<close> and \<open>-o\<close> over
  primaries without connectives, evaluating its words is evaluating the expression: \<open>-o\<close> binds less
  than \<open>-a\<close>, which binds less than \<open>!\<close>, and both sides of a connective are evaluated in order.
\<close>

theorem eval_test_grammar:
  assumes "or_ok e"
  shows "eval_test (or_words e) = or_sem e"
  using assms
proof (induction e rule: or_words.induct)
  case (1 e f)
  then show ?case
    using and_words_plain [of e]
    by (subst eval_test.simps) (simp add: position_split eval_and)
qed (simp add: eval_and)

theorem eval_test_grammar_witness:
  "eval_test [''!'', ''x'', ''='', ''y'', ''-a'', ''n'', ''-o'', ''-d'', ''/tmp'']
   = or_sem (TOr (TAnd (TNot (TPri (TPrim [''x'', ''='', ''y'']))) (TNeg (TPri (TPrim [''n'']))))
       (TConj (TNeg (TPri (TPrim [''-d'', ''/tmp''])))))"
  using eval_test_grammar [of "TOr (TAnd (TNot (TPri (TPrim [''x'', ''='', ''y'']))) (TNeg (TPri (TPrim [''n'']))))
       (TConj (TNeg (TPri (TPrim [''-d'', ''/tmp'']))))"]
  by (simp add: prim_ok_def)

end
