(* ===== verification/StreamFacts.thy ===== *)
theory StreamFacts
  imports BuiltinCore
begin

text \<open>
  What writing to a stream does to a program's context.
\<close>

lemma vw_write_Nil [simp]: "vw_write w [] bufs = bufs"
  by (cases "w < length bufs") (simp_all add: vw_write_def vw_bytes_def not_less list_update_beyond)

lemma vw_write_append: "vw_write w b (vw_write w a bufs) = vw_write w (a @ b) bufs"
  by (cases "w < length bufs") (simp_all add: vw_write_def vw_bytes_def not_less list_update_beyond)

lemma vw_write_length [simp]: "length (vw_write w s bufs) = length bufs"
  by (simp add: vw_write_def)

lemma vw_bytes_snoc: "w < length bufs \<Longrightarrow> vw_bytes w (bufs @ [d]) = vw_bytes w bufs"
  by (simp add: vw_bytes_def nth_append)

lemma vw_bytes_write: "w < length bufs \<Longrightarrow> vw_bytes v (vw_write w s bufs) = (if v = w then vw_bytes w bufs @ s else vw_bytes v bufs)"
  by (auto simp: vw_write_def vw_bytes_def)

lemma out_lines_writes:
  "out_lines ls c = (Ok (), c\<lparr>cx_bufs := vw_write (io_stdout (cx_io c)) (unlines ls) (cx_bufs c)\<rparr>)"
proof (induction ls arbitrary: c)
  case (Cons l ls)
  show ?case
    unfolding out_lines_def for_each.simps
    by (simp add: andThen_def out_line_def ctx_out_def Cons [unfolded out_lines_def] vw_write_append unlines_def)
qed (simp add: out_lines_def unlines_def)

text \<open>A context that has written to its standard output.\<close>

definition wrote :: "'h ProgramContext \<Rightarrow> string \<Rightarrow> 'h ProgramContext" where
  "wrote c s = c\<lparr>cx_bufs := vw_write (io_stdout (cx_io c)) s (cx_bufs c)\<rparr>"

lemma wrote_simps [simp]:
  "wrote c [] = c" "wrote (wrote c s) t = wrote c (s @ t)"
  "cx_fs (wrote c s) = cx_fs c" "cx_cwd (wrote c s) = cx_cwd c" "cx_io (wrote c s) = cx_io c"
  by (simp_all add: wrote_def vw_write_append)

lemma ctx_out_wrote: "ctx_out s c = (Ok (), wrote c s)"
  by (simp add: ctx_out_def wrote_def)

lemma out_line_wrote: "out_line s c = (Ok (), wrote c (s @ [NL]))"
  by (simp add: out_line_def ctx_out_wrote)

lemma for_each_wrote:
  "\<forall>x \<in> set xs. \<forall>s. f x (wrote c s) = (Ok (), wrote c (s @ g x))
   \<Longrightarrow> for_each f xs (wrote c s) = (Ok (), wrote c (s @ concat (map g xs)))"
  by (induction xs arbitrary: s) (simp_all add: andThen_def)

lemma fold_act_reads:
  "\<forall>x \<in> set xs. \<forall>ys. f ys x c = (Ok (ys @ g x), c)
   \<Longrightarrow> fold_act f ys xs c = (Ok (ys @ concat (map g xs)), c)"
  by (induction xs arbitrary: ys) (simp_all add: andThen_def)

end
