(* ===== verification/ShellFacts.thy ===== *)
theory ShellFacts
  imports ShellSafety TextFacts StreamFacts
begin

text \<open>
  What commands do: the variables assigned before a command are scoped to it, pipelines compose the
  programs they connect, and output redirections put what a program writes into the file.
\<close>

section \<open>Scoped assignments\<close>

text \<open>Words whose expansion changes nothing: no command substitution and no assigning default.\<close>

fun pure_var :: "var_expr \<Rightarrow> bool" where
  "pure_var (SimpleVar name) = True"
| "pure_var (Length name) = True"
| "pure_var (Special s) = True"
| "pure_var v = False"

fun pure_dq :: "dq_part \<Rightarrow> bool" where
  "pure_dq (DQLiteral s) = True"
| "pure_dq (DQVariable v) = pure_var v"
| "pure_dq (DQArithSubst e) = True"
| "pure_dq (DQCommandSubst s) = False"

fun pure_word :: "word \<Rightarrow> bool" where
  "pure_word (Literal s) = True"
| "pure_word (SingleQuoted s) = True"
| "pure_word (DoubleQuoted ps) = list_all pure_dq ps"
| "pure_word (Variable v) = pure_var v"
| "pure_word (ArithSubst e) = True"
| "pure_word w = False"

definition pure_act :: "('s, 'a, 'e) act \<Rightarrow> bool" where
  "pure_act m \<longleftrightarrow> (\<forall>s. snd (m s) = s)"

lemma pure_andThen: "pure_act m \<Longrightarrow> (\<And>a. pure_act (f a)) \<Longrightarrow> pure_act (andThen m f)"
  by (auto simp: pure_act_def andThen_def split: prod.split outcome.split) (metis snd_conv)+

lemma pure_basic: "pure_act (ret a)" "pure_act (gets f)" "pure_act (arith_value oc e)"
  by (simp_all add: pure_act_def arith_value_def map_err_def andThen_def split: outcome.split)

lemma pure_var_act: "pure_var v \<Longrightarrow> pure_act (expand_var oc src v)"
  by (cases v) (simp_all add: pure_basic)

lemma pure_dq_act: "pure_dq p \<Longrightarrow> pure_act (expand_dq_part oc src p)"
  by (cases p) (simp_all add: pure_basic pure_var_act)

lemma pure_word_act: "pure_word w \<Longrightarrow> pure_act (expand_word oc src w)"
proof (cases w)
  case (DoubleQuoted ps)
  have "list_all pure_dq ps \<Longrightarrow> pure_act (expand_dq_parts oc src ps)"
    by (induction ps) (auto intro!: pure_andThen pure_dq_act simp: pure_basic)
  then show "pure_word w \<Longrightarrow> ?thesis" by (simp add: DoubleQuoted)
qed (simp_all add: pure_basic pure_var_act)

lemma assign_saves:
  assumes "\<forall>(n, w) \<in> set as. pure_word w" "distinct (map fst as)"
    and "assign_loop oc src True as saved sh = (Ok saved', sh')"
  shows "saved' = saved @ map (\<lambda>(n, w). (n, get_env n sh)) as"
  using assms
proof (induction as arbitrary: saved sh)
  case (Cons a as)
  obtain n w where a: "a = (n, w)" by fastforce
  obtain x sh1 where x: "expand_word oc src w sh = (Ok x, sh1)"
    and rest: "assign_loop oc src True as (saved @ [(n, get_env n sh1)]) (set_env n x sh1) = (Ok saved', sh')"
    using Cons.prems(3) by (auto simp: a elim!: andThen_OkE)
  have sh1: "sh1 = sh"
    using pure_word_act [of w oc src] x Cons.prems(1) by (auto simp: a pure_act_def) (metis snd_conv)
  have "get_env m (set_env n x sh) = get_env m sh" if "m \<in> fst ` set as" for m
    using that Cons.prems(2) by (auto simp: a get_env_def set_env_def env_get_def env_set_def)
  then have "map (\<lambda>(m, w). (m, get_env m (set_env n x sh))) as = map (\<lambda>(m, w). (m, get_env m sh)) as"
    by (force intro: map_cong)
  then show ?case
    using Cons.IH [of "saved @ [(n, get_env n sh)]" "set_env n x sh"] Cons.prems rest
    by (simp add: a sh1)
qed simp

lemma restore_gets:
  assumes "distinct (map fst saved)"
  shows "\<exists>sh'. restore_vars saved sh = (Ok (), sh')
     \<and> (\<forall>k. get_env k sh' = (case map_of saved k of Some old \<Rightarrow> old | None \<Rightarrow> get_env k sh))"
  using assms
proof (induction saved arbitrary: sh)
  case (Cons p saved)
  obtain n old where p: "p = (n, old)" by fastforce
  let ?sh = "sh_env_update (case old of Some v \<Rightarrow> env_set n v | None \<Rightarrow> env_unset n) sh"
  have g: "get_env k ?sh = (if k = n then old else get_env k sh)" for k
    by (cases old) (auto simp: get_env_def env_get_def env_set_def env_unset_def)
  have fresh: "map_of saved n = None" using Cons.prems by (simp add: p map_of_eq_None_iff)
  obtain sh' where run: "restore_vars saved ?sh = (Ok (), sh')"
    and gets: "\<And>k. get_env k sh' = (case map_of saved k of Some old \<Rightarrow> old | None \<Rightarrow> get_env k ?sh)"
    using Cons.IH [of ?sh] Cons.prems by (auto simp: p)
  have "restore_vars (p # saved) sh = (Ok (), sh')" using run by (simp add: p andThen_def)
  moreover have "get_env k sh' = (case map_of (p # saved) k of Some old \<Rightarrow> old | None \<Rightarrow> get_env k sh)" for k
    using gets [of k] g [of k] fresh by (cases "k = n") (simp_all add: p split: option.split)
  ultimately show ?case by blast
qed simp

text \<open>
  C16: assignments before a command are scoped to it. When a command with such assignments returns a
  code, each variable assigned has the value it had before the command, or is unset again, whatever
  the command and its redirections did to it; for distinct variables, with values that need no
  command substitution and no assigning default.
\<close>

theorem assignments_scoped:
  assumes "distinct (map fst as)" "\<forall>(n, w) \<in> set as. pure_word w"
    and "execute_simple oc src (SimpleCommand as (Some name) args redirs) io sh = (Ok code, sh')"
    and "k \<in> fst ` set as"
  shows "get_env k sh' = get_env k sh"
proof -
  obtain saved sh1 sh2 where a: "assign_loop oc src True as [] sh = (Ok saved, sh1)"
    and r: "restore_vars saved sh2 = (Ok (), sh')"
    using assms(3) by (auto simp: settle_def elim!: andThen_OkE split: sum.splits)
  have saved: "saved = map (\<lambda>(n, w). (n, get_env n sh)) as"
    using assign_saves [OF assms(2,1) a] by simp
  have keys: "map fst saved = map fst as" by (auto simp: saved)
  have "get_env k sh' = (case map_of saved k of Some old \<Rightarrow> old | None \<Rightarrow> get_env k sh2)"
    using restore_gets [of saved sh2] r assms(1) keys by auto
  moreover have "map_of saved k = Some (get_env k sh)"
  proof (rule map_of_is_SomeI)
    show "distinct (map fst saved)" using assms(1) keys by simp
    show "(k, get_env k sh) \<in> set saved" using assms(4) by (force simp: saved)
  qed
  ultimately show ?thesis by simp
qed

theorem assignments_scoped_witness:
  "get_env ''A'' (snd (execute_simple False (run_level False 1)
      (SimpleCommand [(''A'', Literal ''1'')] (Some (Literal ''export'')) [Literal ''A=2''] [])
      \<lparr>io_stdin = reader_new [], io_stdout = 0, io_stderr = 1\<rparr>
      (install [(''export'', builtin_export)] (bare_shell ())))) = None"
proof -
  let ?sh = "install [(''export'', builtin_export)] (bare_shell ())"
  let ?m = "execute_simple False (run_level False 1)
      (SimpleCommand [(''A'', Literal ''1'')] (Some (Literal ''export'')) [Literal ''A=2''] [])
      \<lparr>io_stdin = reader_new [], io_stdout = 0, io_stderr = 1\<rparr>"
  have "fst (?m ?sh) = Ok 0" by code_simp
  then have m: "?m ?sh = (Ok 0, snd (?m ?sh))" by (metis prod.collapse)
  have "get_env ''A'' (snd (?m ?sh)) = get_env ''A'' ?sh"
    by (rule assignments_scoped [OF _ _ m]) simp_all
  moreover have "get_env ''A'' ?sh = None" by code_simp
  ultimately show ?thesis by simp
qed

section \<open>Programs as functions of their input\<close>

text \<open>
  A program that reads its input, writes a function of it and returns 0, and a command that resolves
  to one.
\<close>

definition filters :: "'h program \<Rightarrow> string list \<Rightarrow> (string \<Rightarrow> string) \<Rightarrow> bool" where
  "filters cb args f \<longleftrightarrow> (\<forall>c. \<exists>io'. cb args c =
     (Ok 0, c\<lparr>cx_io := io', cx_bufs := vw_write (io_stdout (cx_io c)) (f (reader_rest (io_stdin (cx_io c)))) (cx_bufs c)\<rparr>))"

definition runs_filter :: "'h Shell \<Rightarrow> string \<times> string list \<Rightarrow> (string \<Rightarrow> string) \<Rightarrow> bool" where
  "runs_filter sh = (\<lambda>(name, args) f. sm_get (sh_aliases sh) name = None \<and> name \<notin> set shell_intrinsics
     \<and> (\<exists>cb. resolve_program (sh_registry sh) name (path_var sh) = Some cb \<and> filters cb (name # args) f))"

lemma read_stdin_all:
  "ctx_read_stdin c = (Ok (reader_rest (io_stdin (cx_io c))),
     c\<lparr>cx_io := (cx_io c)\<lparr>io_stdin := snd (read_to_end (io_stdin (cx_io c)))\<rparr>\<rparr>)"
  by (simp add: ctx_read_stdin_def read_to_end_all split_def)

lemmas filter_steps = filters_def with_options_def andThen_def read_stdin_all out_lines_writes ctx_out_def

lemma filters_sort:
  "scan_args sort_scan \<lparr>so_reverse = False, so_numeric = False, so_unique = False, so_paths = []\<rparr> flags = Inr opts
   \<Longrightarrow> so_paths opts = [] \<Longrightarrow> filters builtin_sort (''sort'' # flags) (\<lambda>d. unlines (sort_lines opts (text_lines d)))"
  by (auto simp: filter_steps builtin_sort_def collect_lines_def)

lemma filters_uniq:
  "scan_args uniq_scan \<lparr>un_count = False, un_dups = False, un_paths = []\<rparr> flags = Inr opts
   \<Longrightarrow> un_paths opts = [] \<Longrightarrow> filters builtin_uniq (''uniq'' # flags) (\<lambda>d. unlines (uniq_lines opts (text_lines d)))"
  by (auto simp: filter_steps builtin_uniq_def collect_lines_def)

lemma filters_tr:
  "scan_args tr_scan \<lparr>tr_delete = False, tr_squeeze = False, tr_sets = []\<rparr> flags = Inr opts
   \<Longrightarrow> filters builtin_tr (''tr'' # flags) (\<lambda>d. tr_text opts (from_utf8_lossy d))"
  by (auto simp: filter_steps builtin_tr_def)

lemma filters_echo: "filters builtin_echo (''echo'' # args) (\<lambda>_. echo_text args)"
  by (auto simp: filter_steps builtin_echo_def args_tail_def)
     (metis ProgramContext.surjective ProgramContext.update_convs(6))

lemma dispatch_program:
  "name \<notin> set shell_intrinsics \<Longrightarrow> resolve_program (sh_registry sh) name (path_var sh) = Some cb
   \<Longrightarrow> dispatch src name args io sh = run_program cb args io sh"
  by (subst dispatch.simps) (simp add: shell_intrinsics_def)

lemma run_filter:
  assumes "filters cb args f"
  shows "run_program cb args io sh =
    (Ok 0, sh\<lparr>sh_bufs := vw_write (io_stdout io) (f (reader_rest (io_stdin io))) (sh_bufs sh)\<rparr>)"
proof -
  let ?c = "\<lparr>cx_env = sh_env sh, cx_cwd = sh_cwd sh, cx_aliases = sh_aliases sh, cx_fs = sh_fs sh,
    cx_bufs = sh_bufs sh, cx_io = io\<rparr>"
  obtain io' where "cb args ?c = (Ok 0, ?c\<lparr>cx_io := io',
      cx_bufs := vw_write (io_stdout io) (f (reader_rest (io_stdin io))) (sh_bufs sh)\<rparr>)"
    using spec [OF assms [unfolded filters_def], of ?c] by auto
  then show ?thesis by (cases sh) (simp add: run_program_def Let_def)
qed

lemma expand_quoted [simp]: "expand_words oc src (map SingleQuoted args) = ret args"
  by (induction args) (simp_all add: fun_eq_iff andThen_def)

lemma dispatch_filter:
  "runs_filter sh (name, args) f \<Longrightarrow> dispatch src name (name # args) io sh =
     (Ok 0, sh\<lparr>sh_bufs := vw_write (io_stdout io) (f (reader_rest (io_stdin io))) (sh_bufs sh)\<rparr>)"
  by (auto simp: runs_filter_def dispatch_program run_filter)

lemma alias_none: "runs_filter sh (name, args) f \<Longrightarrow> alias_parts name sh = (name, [])"
  by (auto simp: runs_filter_def alias_parts_def)

section \<open>Pipelines\<close>

definition plain_stage :: "string \<times> string list \<Rightarrow> simple_command" where
  "plain_stage st = SimpleCommand [] (Some (SingleQuoted (fst st))) (map SingleQuoted (snd st)) []"

lemma plain_stage_runs:
  assumes "runs_filter sh st f"
  shows "execute_simple oc src (plain_stage st) io sh =
    (Ok 0, sh\<lparr>sh_bufs := vw_write (io_stdout io) (f (reader_rest (io_stdin io))) (sh_bufs sh)\<rparr>)"
proof (cases st)
  case (Pair name args)
  then show ?thesis
    using dispatch_filter [of sh name args f] alias_none [of sh name args f] assms
    by (simp add: plain_stage_def andThen_def attempt_def settle_def)
qed

lemma runs_filter_frame [simp]:
  "runs_filter (sh\<lparr>sh_bufs := b\<rparr>) = runs_filter sh" "runs_filter (sh\<lparr>sh_last_exit := c\<rparr>) = runs_filter sh"
  by (simp_all add: runs_filter_def fun_eq_iff path_var_def)

text \<open>
  C14: a pipeline composes its programs. When each stage is a command that resolves to a program that
  writes a function of its input, the pipeline returns 0 and appends to its standard output the
  composition of the functions, applied to its standard input; no other stream that was there, and
  nothing else of the shell but the last exit code, changes.
\<close>

theorem pipeline_composes:
  assumes "list_all2 (runs_filter sh) sts fs" "sts \<noteq> []" "io_stdout io < length (sh_bufs sh)"
  shows "\<exists>bufs. execute_command oc src (Pipeline (map plain_stage sts) False) io sh =
       (Ok 0, sh\<lparr>sh_bufs := bufs, sh_last_exit := 0\<rparr>)
     \<and> vw_bytes (io_stdout io) bufs = vw_bytes (io_stdout io) (sh_bufs sh) @ fold (\<lambda>f. f) fs (reader_rest (io_stdin io))
     \<and> (\<forall>w < length (sh_bufs sh). w \<noteq> io_stdout io \<longrightarrow> vw_bytes w bufs = vw_bytes w (sh_bufs sh))"
proof -
  have "\<exists>bufs. execute_stages oc src (map plain_stage sts) io code sh = (Ok 0, sh\<lparr>sh_bufs := bufs, sh_last_exit := 0\<rparr>)
     \<and> vw_bytes (io_stdout io) bufs = vw_bytes (io_stdout io) (sh_bufs sh) @ fold (\<lambda>f. f) fs (reader_rest (io_stdin io))
     \<and> (\<forall>w < length (sh_bufs sh). w \<noteq> io_stdout io \<longrightarrow> vw_bytes w bufs = vw_bytes w (sh_bufs sh))" for code
    using assms
  proof (induction sts arbitrary: fs sh io code rule: induct_list012)
    case (2 st)
    then obtain f where "fs = [f]" "runs_filter sh st f" by (auto simp: list_all2_Cons1)
    then show ?case
      using 2(3) plain_stage_runs [of sh st f oc src io]
      by (auto simp: act_simps andThen_def set_last_exit_def vw_bytes_write
          intro!: exI [of _ "vw_write (io_stdout io) (f (reader_rest (io_stdin io))) (sh_bufs sh)"])
  next
    case (3 st st2 sts)
    from 3(3) obtain f fs' where fs: "fs = f # fs'" "runs_filter sh st f"
      and rest: "list_all2 (runs_filter sh) (st2 # sts) fs'"
      by (auto simp: list_all2_Cons1)
    let ?n = "length (sh_bufs sh)" and ?d = "f (reader_rest (io_stdin io))"
    let ?sh = "sh\<lparr>sh_bufs := sh_bufs sh @ [?d], sh_last_exit := 0\<rparr>"
    let ?io = "io\<lparr>io_stdin := reader_new ?d\<rparr>"
    have step: "execute_stages oc src (map plain_stage (st # st2 # sts)) io code sh
        = execute_stages oc src (map plain_stage (st2 # sts)) ?io 0 ?sh"
      using fs(2) plain_stage_runs [of "sh\<lparr>sh_bufs := sh_bufs sh @ [ [] ]\<rparr>" st f oc src "io\<lparr>io_stdout := ?n\<rparr>"]
      by (simp add: act_simps andThen_def sh_new_writer_def vw_new_def set_last_exit_def sh_bytes_def
          vw_write_def vw_bytes_def)
    have "list_all2 (runs_filter ?sh) (st2 # sts) fs'" using rest by simp
    from "3.IH"(2) [OF this, of ?io 0] 3(5) obtain bufs where
      run: "execute_stages oc src (map plain_stage (st2 # sts)) ?io 0 ?sh = (Ok 0, ?sh\<lparr>sh_bufs := bufs, sh_last_exit := 0\<rparr>)"
      and bytes: "vw_bytes (io_stdout io) bufs = vw_bytes (io_stdout io) (sh_bufs ?sh) @ fold (\<lambda>f. f) fs' (reader_rest (reader_new ?d))"
      and others: "\<forall>w < length (sh_bufs ?sh). w \<noteq> io_stdout io \<longrightarrow> vw_bytes w bufs = vw_bytes w (sh_bufs ?sh)"
      by auto
    have "execute_stages oc src (map plain_stage (st # st2 # sts)) io code sh = (Ok 0, sh\<lparr>sh_bufs := bufs, sh_last_exit := 0\<rparr>)"
      unfolding step run by simp
    moreover have "vw_bytes (io_stdout io) bufs = vw_bytes (io_stdout io) (sh_bufs sh) @ fold (\<lambda>f. f) fs (reader_rest (io_stdin io))"
      using bytes 3(5) by (simp add: fs(1) reader_new_def reader_rest_def [of "\<lparr>br_data = _, br_pos = _\<rparr>"] vw_bytes_snoc)
    moreover have "\<forall>w < ?n. w \<noteq> io_stdout io \<longrightarrow> vw_bytes w bufs = vw_bytes w (sh_bufs sh)"
      using others by (simp add: vw_bytes_snoc)
    ultimately show ?case by blast
  qed simp
  from this [of 0] show ?thesis by (auto simp: andThen_def)
qed

text \<open>A shell with three programs and its two streams.\<close>

abbreviation text_shell :: "unit Shell" where
  "text_shell \<equiv> (install [(''echo'', builtin_echo), (''tr'', builtin_tr), (''sort'', builtin_sort)] (bare_shell ()))
     \<lparr>sh_bufs := [ [], [] ]\<rparr>"

lemma text_shell_paths:
  "find_path (sh_registry text_shell) ''echo'' (path_var text_shell) = Some ''/usr/bin/echo''"
  "find_path (sh_registry text_shell) ''tr'' (path_var text_shell) = Some ''/usr/bin/tr''"
  "find_path (sh_registry text_shell) ''sort'' (path_var text_shell) = Some ''/usr/bin/sort''"
  by code_simp+

lemma text_shell_registry:
  "sm_get (sh_registry text_shell) ''/usr/bin/echo'' = Some builtin_echo"
  "sm_get (sh_registry text_shell) ''/usr/bin/tr'' = Some builtin_tr"
  "sm_get (sh_registry text_shell) ''/usr/bin/sort'' = Some builtin_sort"
  "sh_aliases text_shell = []"
  by (simp_all add: install_def add_program_def registry_add_def canonical_program_path_def
      str_contains_def bare_shell_def)

lemma text_shell_filters:
  "runs_filter text_shell (''echo'', args) (\<lambda>_. echo_text args)"
  "filters (builtin_tr :: unit program) (''tr'' # args) f \<Longrightarrow> runs_filter text_shell (''tr'', args) f"
  "filters (builtin_sort :: unit program) (''sort'' # args) f \<Longrightarrow> runs_filter text_shell (''sort'', args) f"
  unfolding runs_filter_def prod.case resolve_program_def text_shell_paths text_shell_registry option.case
  by (auto simp: shell_intrinsics_def intro: filters_echo)

theorem pipeline_composes_witness:
  "vw_bytes 0 (sh_bufs (snd (execute_command False (run_level False 1)
      (Pipeline (map plain_stage [(''echo'', [''hello'']), (''tr'', [''l'', ''r'']), (''sort'', [])]) False)
      \<lparr>io_stdin = reader_new [], io_stdout = 0, io_stderr = 1\<rparr>
      text_shell)))
   = ''herro'' @ [CHR 0x0A]"
  (is "vw_bytes 0 (sh_bufs (snd (execute_command _ _ ?c ?io _))) = ?out")
proof -
  let ?tr = "\<lparr>tr_delete = False, tr_squeeze = False, tr_sets = [''l'', ''r'']\<rparr>"
  let ?so = "\<lparr>so_reverse = False, so_numeric = False, so_unique = False, so_paths = []\<rparr>"
  let ?fs = "[\<lambda>_. echo_text [''hello''], \<lambda>d. tr_text ?tr (from_utf8_lossy d), \<lambda>d. unlines (sort_lines ?so (text_lines d))]"
  have "runs_filter text_shell (''tr'', [''l'', ''r'']) (\<lambda>d. tr_text ?tr (from_utf8_lossy d))"
    by (intro text_shell_filters filters_tr) (simp add: tr_scan_def took_def)
  moreover have "runs_filter text_shell (''sort'', []) (\<lambda>d. unlines (sort_lines ?so (text_lines d)))"
    by (intro text_shell_filters filters_sort) simp_all
  ultimately have "list_all2 (runs_filter text_shell) [(''echo'', [''hello'']), (''tr'', [''l'', ''r'']), (''sort'', [])] ?fs"
    using text_shell_filters(1) [of "[''hello'']"] by simp
  from pipeline_composes [OF this, of ?io False "run_level False 1"] obtain bufs where
    "execute_command False (run_level False 1) ?c ?io text_shell = (Ok 0, text_shell\<lparr>sh_bufs := bufs, sh_last_exit := 0\<rparr>)"
    "vw_bytes 0 bufs = [] @ fold (\<lambda>f. f) ?fs []"
    by (auto simp: vw_bytes_def reader_new_def reader_rest_def)
  moreover have "fold (\<lambda>f. f) ?fs [] = ?out" by code_simp
  ultimately show ?thesis by simp
qed

text \<open>A redirection of standard output to a file.\<close>

definition redirected :: "redirect_kind \<Rightarrow> string \<Rightarrow> string \<times> string list \<Rightarrow> simple_command" where
  "redirected rk p st = SimpleCommand [] (Some (SingleQuoted (fst st))) (map SingleQuoted (snd st))
     [Redirect None rk (TWord (SingleQuoted p))]"

text \<open>
  C15: what a program writes goes to the file. Take a command with \<open>> p\<close>, \<open>>| p\<close> or \<open>>> p\<close> that
  resolves to a program writing a function of its input, where the path is not a device (\<open>/dev/null\<close>
  reads back empty), is not served by a mount, and can be written. The command returns 0; a read of the
  path, however spelled, then gives what the program wrote, after what the file held in the case of \<open>>>\<close>;
  and the streams of the shell are as before.
\<close>

theorem redirect_roundtrip:
  assumes "runs_filter sh st f" "rk \<in> {Write, Clobber, Append}"
    and "vfs_ok (sh_fs sh)" "unmounted (sh_fs sh) path" "path = resolve_path (sh_cwd sh) p"
    and "\<forall>k. view (vfs_root (sh_fs sh)) (parts_of path) \<noteq> Some (EDev k)"
    and "old = (case fst (read_file path (sh_fs sh)) of Ok d \<Rightarrow> d | _ \<Rightarrow> [])"
    and "new = (if rk = Append then old else []) @ f (reader_rest (io_stdin io))"
    and "fst (write_file path new (sh_fs sh)) = Ok ()"
    and "execute_simple oc src (redirected rk p st) io sh = (r, sh')"
  shows "r = Ok 0 \<and> (\<forall>q. normalize_path q = path \<longrightarrow> fst (read_file q (sh_fs sh')) = Ok new)
     \<and> (\<forall>w < length (sh_bufs sh). vw_bytes w (sh_bufs sh') = vw_bytes w (sh_bufs sh))
     \<and> sh_env sh' = sh_env sh \<and> sh_cwd sh' = sh_cwd sh"
proof -
  obtain name args where st: "st = (name, args)" by fastforce
  let ?n = "length (sh_bufs sh)" and ?d = "f (reader_rest (io_stdin io))"
  let ?sh = "sh\<lparr>sh_bufs := sh_bufs sh @ [?d]\<rparr>"
  obtain v' where w: "write_file path new (sh_fs sh) = (Ok (), v')"
    using assms(9) by (metis prod.collapse)
  have norm: "normalize_path path = path" by (simp add: assms(5) normalize_canonical)
  have read: "read_file path (sh_fs sh) = (fst (read_file path (sh_fs sh)), sh_fs sh)"
    using assms(3,4) by (simp add: read_file_spec)
  have settled: "fst (read_file path (sh_fs sh)) \<noteq> Panic" "fst (read_file path (sh_fs sh)) \<noteq> OutOfFuel"
      "fst (read_file path (sh_fs sh)) \<noteq> SourceLimit"
    using assms(3,4) spec_vop_returns [of "ReadOp path" "view (vfs_root (sh_fs sh))"]
    by (auto simp: read_file_spec map_ok_def returns_def split: outcome.splits)
  have kinds: "rk \<noteq> Read" "rk \<noteq> ReadWrite" using assms(2) by auto
  have redirs: "apply_redirections oc src [Redirect None rk (TWord (SingleQuoted p))] io [] sh =
      (Ok (io\<lparr>io_stdout := ?n\<rparr>, [\<lparr>dw_path = path, dw_buf = ?n, dw_append = (rk = Append)\<rparr>]),
       sh\<lparr>sh_bufs := sh_bufs sh @ [ [] ]\<rparr>)"
    using kinds assms(5)
    by (simp add: act_simps andThen_def sh_new_writer_def vw_new_def open_output_def default_fd_def)
  have run: "dispatch src name (name # args) (io\<lparr>io_stdout := ?n\<rparr>) (sh\<lparr>sh_bufs := sh_bufs sh @ [ [] ]\<rparr>) = (Ok 0, ?sh)"
    using dispatch_filter [of "sh\<lparr>sh_bufs := sh_bufs sh @ [ [] ]\<rparr>" name args f src "io\<lparr>io_stdout := ?n\<rparr>"] assms(1) st
    by (simp add: vw_write_def vw_bytes_def)
  have flush: "flush_one \<lparr>dw_path = path, dw_buf = ?n, dw_append = (rk = Append)\<rparr> ?sh = (Ok (), ?sh\<lparr>sh_fs := v'\<rparr>)"
  proof (cases "rk = Append")
    case True
    then have "new = old @ ?d" by (simp add: assms(8))
    with True show ?thesis
      using w read settled assms(7)
      by (cases "fst (read_file path (sh_fs sh))")
         (simp_all add: flush_one_def andThen_def sh_bytes_def vw_bytes_def attempt_def sh_vfs_def map_err_def)
  next
    case False
    then show ?thesis
      using w by (simp add: assms(8) flush_one_def andThen_def sh_bytes_def vw_bytes_def sh_vfs_def map_err_def)
  qed
  have "execute_simple oc src (redirected rk p st) io sh = (Ok 0, ?sh\<lparr>sh_fs := v'\<rparr>)"
    using redirs run flush alias_none [of sh name args f] assms(1) st
    by (simp add: redirected_def andThen_def attempt_def settle_def)
  then have r: "r = Ok 0" "sh' = ?sh\<lparr>sh_fs := v'\<rparr>" using assms(10) by auto
  have "fst (read_file q v') = Ok new" if "normalize_path q = path" for q
    using write_reads_back [OF assms(3,4) w assms(6), of q] that norm by simp
  then show ?thesis using r by (simp add: vw_bytes_snoc)
qed

theorem redirect_roundtrip_witness:
  "fst (read_file ''/tmp/./f'' (sh_fs (snd (execute_simple False (run_level False 1)
      (redirected Append ''f'' (''echo'', [''hi'']))
      \<lparr>io_stdin = reader_new [], io_stdout = 0, io_stderr = 1\<rparr> (text_shell\<lparr>sh_cwd := ''/tmp''\<rparr>)))))
   = Ok (''hi'' @ [CHR 0x0A])"
  (is "fst (read_file _ (sh_fs (snd (execute_simple _ _ ?c ?io ?sh)))) = Ok ?new")
proof -
  have "runs_filter ?sh (''echo'', [''hi'']) (\<lambda>_. echo_text [''hi''])"
    using text_shell_filters(1) [of "[''hi'']"] by (simp add: runs_filter_def path_var_def)
  moreover have "vfs_ok (sh_fs ?sh)" "unmounted (sh_fs ?sh) ''/tmp/f''"
    by (simp_all add: bare_shell_def install_def add_program_def unmounted_def vfs_new_ok)
  moreover have "''/tmp/f'' = resolve_path (sh_cwd ?sh) ''f''" by code_simp
  moreover have "view (vfs_root (sh_fs ?sh)) (parts_of ''/tmp/f'') = None" by code_simp
  moreover have "[] = (case fst (read_file ''/tmp/f'' (sh_fs ?sh)) of Ok d \<Rightarrow> d | _ \<Rightarrow> [])"
    by code_simp
  moreover have "?new = (if Append = Append then [] else []) @ echo_text [''hi'']" by code_simp
  moreover have "fst (write_file ''/tmp/f'' ?new (sh_fs ?sh)) = Ok ()" by code_simp
  moreover have "normalize_path ''/tmp/./f'' = ''/tmp/f''" by code_simp
  ultimately show ?thesis
    using redirect_roundtrip [of ?sh "(''echo'', [''hi''])" "\<lambda>_. echo_text [''hi'']" Append "''/tmp/f''" "''f''"
      "[]" ?new ?io False "run_level False 1" "fst (execute_simple False (run_level False 1) ?c ?io ?sh)"
      "snd (execute_simple False (run_level False 1) ?c ?io ?sh)"]
    by simp
qed

end
