(* ===== verification/TreeFacts.thy ===== *)
theory TreeFacts
  imports BuiltinsFs BuiltinsText StreamFacts VfsSpec
begin

text \<open>
  The operations of a program on a filesystem without mounts as operations of the abstract path map,
  and the first of the programs that walk directories: \<open>find\<close> prints exactly the entries below its root, with the fuel its recursion needs, which a finite tree bounds.
\<close>

section \<open>The operations of a program on the abstract filesystem\<close>

definition tree_ctx :: "'h ProgramContext \<Rightarrow> bool" where
  "tree_ctx c \<longleftrightarrow> vfs_ok (cx_fs c) \<and> vfs_mounts (cx_fs c) = []"

definition ctx_view :: "'h ProgramContext \<Rightarrow> afs" where
  "ctx_view c = view (vfs_root (cx_fs c))"

definition ctx_parts :: "'h ProgramContext \<Rightarrow> string \<Rightarrow> string list" where
  "ctx_parts c p = parts_of (resolve_path (cx_cwd c) p)"

lemma ctx_parts_good [simp, intro]: "list_all good_seg (ctx_parts c p)"
  by (simp add: ctx_parts_def)

lemma parts_of_child: "good_seg e \<Longrightarrow> parts_of (p @ ''/'' @ e) = parts_of p @ [e]"
  unfolding parts_of_def foldl_norm_append [unfolded parts_of_def]
  by (simp add: good_seg_def split_on_no_sep norm_step_snoc [unfolded good_seg_def])

lemma ctx_parts_child:
  assumes "p \<noteq> ''''" "good_seg e"
  shows "ctx_parts c (p @ ''/'' @ e) = ctx_parts c p @ [e]"
proof -
  have "starts_with (p @ ''/'' @ e) ''/'' = starts_with p ''/''" using assms(1) by (cases p) auto
  then show ?thesis
    using parts_of_child [OF assms(2), of "cx_cwd c @ ''/'' @ p"] parts_of_child [OF assms(2), of p]
    using assms(2) by (simp add: ctx_parts_def resolve_path_def normalize_path_parts)
qed

lemma tree_unmounted: "tree_ctx c \<Longrightarrow> unmounted (cx_fs c) p"
  by (simp add: tree_ctx_def unmounted_def)

lemma ctx_stat_view:
  "tree_ctx c \<Longrightarrow> ctx_stat p c = (Ok (case ctx_view c (ctx_parts c p) of
      Some e \<Rightarrow> Inr (entry_stat e) | None \<Rightarrow> Inl (access_err (ctx_view c) (ctx_parts c p))), c)"
  using tree_unmounted [of c]
  by (auto simp: ctx_stat_def ctx_fs_def attempt_def stat_spec tree_ctx_def spec_stat_def ctx_view_def ctx_parts_def
      split: option.split)

lemma ctx_list_dir_view:
  assumes "tree_ctx c" "look (vfs_root (cx_fs c)) (ctx_parts c p) = Some (Dir m)"
  shows "ctx_list_dir p c = (Ok (Inr (map fst m)), c) \<and> sm_wf m \<and> (\<forall>e \<in> set m. good_seg (fst e) \<and> wf_node (snd e))"
proof -
  have w: "wf_node (Dir m)" using assms wf_node_look by (auto simp: tree_ctx_def vfs_ok_def simp del: wf_node.simps)
  then have "sorted_list_of_set {e. \<exists>y. view (vfs_root (cx_fs c)) (ctx_parts c p @ [e]) = Some y} = map fst m"
    using view_children [OF assms(2)] sm_keys_sorted [of m] by simp
  then show ?thesis
    using assms w tree_unmounted [OF assms(1)]
    by (simp add: ctx_list_dir_def ctx_fs_def attempt_def list_dir_spec tree_ctx_def spec_list_def ctx_parts_def)
qed

section \<open>The entries below a node\<close>

text \<open>The paths below a node, itself included, down to a depth.\<close>

fun tree_parts :: "nat option \<Rightarrow> VfsNode \<Rightarrow> string list list" where
  "tree_parts d (Dir m) = [] # (if d = Some 0 then []
     else concat (map (\<lambda>e. map (Cons (fst e)) (tree_parts (map_option (\<lambda>k. k - 1) d) (snd e))) m))"
| "tree_parts d n = [ [] ]"

lemma leaf_parts:
  "{ps. (\<exists>y. look (File s) ps = Some y) \<and> (\<forall>k. d = Some k \<longrightarrow> length ps \<le> k)} = {[]}"
  "{ps. (\<exists>y. look (Device v) ps = Some y) \<and> (\<forall>k. d = Some k \<longrightarrow> length ps \<le> k)} = {[]}"
proof -
  have "(\<exists>y. look (File s) ps = Some y) \<longleftrightarrow> ps = []" "(\<exists>y. look (Device v) ps = Some y) \<longleftrightarrow> ps = []" for ps
    by (cases ps; simp)+
  then show "{ps. (\<exists>y. look (File s) ps = Some y) \<and> (\<forall>k. d = Some k \<longrightarrow> length ps \<le> k)} = {[]}"
    "{ps. (\<exists>y. look (Device v) ps = Some y) \<and> (\<forall>k. d = Some k \<longrightarrow> length ps \<le> k)} = {[]}" by auto
qed

lemma tree_parts_set:
  "wf_node n \<Longrightarrow> set (tree_parts d n) = {ps. look n ps \<noteq> None \<and> (\<forall>k. d = Some k \<longrightarrow> length ps \<le> k)}"
proof (induction d n rule: tree_parts.induct)
  case (1 d m)
  have get: "sm_get m x = Some y \<longleftrightarrow> (x, y) \<in> set m" for x y
    using 1(2) by (simp add: sm_wf_def strict_sorted_iff)
  have child: "set (tree_parts (map_option (\<lambda>k. k - 1) d) x) = {qs. look x qs \<noteq> None \<and> (\<forall>k. d = Some k \<longrightarrow> length qs \<le> k - 1)}"
    if "d \<noteq> Some 0" "sm_get m nm = Some x" for nm x
  proof -
    have x: "(nm, x) \<in> set m" using that(2) get by simp
    then have "wf_node x" using 1(2) by auto
    then show ?thesis using 1(1) [OF that(1) x] by (cases d) auto
  qed
  have "ps \<in> set (tree_parts d (Dir m)) \<longleftrightarrow> look (Dir m) ps \<noteq> None \<and> (\<forall>k. d = Some k \<longrightarrow> length ps \<le> k)" for ps
  proof (cases ps)
    case (Cons p ps')
    let ?sub = "\<lambda>x. tree_parts (map_option (\<lambda>k. k - 1) d) x"
    have "ps \<in> set (tree_parts d (Dir m)) \<longleftrightarrow> d \<noteq> Some 0 \<and> (\<exists>x. (p, x) \<in> set m \<and> ps' \<in> set (?sub x))"
      by (auto simp: Cons image_iff) force
    also have "\<dots> \<longleftrightarrow> d \<noteq> Some 0 \<and> (\<exists>x. sm_get m p = Some x \<and> ps' \<in> set (?sub x))"
      by (simp add: get)
    also have "\<dots> \<longleftrightarrow> (\<exists>x. sm_get m p = Some x \<and> look x ps' \<noteq> None \<and> d \<noteq> Some 0 \<and> (\<forall>k. d = Some k \<longrightarrow> length ps' \<le> k - 1))"
      by (cases "d = Some 0"; cases "sm_get m p") (simp_all add: child [simplified])
    also have "\<dots> \<longleftrightarrow> look (Dir m) ps \<noteq> None \<and> (\<forall>k. d = Some k \<longrightarrow> length ps \<le> k)"
      by (cases d; cases "sm_get m p") (auto simp: Cons)
    finally show ?thesis .
  qed simp
  then show ?case by blast
qed (simp_all add: leaf_parts)

lemma sorted_children:
  assumes "sorted_wrt (<) (map fst m)" "\<forall>e \<in> set m. sorted_wrt (<) (f e)"
  shows "sorted_wrt (<) (concat (map (\<lambda>e. map (Cons (fst e :: string)) (f e)) m))"
  using assms by (induction m) (auto simp: sorted_wrt_append sorted_wrt_map)

lemma tree_parts_sorted: "wf_node n \<Longrightarrow> sorted_wrt (<) (tree_parts d n)"
proof (induction d n rule: tree_parts.induct)
  case (1 d m)
  then have "sorted_wrt (<) (concat (map (\<lambda>e. map (Cons (fst e)) (tree_parts (map_option (\<lambda>k. k - 1) d) (snd e))) m))"
    if "d \<noteq> Some 0"
    using that by (intro sorted_children) (auto simp: sm_wf_def)
  then show ?case by auto
qed simp_all

lemma tree_parts_list:
  assumes "wf_node n"
  shows "tree_parts d n = sorted_list_of_set {ps. look n ps \<noteq> None \<and> (\<forall>k. d = Some k \<longrightarrow> length ps \<le> k)}"
  using tree_parts_sorted [OF assms, of d] tree_parts_set [OF assms, of d]
  by (metis sorted_list_of_set.idem_if_sorted_distinct strict_sorted_iff)

text \<open>A finite tree has a depth, and with more fuel than that no walk of it runs out.\<close>

definition deeper :: "nat \<Rightarrow> VfsNode \<Rightarrow> bool" where
  "deeper n x \<longleftrightarrow> (\<forall>ps. look x ps \<noteq> None \<longrightarrow> length ps < n)"

lemma deeper_exists: "wf_node x \<Longrightarrow> \<exists>n0. \<forall>n \<ge> n0. deeper n x"
proof -
  assume "wf_node x"
  then have "{ps. look x ps \<noteq> None} = set (tree_parts None x)" by (simp add: tree_parts_set)
  then have fin: "finite {ps. look x ps \<noteq> None}" by simp
  have "\<forall>n \<ge> Suc (Max (length ` {ps. look x ps \<noteq> None})). deeper n x"
    using Max_ge [OF finite_imageI [OF fin, of length]] by (force simp: deeper_def less_Suc_eq_le)
  then show ?thesis by blast
qed

lemma deeper_pos: "\<not> deeper 0 x"
  unfolding deeper_def by (metis look.simps(1) not_less_zero option.distinct(1))

lemma deeper_child: "deeper (Suc n) (Dir m) \<Longrightarrow> sm_get m k = Some x \<Longrightarrow> deeper n x"
  unfolding deeper_def by (metis (no_types, lifting) length_Cons look.simps(2) not_less_eq option.simps(5))

section \<open>find\<close>

definition slashed :: "string list \<Rightarrow> string" where
  "slashed ps = concat (map (Cons SLASH) ps)"

lemma slashed_simps [simp]: "slashed [] = []" "slashed (ps @ [p]) = slashed ps @ ''/'' @ p"
  "slashed (p # ps) = SLASH # p @ slashed ps"
  by (simp_all add: slashed_def)

lemma ctx_parts_below:
  "p \<noteq> '''' \<Longrightarrow> list_all good_seg ps \<Longrightarrow> ctx_parts c (p @ slashed ps) = ctx_parts c p @ ps"
proof (induction ps rule: rev_induct)
  case (snoc e ps)
  then show ?case using ctx_parts_child [of "p @ slashed ps" e c] by simp
qed simp

text \<open>What \<open>find\<close> shows of the entry \<open>ps\<close> below its root \<open>B\<close>.\<close>

definition find_shows :: "find_opts \<Rightarrow> afs \<Rightarrow> string list \<Rightarrow> string list \<Rightarrow> bool" where
  "find_shows opts a B ps \<longleftrightarrow> (\<exists>e. a (B @ ps) = Some e
     \<and> (fd_type opts = Some ''f'' \<longrightarrow> (\<exists>d. e = EFile d)) \<and> (fd_type opts = Some ''d'' \<longrightarrow> e = EDir)
     \<and> (\<forall>pat. fd_name opts = Some pat \<longrightarrow> glob_match pat (last (''.'' # ps))))"

lemma basename_slashed: "list_all good_seg ps \<Longrightarrow> basename (''.'' @ slashed ps) = last (''.'' # ps)"
proof (cases ps rule: rev_cases)
  case (snoc qs q)
  assume "list_all good_seg ps"
  then have "SLASH \<notin> set q" by (auto simp: snoc good_seg_def)
  then show ?thesis
    using split_on_join_slash [of SLASH "''.'' @ slashed qs" q]
    by (simp add: snoc basename_def split_on_no_sep)
qed (simp add: basename_def)

lemma find_rel_slashed: "find_rel base (base @ slashed ps) = ''.'' @ slashed ps"
  by (cases ps) (simp_all add: find_rel_def)

lemma find_shows_code:
  assumes "a (B @ ps) = Some e" "list_all good_seg ps"
  shows "find_shows opts a B ps \<longleftrightarrow>
    find_prints (fd_type opts) (Inr (entry_stat e)) \<and> find_name_matches (fd_name opts) (''.'' @ slashed ps)"
  using assms basename_slashed [OF assms(2)]
  by (auto simp: find_shows_def find_prints_def find_name_matches_def entry_stat_def split: option.split)

definition find_out :: "find_opts \<Rightarrow> afs \<Rightarrow> string list \<Rightarrow> string list list \<Rightarrow> string" where
  "find_out opts a B pss = unlines (map (\<lambda>ps. ''.'' @ slashed ps) (filter (find_shows opts a B) pss))"

lemma find_out_append: "find_out opts a B (pss @ qss) = find_out opts a B pss @ find_out opts a B qss"
  by (simp add: find_out_def unlines_def)

lemma find_out_concat: "find_out opts a B (concat xs) = concat (map (find_out opts a B) xs)"
  by (induction xs) (simp_all add: find_out_append, simp add: find_out_def unlines_def)

lemma find_run:
  assumes "tree_ctx c" "base \<noteq> ''''" "ctx_parts c base = B" "list_all good_seg cur"
    and "look (vfs_root (cx_fs c)) (B @ cur) = Some t" "deeper n t"
  shows "find_recursive n base (base @ slashed cur) (length cur) (fd_maxdepth opts) (fd_name opts) (fd_type opts) c
    = (Ok (), wrote c (find_out opts (ctx_view c) B
        (map (append cur) (tree_parts (map_option (\<lambda>d. d - length cur) (fd_maxdepth opts)) t))))"
  using assms
proof (induction n arbitrary: c cur t)
  case 0
  then show ?case by (simp add: deeper_pos)
next
  case (Suc n)
  let ?dir = "base @ slashed cur" and ?left = "map_option (\<lambda>d. d - length cur) (fd_maxdepth opts)"
  let ?a = "ctx_view c"
  have here: "ctx_parts c ?dir = B @ cur" using ctx_parts_below [OF Suc.prems(2,4), of c] Suc.prems(3) by simp
  have view: "?a (B @ cur) = Some (kind t)" using Suc.prems by (simp add: ctx_view_def)
  have st: "ctx_stat ?dir c = (Ok (Inr (entry_stat (kind t))), c)"
    using ctx_stat_view [OF Suc.prems(1)] by (simp add: here view)
  have line: "(if find_prints (fd_type opts) (Inr (entry_stat (kind t))) \<and> find_name_matches (fd_name opts) (find_rel base ?dir)
        then out_line (find_rel base ?dir) else ret ()) c = (Ok (), wrote c (find_out opts ?a B [cur]))"
    using find_shows_code [of ?a B cur "kind t" opts] view Suc.prems(4)
    by (simp add: find_rel_slashed find_out_def out_line_wrote unlines_def)
  have stop: "(case fd_maxdepth opts of Some d \<Rightarrow> d \<le> length cur | None \<Rightarrow> False) \<longleftrightarrow> ?left = Some 0"
    by (cases "fd_maxdepth opts") auto
  show ?case
  proof (cases t)
    case (Dir m)
    let ?c = "wrote c (find_out opts ?a B [cur])"
    have tree: "tree_ctx ?c" "ctx_view ?c = ?a" "ctx_parts ?c p = ctx_parts c p" for p
      using Suc.prems(1) by (simp_all add: tree_ctx_def ctx_view_def ctx_parts_def)
    have list: "ctx_list_dir ?dir ?c = (Ok (Inr (map fst m)), ?c)" "sm_wf m"
      and good: "\<forall>e \<in> set m. good_seg (fst e) \<and> wf_node (snd e)"
      using ctx_list_dir_view [OF tree(1), of ?dir m] Suc.prems(5) Dir by (simp_all add: tree here)
    have sorted: "sort (map fst m) = map fst m"
      using list(2) by (simp add: sm_wf_def sorted_sort_id strict_sorted_iff)
    let ?left' = "map_option (\<lambda>k. k - 1) ?left"
    let ?g = "\<lambda>e. find_out opts ?a B (map (append cur) (map (Cons e) (tree_parts ?left' (the (sm_get m e)))))"
    have child: "find_recursive n base (?dir @ ''/'' @ e) (length cur + 1) (fd_maxdepth opts) (fd_name opts)
        (fd_type opts) (wrote ?c s) = (Ok (), wrote ?c (s @ ?g e))" if e: "e \<in> set (map fst m)" for e s
    proof -
      obtain x where x: "sm_get m e = Some x" using e by (auto simp: map_of_eq_None_iff dest: weak_map_of_SomeI)
      have "deeper n x" using Suc.prems(6) x deeper_child Dir by blast
      moreover have "tree_ctx (wrote ?c s)" "ctx_view (wrote ?c s) = ?a" "ctx_parts (wrote ?c s) base = B"
        using tree Suc.prems(3) by (simp_all add: tree_ctx_def ctx_view_def ctx_parts_def)
      moreover have "look (vfs_root (cx_fs (wrote ?c s))) (B @ cur @ [e]) = Some x"
        using Suc.prems(5) x Dir by (simp add: look_append flip: append_assoc)
      moreover have "list_all good_seg (cur @ [e])" using Suc.prems(4) good e by auto
      ultimately show ?thesis
        using Suc.IH [of "wrote ?c s" "cur @ [e]" x] Suc.prems(2) x
        by (cases "fd_maxdepth opts") (simp_all add: comp_def)
    qed
    have walk: "for_each (\<lambda>e. find_recursive n base (?dir @ ''/'' @ e) (length cur + 1) (fd_maxdepth opts)
        (fd_name opts) (fd_type opts)) (map fst m) ?c = (Ok (), wrote ?c (concat (map ?g (map fst m))))"
    proof -
      have "\<forall>e \<in> set (map fst m). \<forall>s. find_recursive n base (?dir @ ''/'' @ e) (length cur + 1) (fd_maxdepth opts)
          (fd_name opts) (fd_type opts) (wrote ?c s) = (Ok (), wrote ?c (s @ ?g e))"
        using child by blast
      from for_each_wrote [OF this, of "[]"] show ?thesis by (simp only: wrote_simps(1) append_Nil)
    qed
    have vals: "the (sm_get m (fst e)) = snd e" if "e \<in> set m" for e
      using list(2) that by (cases e) (simp add: sm_wf_def strict_sorted_iff)
    have "map (append cur) (tree_parts ?left t) = [cur] @ (if ?left = Some 0 then []
        else concat (map (\<lambda>e. map (append cur) (map (Cons (fst e)) (tree_parts ?left' (snd e)))) m))"
      by (cases "?left = Some 0") (auto simp: Dir map_concat comp_def)
    moreover have "find_out opts ?a B (concat (map (\<lambda>e. map (append cur) (map (Cons (fst e)) (tree_parts ?left' (snd e)))) m))
        = concat (map ?g (map fst m))"
      unfolding find_out_concat map_map comp_def by (intro arg_cong [of _ _ concat] map_cong) (simp_all add: vals)
    ultimately have "find_out opts ?a B (map (append cur) (tree_parts ?left t)) = find_out opts ?a B [cur]
        @ (if ?left = Some 0 then [] else concat (map ?g (map fst m)))"
      by (cases "?left = Some 0") (simp_all only: find_out_append append_Nil2 if_True if_False simp_thms)
    moreover have "find_recursive (Suc n) base ?dir (length cur) (fd_maxdepth opts) (fd_name opts) (fd_type opts) c =
        (Ok (), if ?left = Some 0 then ?c else wrote ?c (concat (map ?g (map fst m))))"
    proof -
      have dir: "is_dir (entry_stat (kind t))" by (simp add: entry_stat_def Dir)
      show ?thesis
        by (cases "?left = Some 0") (simp_all only: find_recursive.simps Let_def andThen_def st prod.case outcome.case
            line list(1) sum.case sorted walk stop dir not_True_eq_False if_True if_False, simp_all)
    qed
    ultimately show ?thesis by (cases "?left = Some 0") (simp_all only: wrote_simps append_Nil2 if_True if_False simp_thms)
  qed (use st line in \<open>simp_all add: andThen_def Let_def entry_stat_def\<close>)
qed

lemma path_of_abs: "starts_with (path_of ps) ''/''"
  by (simp add: path_of_def)

lemma ctx_parts_resolved: "ctx_parts c (resolve_path (cx_cwd c) p) = ctx_parts c p"
proof -
  obtain ps where p: "resolve_path (cx_cwd c) p = path_of ps" "list_all good_seg ps"
    using canonical_resolve [of "cx_cwd c" p] by (auto simp: canonical_def)
  then show ?thesis using path_of_abs [of ps] by (simp add: ctx_parts_def resolve_path_def [of _ "path_of ps"])
qed

lemma resolve_path_abs: "resolve_path cwd p \<noteq> ''''"
  by (simp add: resolve_path_def normalize_path_parts path_of_def)

lemma filter_sorted_list: "finite A \<Longrightarrow> filter P (sorted_list_of_set A) = sorted_list_of_set {x \<in> A. P x}"
  by (intro sorted_distinct_set_unique) (auto simp: sorted_wrt_filter)

text \<open>
  C18: \<open>find\<close> prints exactly the entries below its root. On a filesystem without mounts, with fuel
  for the depth of the tree, it returns 0, changes nothing, and writes the entries below its root, each
  once and in the order of their path segments, that are not deeper than \<open>-maxdepth\<close>, have the type of
  \<open>-type\<close> and a name that matches \<open>-name\<close>; nothing if the root does not exist.
\<close>

theorem find_prints_tree:
  assumes "tree_ctx c"
    and "scan_args find_scan \<lparr>fd_root = cx_cwd c, fd_name = None, fd_type = None, fd_maxdepth = None\<rparr> args = Inr opts"
    and "B = ctx_parts c (fd_root opts)"
  shows "\<exists>n0. \<forall>n \<ge> n0. builtin_find n (''find'' # args) c =
    (Ok 0, wrote c (unlines (map (\<lambda>ps. ''.'' @ slashed ps)
      (sorted_list_of_set {ps. find_shows opts (ctx_view c) B ps \<and> (\<forall>k. fd_maxdepth opts = Some k \<longrightarrow> length ps \<le> k)}))))"
proof -
  let ?root = "resolve_path (cx_cwd c) (fd_root opts)"
  let ?S = "{ps. find_shows opts (ctx_view c) B ps \<and> (\<forall>k. fd_maxdepth opts = Some k \<longrightarrow> length ps \<le> k)}"
  have root: "ctx_parts c ?root = B" by (simp add: assms(3) ctx_parts_resolved)
  show ?thesis
  proof (cases "look (vfs_root (cx_fs c)) B")
    case None
    then have "ctx_view c (B @ ps) = None" for ps by (simp add: ctx_view_def view_def look_append)
    then have S: "?S = {}" by (simp add: find_shows_def)
    have "ctx_view c B = None" using None by (simp add: ctx_view_def)
    then have "find_recursive (Suc n) ?root ?root 0 (fd_maxdepth opts) (fd_name opts) (fd_type opts) c = (Ok (), c)" for n
      by (simp add: andThen_def ctx_stat_view [OF assms(1)] root find_prints_def Let_def)
    then have "builtin_find n (''find'' # args) c = (Ok 0, c)" if "n \<ge> 1" for n
      using assms(2) that by (cases n) (simp_all add: builtin_find_def args_tail_def andThen_def ctx_cwd_def with_options_def Let_def)
    then show ?thesis unfolding S by (simp add: unlines_def) blast
  next
    case (Some t)
    have w: "wf_node t" using Some assms(1) wf_node_look by (auto simp: tree_ctx_def vfs_ok_def)
    then obtain n0 where n0: "\<forall>n \<ge> n0. deeper n t" using deeper_exists by blast
    let ?T = "{ps. look t ps \<noteq> None \<and> (\<forall>k. fd_maxdepth opts = Some k \<longrightarrow> length ps \<le> k)}"
    have "?S = {ps \<in> ?T. find_shows opts (ctx_view c) B ps}"
      using Some by (auto simp: find_shows_def ctx_view_def view_def look_append)
    moreover have "finite ?T" using tree_parts_set [OF w, of "fd_maxdepth opts"] by (metis finite_set)
    ultimately have S: "filter (find_shows opts (ctx_view c) B) (tree_parts (fd_maxdepth opts) t) = sorted_list_of_set ?S"
      by (simp add: tree_parts_list [OF w] filter_sorted_list)
    have "find_recursive n ?root ?root 0 (fd_maxdepth opts) (fd_name opts) (fd_type opts) c =
        (Ok (), wrote c (unlines (map (\<lambda>ps. ''.'' @ slashed ps) (sorted_list_of_set ?S))))" if "n \<ge> n0" for n
      using find_run [OF assms(1) resolve_path_abs root, of "[]" t n opts] Some n0 that
      by (simp add: find_out_def S option.map_ident map_idI)
    then have "\<forall>n \<ge> n0. builtin_find n (''find'' # args) c =
        (Ok 0, wrote c (unlines (map (\<lambda>ps. ''.'' @ slashed ps) (sorted_list_of_set ?S))))"
      using assms(2) by (simp add: builtin_find_def args_tail_def andThen_def ctx_cwd_def with_options_def Let_def)
    then show ?thesis by blast
  qed
qed

theorem find_prints_tree_witness:
  "\<exists>n0. \<forall>n \<ge> n0. builtin_find n [''find'', ''/tmp'', ''-type'', ''d'']
      \<lparr>cx_env = [], cx_cwd = ''/'', cx_aliases = [], cx_fs = snd (vfs_new ()), cx_bufs = [ [], [] ],
       cx_io = \<lparr>io_stdin = reader_new [], io_stdout = 0, io_stderr = 1\<rparr>\<rparr>
    = (Ok 0, \<lparr>cx_env = [], cx_cwd = ''/'', cx_aliases = [], cx_fs = snd (vfs_new ()), cx_bufs = [''.'' @ [NL], [] ],
       cx_io = \<lparr>io_stdin = reader_new [], io_stdout = 0, io_stderr = 1\<rparr>\<rparr>)"
  (is "\<exists>n0. \<forall>n \<ge> n0. builtin_find n ?args ?c = (Ok 0, ?d)")
proof -
  let ?opts = "\<lparr>fd_root = ''/tmp'', fd_name = None, fd_type = Some ''d'', fd_maxdepth = None\<rparr>"
  have tree: "tree_ctx ?c" by (simp add: tree_ctx_def vfs_new_ok)
  have scan: "scan_args find_scan \<lparr>fd_root = cx_cwd ?c, fd_name = None, fd_type = None, fd_maxdepth = None\<rparr>
      [''/tmp'', ''-type'', ''d''] = Inr ?opts" by code_simp
  have B: "[''tmp''] = ctx_parts ?c (fd_root ?opts)" by code_simp
  have "look (vfs_root (snd (vfs_new ()))) [''tmp''] = Some (Dir [])" by code_simp
  then have "ctx_view ?c ([''tmp''] @ ps) = (if ps = [] then Some EDir else None)" for ps
    by (cases ps) (simp_all add: ctx_view_def view_def look_append del: append.simps)
  then have "{ps. find_shows ?opts (ctx_view ?c) [''tmp''] ps \<and> (\<forall>k. fd_maxdepth ?opts = Some k \<longrightarrow> length ps \<le> k)} = {[]}"
    by (auto simp: find_shows_def split: if_splits)
  then show ?thesis
    using find_prints_tree [OF tree scan B] by (simp add: wrote_def vw_write_def vw_bytes_def unlines_def)
qed

end
