(* ===== verification/CopyFacts.thy ===== *)
theory CopyFacts
  imports TreeFacts
begin

text \<open>
  \<open>cp -r\<close> on the abstract path map: copying a directory to a free place outside of it returns and makes
  an exact copy; into itself it never returns.
\<close>

lemma ctx_fs_impl:
  assumes "tree_ctx c" "implements m sp (cx_fs c)" "returns (fst (sp (ctx_view c)))"
    and "snd (sp (ctx_view c)) [] = Some EDir"
  obtains v' where "ctx_fs m c = (Ok (case fst (sp (ctx_view c)) of Ok x \<Rightarrow> Inr x | Err e \<Rightarrow> Inl e), c\<lparr>cx_fs := v'\<rparr>)"
    and "tree_ctx (c\<lparr>cx_fs := v'\<rparr>)" "ctx_view (c\<lparr>cx_fs := v'\<rparr>) = snd (sp (ctx_view c))"
proof -
  obtain r v' where m: "m (cx_fs c) = (r, v')" by fastforce
  have i: "sp (ctx_view c) = (r, view (vfs_root v'))" "wf_node (vfs_root v')" "vfs_mounts v' = []"
    using assms(1,2) m by (auto simp: implements_def ctx_view_def tree_ctx_def)
  have "ctx_fs m c = (Ok (case fst (sp (ctx_view c)) of Ok x \<Rightarrow> Inr x | Err e \<Rightarrow> Inl e), c\<lparr>cx_fs := v'\<rparr>)"
    using m i(1) assms(3) by (auto simp: ctx_fs_def attempt_def returns_def)
  moreover have "tree_ctx (c\<lparr>cx_fs := v'\<rparr>)" using i assms(4) by (simp add: tree_ctx_def vfs_ok_root)
  ultimately show ?thesis using that i(1) by (simp add: ctx_view_def)
qed

lemma tree_root: "tree_ctx c \<Longrightarrow> ctx_view c [] = Some EDir"
  by (simp add: tree_ctx_def ctx_view_def vfs_ok_root)

lemma ctx_mkdirs:
  assumes "tree_ctx c" "D = ctx_parts c p" "\<forall>qs. prefix qs D \<longrightarrow> ctx_view c qs \<in> {None, Some EDir}"
  obtains v' where "ctx_mkdir p True c = (Ok (Inr ()), c\<lparr>cx_fs := v'\<rparr>)" "tree_ctx (c\<lparr>cx_fs := v'\<rparr>)"
    "ctx_view (c\<lparr>cx_fs := v'\<rparr>) = (\<lambda>qs. if prefix qs D then Some EDir else ctx_view c qs)"
proof -
  have "ctx_view c (take k D) = None \<or> ctx_view c (take k D) = Some EDir" for k
    using assms(3) take_is_prefix by blast
  then have sp: "spec_mkdirs D (ctx_view c) = (Ok (), \<lambda>qs. if prefix qs D then Some EDir else ctx_view c qs)"
    by (simp add: spec_mkdirs_def find_None_iff split: option.split)
  show ?thesis
    using ctx_fs_impl [OF assms(1) mkdir_impl [where p = "resolve_path (cx_cwd c) p" and parents = True]] assms(1) sp that
    by (auto simp: ctx_mkdir_def assms(2) tree_ctx_def ctx_parts_def)
qed

lemma ctx_copy_file:
  assumes "tree_ctx c" "ctx_view c (ctx_parts c p) = Some (EFile d)"
    and "ctx_view c (ctx_parts c q) = None" "ctx_view c (butlast (ctx_parts c q)) = Some EDir"
  obtains v' where "ctx_copy p q c = (Ok (Inr ()), c\<lparr>cx_fs := v'\<rparr>)" "tree_ctx (c\<lparr>cx_fs := v'\<rparr>)"
    "ctx_view (c\<lparr>cx_fs := v'\<rparr>) = (ctx_view c)(ctx_parts c q \<mapsto> EFile d)"
proof -
  have "spec_copy (ctx_parts c p) (ctx_parts c q) (ctx_view c) = (Ok (), (ctx_view c)(ctx_parts c q \<mapsto> EFile d))"
    using assms(2-4) by (simp add: spec_copy_def spec_read_def spec_write_def)
  moreover have "ctx_parts c q \<noteq> []" using assms(3) tree_root [OF assms(1)] by auto
  ultimately show ?thesis
    using ctx_fs_impl [OF assms(1) copy_impl, of "resolve_path (cx_cwd c) p" "resolve_path (cx_cwd c) q"]
      assms(1) that tree_unmounted [OF assms(1)] tree_root [OF assms(1)]
    by (auto simp: ctx_copy_def tree_ctx_def ctx_parts_def)
qed

text \<open>The tree \<open>b\<close> grafted at \<open>D\<close>, its children in \<open>X\<close> only, with the directories above \<open>D\<close>.\<close>

definition graft :: "string list \<Rightarrow> afs \<Rightarrow> string set \<Rightarrow> afs \<Rightarrow> afs" where
  "graft D b X a = (\<lambda>qs. if prefix D qs
      then (case drop (length D) qs of [] \<Rightarrow> Some EDir | e # rest \<Rightarrow> if e \<in> X then b (e # rest) else None)
      else if prefix qs D then Some EDir else a qs)"

text \<open>A place where a tree can be copied to.\<close>

definition copyable :: "string list \<Rightarrow> string list \<Rightarrow> afs \<Rightarrow> bool" where
  "copyable S D a \<longleftrightarrow> a S = Some EDir \<and> a D = None \<and> (\<forall>qs. prefix qs D \<longrightarrow> a qs \<in> {None, Some EDir})
     \<and> \<not> prefix S D \<and> (\<forall>ps k. a (S @ ps) \<noteq> Some (EDev k))"

lemma graft_at [simp]: "graft D b X a D = Some EDir" "graft D b X a (D @ e # ps) = (if e \<in> X then b (e # ps) else None)"
  by (simp_all add: graft_def)

lemma graft_mkdirs:
  assumes "view n D = None"
  shows "(\<lambda>qs. if prefix qs D then Some EDir else view n qs) = graft D b {} (view n)"
proof
  fix qs
  have "prefix D qs \<Longrightarrow> view n qs = None" using view_below_none [OF assms] by (auto simp: prefix_def)
  then show "(if prefix qs D then Some EDir else view n qs) = graft D b {} (view n) qs"
    by (auto simp: graft_def prefix_def split: list.split)
qed

lemma graft_source:
  assumes "copyable S D (view n)"
  shows "graft D b X (view n) (S @ ps) = view n (S @ ps)"
proof -
  have "\<not> prefix D S" using assms view_below_none [of n D] by (auto simp: copyable_def prefix_def)
  then have "\<not> prefix D (S @ ps)" using assms prefix_same_cases [of D "S @ ps" S] by (auto simp: copyable_def)
  moreover have "\<not> prefix (S @ ps) D" using assms by (auto simp: copyable_def dest: append_prefixD)
  ultimately show ?thesis by (simp add: graft_def)
qed

lemma graft_child:
  assumes "copyable S D (view n)" "e \<notin> X" "view n (S @ [e]) = Some EDir" "g = graft D b X (view n)"
  shows "copyable (S @ [e]) (D @ [e]) g"
proof -
  have "S @ [e] \<noteq> D @ [e]" using assms(1) by (auto simp: copyable_def)
  then have "\<not> prefix (S @ [e]) (D @ [e])" using assms(1) by (auto simp: copyable_def dest: append_prefixD)
  moreover have "g qs = Some EDir" if "prefix qs D" for qs
    using that by (auto simp: assms(4) graft_def prefix_def split: list.split)
  ultimately show ?thesis
    using assms graft_source [OF assms(1), of b X] by (auto simp: copyable_def)
qed

lemma graft_step:
  assumes "copyable S D (view n)" "e \<notin> X" "g = graft D (\<lambda>ps. view n (S @ ps)) X (view n)"
    and "view n (S @ [e]) = Some EDir"
  shows "graft (D @ [e]) (\<lambda>ps. g ((S @ [e]) @ ps)) UNIV g = graft D (\<lambda>ps. view n (S @ ps)) (insert e X) (view n)"
proof
  fix qs
  let ?b = "\<lambda>ps. view n (S @ ps)"
  have src: "g (S @ ps) = ?b ps" for ps using graft_source [OF assms(1)] by (simp add: assms(3))
  show "graft (D @ [e]) (\<lambda>ps. g ((S @ [e]) @ ps)) UNIV g qs = graft D ?b (insert e X) (view n) qs"
  proof (cases "prefix D qs")
    case True
    then obtain rest where qs: "qs = D @ rest" by (auto simp: prefix_def)
    show ?thesis
    proof (cases rest)
      case Nil
      then show ?thesis by (simp add: qs) (simp add: graft_def)
    next
      case (Cons f ps)
      then show ?thesis
        using src [of "e # ps"] assms(4)
        by (cases "f = e"; cases ps) (simp_all add: qs graft_def [of "D @ [e]"] assms(3))
    qed
  next
    case False
    then have "\<not> prefix (D @ [e]) qs" "prefix qs (D @ [e]) \<longleftrightarrow> prefix qs D"
      by (auto dest: append_prefixD)
    with False show ?thesis by (simp add: graft_def assms(3))
  qed
qed

lemma graft_file:
  assumes "copyable S D (view n)" "view n (S @ [e]) = Some (EFile d)"
  shows "(graft D (\<lambda>ps. view n (S @ ps)) X (view n))(D @ [e] \<mapsto> EFile d)
    = graft D (\<lambda>ps. view n (S @ ps)) (insert e X) (view n)"
proof
  fix qs
  let ?b = "\<lambda>ps. view n (S @ ps)"
  have leaf: "?b (e # p # ps) = None" for p ps
    using view_prefix_dir [of n "S @ [e]" p ps] assms(2) by (cases "?b (e # p # ps)") auto
  show "((graft D ?b X (view n))(D @ [e] \<mapsto> EFile d)) qs = graft D ?b (insert e X) (view n) qs"
  proof (cases "\<exists>f ps. qs = D @ f # ps")
    case True
    then obtain f ps where qs: "qs = D @ f # ps" by blast
    show ?thesis using assms(2) leaf by (cases ps) (auto simp: qs)
  next
    case False
    then show ?thesis by (auto simp: graft_def prefix_def split: list.split)
  qed
qed

lemma graft_all:
  assumes "{e. view n (S @ [e]) \<noteq> None} \<subseteq> X"
  shows "graft D (\<lambda>ps. view n (S @ ps)) X (view n) = graft D (\<lambda>ps. view n (S @ ps)) UNIV (view n)"
proof
  fix qs
  have "view n (S @ e # ps) = None" if "e \<notin> X" for e ps
    using assms that view_below_none [of n "S @ [e]" ps] by auto
  then show "graft D (\<lambda>ps. view n (S @ ps)) X (view n) qs = graft D (\<lambda>ps. view n (S @ ps)) UNIV (view n) qs"
    by (auto simp: graft_def split: list.split)
qed

text \<open>The step of the loop over the entries, and the whole of it.\<close>

definition copies :: "('h ProgramContext \<Rightarrow> (VfsError + unit, ShellError) outcome \<times> 'h ProgramContext)
    \<Rightarrow> 'h ProgramContext \<Rightarrow> afs \<Rightarrow> bool" where
  "copies m c a \<longleftrightarrow> (\<exists>v'. m c = (Ok (Inr ()), c\<lparr>cx_fs := v'\<rparr>) \<and> tree_ctx (c\<lparr>cx_fs := v'\<rparr>) \<and> ctx_view (c\<lparr>cx_fs := v'\<rparr>) = a)"

lemma try_vfs_Ok: "m s = (Ok (Inr x), s') \<Longrightarrow> try_vfs m f s = f x s'"
  by (simp add: try_vfs_def andThen_def)

lemma copies_each:
  assumes "\<And>e v X. e \<in> set es \<Longrightarrow> e \<notin> X \<Longrightarrow> tree_ctx (c\<lparr>cx_fs := v\<rparr>) \<Longrightarrow> ctx_view (c\<lparr>cx_fs := v\<rparr>) = g X
      \<Longrightarrow> copies (f e) (c\<lparr>cx_fs := v\<rparr>) (g (insert e X))"
    and "distinct es" "set es \<inter> X = {}" "tree_ctx (c\<lparr>cx_fs := v\<rparr>)" "ctx_view (c\<lparr>cx_fs := v\<rparr>) = g X"
  shows "copies (try_each f es) (c\<lparr>cx_fs := v\<rparr>) (g (X \<union> set es))"
  using assms
proof (induction es arbitrary: X v)
  case Nil
  then show ?case by (auto simp: copies_def ret_def intro!: exI [of _ v])
next
  case (Cons e es)
  obtain v1 where v1: "f e (c\<lparr>cx_fs := v\<rparr>) = (Ok (Inr ()), c\<lparr>cx_fs := v1\<rparr>)" "tree_ctx (c\<lparr>cx_fs := v1\<rparr>)"
      "ctx_view (c\<lparr>cx_fs := v1\<rparr>) = g (insert e X)"
    using Cons.prems(1) [of e X v] Cons.prems(3-5) by (auto simp: copies_def)
  have "copies (try_each f es) (c\<lparr>cx_fs := v1\<rparr>) (g (insert e X \<union> set es))"
    by (rule Cons.IH [OF Cons.prems(1)]) (use Cons.prems v1 in auto)
  then obtain v2 where "try_each f es (c\<lparr>cx_fs := v1\<rparr>) = (Ok (Inr ()), c\<lparr>cx_fs := v2\<rparr>)"
      "tree_ctx (c\<lparr>cx_fs := v2\<rparr>)" "ctx_view (c\<lparr>cx_fs := v2\<rparr>) = g (insert e X \<union> set es)"
    by (auto simp: copies_def)
  moreover have "insert e X \<union> set es = X \<union> set (e # es)" by auto
  ultimately show ?case
    unfolding copies_def using v1(1) by (intro exI [of _ v2]) (simp add: try_vfs_def andThen_def)
qed

lemma ctx_list_children:
  assumes "tree_ctx c" "ctx_view c (ctx_parts c p) = Some EDir"
  obtains es where "ctx_list_dir p c = (Ok (Inr es), c)" "distinct es"
    "set es = {e. ctx_view c (ctx_parts c p @ [e]) \<noteq> None}" "\<forall>e \<in> set es. good_seg e"
proof -
  obtain m where m: "look (vfs_root (cx_fs c)) (ctx_parts c p) = Some (Dir m)"
    using assms(2) by (auto simp: ctx_view_def view_EDir)
  show ?thesis
    using that [of "map fst m"] ctx_list_dir_view [OF assms(1) m] view_children [OF m]
    by (auto simp: ctx_view_def sm_wf_def strict_sorted_iff)
qed

lemma cp_run:
  assumes "tree_ctx c" "src \<noteq> ''''" "dst \<noteq> ''''" "S = ctx_parts c src" "D = ctx_parts c dst"
    and "copyable S D (ctx_view c)" "\<forall>ps. ctx_view c (S @ ps) \<noteq> None \<longrightarrow> length ps < n"
  shows "copies (cp_recursive n src dst) c (graft D (\<lambda>ps. ctx_view c (S @ ps)) UNIV (ctx_view c))"
  using assms
proof (induction n arbitrary: c src dst S D)
  case 0
  then show ?case by (auto simp: copyable_def dest: spec [of _ "[]"])
next
  case (Suc n)
  let ?a = "ctx_view c" and ?at = "\<lambda>v. c\<lparr>cx_fs := v\<rparr>"
  let ?b = "\<lambda>ps. ?a (S @ ps)" and ?g = "\<lambda>X. graft D (\<lambda>ps. ?a (S @ ps)) X ?a"
  have parts: "ctx_parts (?at v) p = ctx_parts c p" for v p by (simp add: ctx_parts_def)
  note cp = Suc.prems(6)
  note cp_view = cp [unfolded ctx_view_def]
  have above: "\<forall>qs. prefix qs D \<longrightarrow> ?a qs \<in> {None, Some EDir}" "?a D = None" using cp by (simp_all add: copyable_def)
  have made: "(\<lambda>qs. if prefix qs D then Some EDir else ?a qs) = ?g {}"
    using graft_mkdirs [of "vfs_root (cx_fs c)" D "\<lambda>ps. ?a (S @ ps)"] above(2) unfolding ctx_view_def by simp
  obtain v1 where v1: "ctx_mkdir dst True c = (Ok (Inr ()), ?at v1)" "tree_ctx (?at v1)" "ctx_view (?at v1) = ?g {}"
    by (rule ctx_mkdirs [OF Suc.prems(1,5) above(1), unfolded made])
  have src: "?g X (S @ ps) = ?a (S @ ps)" for X ps
    using graft_source [OF cp_view] by (simp add: ctx_view_def)
  obtain es where es: "ctx_list_dir src (?at v1) = (Ok (Inr es), ?at v1)" "distinct es" "set es = {e. ?a (S @ [e]) \<noteq> None}"
      "\<forall>e \<in> set es. good_seg e"
    using ctx_list_children [OF v1(2), of src] src [of "{}" "[]"] src [of "{}"] cp
    by (auto simp: parts Suc.prems(4) [symmetric] v1(3) copyable_def)
  let ?step = "\<lambda>e. try_vfs (ctx_stat (src @ ''/'' @ e)) (\<lambda>s.
      if is_dir s then cp_recursive n (src @ ''/'' @ e) (dst @ ''/'' @ e) else ctx_copy (src @ ''/'' @ e) (dst @ ''/'' @ e))"
  have step: "copies (?step e) (?at v) (?g (insert e X))"
    if e: "e \<in> set es" "e \<notin> X" and v: "tree_ctx (?at v)" "ctx_view (?at v) = ?g X" for e v X
  proof -
    have good: "good_seg e" using e(1) es(4) by blast
    have S: "ctx_parts (?at v) (src @ ''/'' @ e) = S @ [e]" and D: "ctx_parts (?at v) (dst @ ''/'' @ e) = D @ [e]"
      using ctx_parts_child [OF Suc.prems(2) good] ctx_parts_child [OF Suc.prems(3) good] Suc.prems(4,5)
      by (simp_all add: parts)
    obtain x where x: "?a (S @ [e]) = Some x" using e(1) es(3) by auto
    have st: "ctx_stat (src @ ''/'' @ e) (?at v) = (Ok (Inr (entry_stat x)), ?at v)"
      using ctx_stat_view [OF v(1), of "src @ ''/'' @ e"] x src [of X "[e]"] S v(2) by simp
    show ?thesis
    proof (cases x)
      case (EFile d)
      have "ctx_view (?at v) (D @ [e]) = None" "ctx_view (?at v) (butlast (D @ [e])) = Some EDir"
        "ctx_view (?at v) (S @ [e]) = Some (EFile d)"
        using e(2) x EFile src [of X "[e]"] by (simp_all add: v(2))
      then have "copies (ctx_copy (src @ ''/'' @ e) (dst @ ''/'' @ e)) (?at v) ((?g X)(D @ [e] \<mapsto> EFile d))"
        using ctx_copy_file [OF v(1), of "src @ ''/'' @ e" d "dst @ ''/'' @ e", unfolded S D v(2)] v(2)
        by (auto simp: copies_def)
      then show ?thesis
        using st EFile graft_file [OF cp_view, of e d X] x
        by (simp add: copies_def try_vfs_def andThen_def entry_stat_def ctx_view_def)
    next
      case EDir
      have "copyable (S @ [e]) (D @ [e]) (?g X)"
        using graft_child [OF cp_view e(2)] x EDir by (simp add: ctx_view_def)
      moreover have "\<forall>ps. ?g X ((S @ [e]) @ ps) \<noteq> None \<longrightarrow> length ps < n"
        using Suc.prems(7) src by (auto dest: spec [of _ "e # _"])
      ultimately have "copies (cp_recursive n (src @ ''/'' @ e) (dst @ ''/'' @ e)) (?at v)
          (graft (D @ [e]) (\<lambda>ps. ?g X ((S @ [e]) @ ps)) UNIV (?g X))"
        using Suc.IH [OF v(1), of "src @ ''/'' @ e" "dst @ ''/'' @ e" "S @ [e]" "D @ [e]", unfolded S D v(2)] by simp
      moreover have "graft (D @ [e]) (\<lambda>ps. ?g X ((S @ [e]) @ ps)) UNIV (?g X) = ?g (insert e X)"
        using graft_step [OF cp_view e(2) refl] x EDir by (simp add: ctx_view_def)
      ultimately show ?thesis
        using st EDir by (simp add: copies_def try_vfs_def andThen_def entry_stat_def)
    next
      case (EDev k)
      then show ?thesis using cp x by (auto simp: copyable_def)
    qed
  qed
  have "copies (try_each ?step es) (?at v1) (?g ({} \<union> set es))"
    by (rule copies_each [OF step es(2) _ v1(2,3)]) auto
  moreover have "?g ({} \<union> set es) = ?g UNIV"
    using graft_all [of "vfs_root (cx_fs c)" S "set es" D] es(3) by (simp add: ctx_view_def)
  moreover have "cp_recursive (Suc n) src dst c = try_each ?step es (?at v1)"
    unfolding cp_recursive.simps Let_def
    by (subst andThen_Ok, rule v1(1), subst try_vfs_Ok, rule es(1), rule refl)
  ultimately show ?case by (simp add: copies_def)
qed

lemma stat_is_dir_view:
  "tree_ctx c \<Longrightarrow> stat_is_dir p c = (Ok (ctx_view c (ctx_parts c p) = Some EDir), c)"
  by (auto simp: stat_is_dir_def andThen_def ctx_stat_view entry_stat_def split: option.split)

lemma depth_exists:
  assumes "tree_ctx c"
  shows "\<exists>n0. \<forall>n \<ge> n0. \<forall>ps. ctx_view c (S @ ps) \<noteq> None \<longrightarrow> length ps < n"
proof (cases "look (vfs_root (cx_fs c)) S")
  case (Some t)
  then have "wf_node t" using assms wf_node_look by (auto simp: tree_ctx_def vfs_ok_def)
  then show ?thesis
    using deeper_exists [of t] Some by (simp add: deeper_def ctx_view_def view_def look_append)
qed (simp add: ctx_view_def view_def look_append)

text \<open>
  C17: \<open>cp -r\<close> makes an exact copy. On a filesystem without mounts, copying a directory without
  devices below it to a free place outside of it, where no directory above is a file, returns 0: the
  tree below the destination is then the tree below the source, and but for the directories made above
  the destination every other path is what it was, the source included.
\<close>

theorem cp_r_copies:
  assumes "tree_ctx c"
    and "scan_args cp_scan \<lparr>cp_rec = False, cp_rest = []\<rparr> args = Inr \<lparr>cp_rec = True, cp_rest = [src, dst]\<rparr>"
    and "src \<noteq> ''''" "dst \<noteq> ''''" "S = ctx_parts c src" "D = ctx_parts c dst"
    and "ctx_view c S = Some EDir" "\<forall>ps k. ctx_view c (S @ ps) \<noteq> Some (EDev k)"
    and "ctx_view c D = None" "\<forall>qs. prefix qs D \<longrightarrow> ctx_view c qs \<in> {None, Some EDir}" "\<not> prefix S D"
  shows "\<exists>n0. \<forall>n \<ge> n0. \<exists>v'. builtin_cp n (''cp'' # args) c = (Ok 0, c\<lparr>cx_fs := v'\<rparr>) \<and> vfs_ok v'
     \<and> (\<forall>ps. view (vfs_root v') (D @ ps) = ctx_view c (S @ ps))
     \<and> (\<forall>qs. \<not> prefix D qs \<and> \<not> prefix qs D \<longrightarrow> view (vfs_root v') qs = ctx_view c qs)"
proof -
  have cp: "copyable S D (ctx_view c)" using assms(7-11) by (simp add: copyable_def)
  obtain n0 where n0: "\<forall>n \<ge> n0. \<forall>ps. ctx_view c (S @ ps) \<noteq> None \<longrightarrow> length ps < n"
    using depth_exists [OF assms(1)] by blast
  let ?g = "graft D (\<lambda>ps. ctx_view c (S @ ps)) UNIV (ctx_view c)"
  have run: "\<exists>v'. cp_recursive n src dst c = (Ok (Inr ()), c\<lparr>cx_fs := v'\<rparr>) \<and> vfs_ok v' \<and> view (vfs_root v') = ?g"
    if "n \<ge> n0" for n
    using cp_run [OF assms(1,3-6) cp, of n] n0 that by (auto simp: copies_def tree_ctx_def ctx_view_def)
  have cmd: "builtin_cp n (''cp'' # args) c = (Ok 0, c\<lparr>cx_fs := v\<rparr>)"
    if "cp_recursive n src dst c = (Ok (Inr ()), c\<lparr>cx_fs := v\<rparr>)" for n v
    using that assms(2) stat_is_dir_view [OF assms(1), of src] stat_is_dir_view [OF assms(1), of dst] assms(5-7,9)
    by (simp add: builtin_cp_def with_options_def andThen_def cp_path_def target_of_def Let_def)
  have "?g (D @ ps) = ctx_view c (S @ ps)" for ps using assms(7) by (cases ps) simp_all
  moreover have "?g qs = ctx_view c qs" if "\<not> prefix D qs \<and> \<not> prefix qs D" for qs
    using that by (simp add: graft_def)
  ultimately show ?thesis using run cmd by metis
qed

theorem cp_r_copies_witness:
  "\<exists>n0. \<forall>n \<ge> n0. fst (builtin_cp n [''cp'', ''-r'', ''usr'', ''/tmp/x''] \<lparr>cx_env = [], cx_cwd = ''/'', cx_aliases = [],
      cx_fs = snd (vfs_new ()), cx_bufs = [ [], [] ], cx_io = \<lparr>io_stdin = reader_new [], io_stdout = 0, io_stderr = 1\<rparr>\<rparr>) = Ok 0"
  (is "\<exists>n0. \<forall>n \<ge> n0. fst (builtin_cp n ?args ?c) = Ok 0")
proof -
  have tree: "tree_ctx ?c" by (simp add: tree_ctx_def vfs_new_ok)
  have scan: "scan_args cp_scan \<lparr>cp_rec = False, cp_rest = []\<rparr> [''-r'', ''usr'', ''/tmp/x'']
      = Inr \<lparr>cp_rec = True, cp_rest = [''usr'', ''/tmp/x'']\<rparr>" by code_simp
  have S: "[''usr''] = ctx_parts ?c ''usr''" and D: "[''tmp'', ''x''] = ctx_parts ?c ''/tmp/x''" by code_simp+
  have look: "look (vfs_root (cx_fs ?c)) [''usr''] = Some (Dir [(''bin'', Dir []), (''local'', Dir [(''bin'', Dir [])])])" by code_simp
  have dev: "ctx_view ?c ([''usr''] @ ps) \<noteq> Some (EDev k)" for ps k
    unfolding ctx_view_def view_def look_append look
    by (cases ps; cases "tl ps"; cases "tl (tl ps)") (auto split: if_splits)
  have "ctx_view ?c [''usr''] = Some EDir" "ctx_view ?c [''tmp'', ''x''] = None"
      "ctx_view ?c [''tmp''] = Some EDir" "ctx_view ?c [] = Some EDir" by code_simp+
  moreover from this have "ctx_view ?c qs \<in> {None, Some EDir}" if "prefix qs [''tmp'', ''x'']" for qs
    using that by (auto simp: prefix_Cons simp del: insert_iff)
  ultimately show ?thesis
    using cp_r_copies [OF tree scan _ _ S D] dev by fastforce
qed

section \<open>cp -r into itself\<close>

text \<open>
  C30: \<open>cp -r\<close> of an empty directory into itself never returns, whatever the fuel: each step makes the
  directory that the next step finds in its source.
\<close>

theorem cp_into_itself_diverges:
  assumes "tree_ctx c"
    and "scan_args cp_scan \<lparr>cp_rec = False, cp_rest = []\<rparr> args = Inr \<lparr>cp_rec = True, cp_rest = [src, src @ ''/'' @ e]\<rparr>"
    and "src \<noteq> ''''" "good_seg e" "S = ctx_parts c src"
    and "ctx_view c S = Some EDir" "\<forall>f. ctx_view c (S @ [f]) = None"
  shows "fst (builtin_cp n (''cp'' # args) c) = OutOfFuel"
proof -
  have walk: "fst (cp_recursive n src (src @ ''/'' @ e) c) = OutOfFuel"
    if "tree_ctx c" "src \<noteq> ''''" "ctx_view c (ctx_parts c src) = Some EDir" "\<forall>f. ctx_view c (ctx_parts c src @ [f]) = None"
    for c :: "'h ProgramContext" and src
    using that
  proof (induction n arbitrary: c src)
    case (Suc n)
    let ?S = "ctx_parts c src" and ?dst = "src @ ''/'' @ e"
    have D: "ctx_parts c ?dst = ?S @ [e]" using ctx_parts_child [OF Suc.prems(2) assms(4)] .
    have up: "ctx_view c qs = Some EDir" if "prefix qs ?S" for qs
    proof -
      obtain r where "?S = qs @ r" using \<open>prefix qs ?S\<close> by (auto simp: prefix_def)
      then show ?thesis
        using Suc.prems(3) view_prefix_dir [of "vfs_root (cx_fs c)" qs "hd r" "tl r"]
        by (cases r) (auto simp: ctx_view_def)
    qed
    then have above: "\<forall>qs. prefix qs (?S @ [e]) \<longrightarrow> ctx_view c qs \<in> {None, Some EDir}"
      using Suc.prems(4) by auto
    obtain v where v: "ctx_mkdir ?dst True c = (Ok (Inr ()), c\<lparr>cx_fs := v\<rparr>)" "tree_ctx (c\<lparr>cx_fs := v\<rparr>)"
        "ctx_view (c\<lparr>cx_fs := v\<rparr>) = (\<lambda>qs. if prefix qs (?S @ [e]) then Some EDir else ctx_view c qs)"
      by (rule ctx_mkdirs [OF Suc.prems(1) D [symmetric] above])
    let ?c = "c\<lparr>cx_fs := v\<rparr>"
    have parts: "ctx_parts ?c p = ctx_parts c p" for p by (simp add: ctx_parts_def)
    obtain es where es: "ctx_list_dir src ?c = (Ok (Inr es), ?c)" "distinct es" "set es = {f. ctx_view ?c (?S @ [f]) \<noteq> None}"
      by (rule ctx_list_children [OF v(2), of src, unfolded parts]) (simp_all add: v(3))
    have "set es = {e}" using Suc.prems(4) unfolding es(3) v(3) by auto
    then have "es = [e]" using es(2) by (cases es; cases "tl es") auto
    have st: "ctx_stat ?dst ?c = (Ok (Inr (entry_stat EDir)), ?c)"
      using ctx_stat_view [OF v(2), of ?dst] D by (simp add: parts v(3))
    have "ctx_view c (?S @ [e, f]) = None" for f
      using view_below_none [of "vfs_root (cx_fs c)" "?S @ [e]" "[f]"] Suc.prems(4) by (simp add: ctx_view_def)
    then have "fst (cp_recursive n ?dst (?dst @ ''/'' @ e) ?c) = OutOfFuel"
      by (intro Suc.IH [OF v(2)]) (use D in \<open>auto simp: parts v(3) prefix_def\<close>)
    then show ?case
      using v(1) es(1) st \<open>es = [e]\<close>
      by (cases "cp_recursive n ?dst (?dst @ ''/'' @ e) ?c")
         (simp add: andThen_def try_vfs_def Let_def entry_stat_def)
  qed (simp add: noFuel_def)
  have "ctx_parts c (src @ ''/'' @ e) = S @ [e]" using ctx_parts_child [OF assms(3,4), of c] assms(5) by (simp only:)
  from stat_is_dir_view [OF assms(1), of "src @ ''/'' @ e", unfolded this] assms(7)
  have dst: "stat_is_dir (src @ ''/'' @ e) c = (Ok False, c)" by simp
  show ?thesis
    using walk [OF assms(1,3)] assms(2,5-7) stat_is_dir_view [OF assms(1), of src] dst
    by (cases "cp_recursive n src (src @ ''/'' @ e) c")
       (simp add: builtin_cp_def with_options_def andThen_def cp_path_def target_of_def Let_def)
qed

theorem cp_into_itself_diverges_witness:
  "fst (builtin_cp 100000 [''cp'', ''-r'', ''/tmp'', ''/tmp/x''] \<lparr>cx_env = [], cx_cwd = ''/'', cx_aliases = [],
      cx_fs = snd (vfs_new ()), cx_bufs = [ [], [] ], cx_io = \<lparr>io_stdin = reader_new [], io_stdout = 0, io_stderr = 1\<rparr>\<rparr>)
    = OutOfFuel" (is "fst (builtin_cp _ _ ?c) = _")
proof -
  have tree: "tree_ctx ?c" by (simp add: tree_ctx_def vfs_new_ok)
  have scan: "scan_args cp_scan \<lparr>cp_rec = False, cp_rest = []\<rparr> [''-r'', ''/tmp'', ''/tmp/x'']
      = Inr \<lparr>cp_rec = True, cp_rest = [''/tmp'', ''/tmp'' @ ''/'' @ ''x'']\<rparr>" by code_simp
  have S: "[''tmp''] = ctx_parts ?c ''/tmp''" by code_simp
  have "look (vfs_root (cx_fs ?c)) [''tmp''] = Some (Dir [])" by code_simp
  then have "ctx_view ?c [''tmp''] = Some EDir" "\<forall>f. ctx_view ?c ([''tmp''] @ [f]) = None"
    by (simp_all add: ctx_view_def view_def look_append del: append.simps)
  then show ?thesis
    by (intro cp_into_itself_diverges [OF tree scan _ _ S]) (simp_all add: good_seg_def)
qed

end
