(* ===== verification/FileFacts.thy ===== *)
theory FileFacts
  imports CopyFacts
begin

text \<open>
  \<open>rm\<close> and \<open>mv\<close> on the abstract path map: what any list of operands does to the tree, what is said
  on standard error and the exit code, on every branch.
\<close>

section \<open>Steps of a program on its filesystem\<close>

definition wrote_err :: "'h ProgramContext \<Rightarrow> string \<Rightarrow> 'h ProgramContext" where
  "wrote_err c s = c\<lparr>cx_bufs := vw_write (io_stderr (cx_io c)) s (cx_bufs c)\<rparr>"

text \<open>A context that differs from \<open>c\<close> by a text on standard error and a tree that looks like \<open>a\<close>.\<close>

definition became :: "'h ProgramContext \<Rightarrow> string \<Rightarrow> afs \<Rightarrow> 'h ProgramContext \<Rightarrow> bool" where
  "became c msg a c' \<longleftrightarrow> (\<exists>v. c' = (wrote_err c msg)\<lparr>cx_fs := v\<rparr> \<and> vfs_ok v \<and> vfs_mounts v = [] \<and> view (vfs_root v) = a)"

lemma became_refl: "tree_ctx c \<Longrightarrow> became c [] (ctx_view c) c"
  by (auto simp: became_def wrote_err_def tree_ctx_def ctx_view_def intro!: exI [of _ "cx_fs c"])

lemma became_trans: "became c m a c1 \<Longrightarrow> became c1 n b c2 \<Longrightarrow> became c (m @ n) b c2"
  by (auto simp: became_def wrote_err_def vw_write_append)

lemma became_tree: "became c m a c1 \<Longrightarrow> tree_ctx c1 \<and> ctx_view c1 = a \<and> cx_cwd c1 = cx_cwd c \<and> ctx_parts c1 = ctx_parts c"
  by (auto simp: became_def tree_ctx_def ctx_view_def wrote_err_def ctx_parts_def)

lemma became_fs:
  assumes "tree_ctx c" "implements m sp (cx_fs c)" "sp (ctx_view c) = (r, a)" "returns r" "a [] = Some EDir"
  shows "\<exists>c'. ctx_fs m c = (Ok (case r of Ok x \<Rightarrow> Inr x | Err e \<Rightarrow> Inl e), c') \<and> became c [] a c'"
proof -
  obtain v' where "ctx_fs m c = (Ok (case r of Ok x \<Rightarrow> Inr x | Err e \<Rightarrow> Inl e), c\<lparr>cx_fs := v'\<rparr>)"
    "tree_ctx (c\<lparr>cx_fs := v'\<rparr>)" "ctx_view (c\<lparr>cx_fs := v'\<rparr>) = a"
    by (rule ctx_fs_impl [OF assms(1,2)]) (use assms(3-5) in simp_all)
  then show ?thesis
    by (auto simp: became_def wrote_err_def tree_ctx_def ctx_view_def intro!: exI [of _ v'])
qed

lemma became_error:
  assumes "became c [] a c1"
  shows "\<exists>c2. path_error prog p e c1 = (Ok 1, c2) \<and> became c (prog @ '': '' @ p @ '': '' @ show_vfs_error e @ [NL]) a c2"
proof -
  obtain v where "c1 = c\<lparr>cx_fs := v\<rparr>" "vfs_ok v" "vfs_mounts v = []" "view (vfs_root v) = a"
    using assms by (auto simp: became_def wrote_err_def)
  then show ?thesis
    by (auto simp: path_error_def bail_def ctx_err_def andThen_def became_def wrote_err_def intro!: exI [of _ v])
qed

lemma tree_parent:
  assumes "tree_ctx c" "ctx_view c P \<noteq> None" "P \<noteq> []"
  shows "ctx_view c (butlast P) = Some EDir"
  using assms view_prefix_dir [of "vfs_root (cx_fs c)" "butlast P" "last P" "[]"] by (auto simp: ctx_view_def)

section \<open>rm\<close>

text \<open>Whether an entry goes: not the root, and a directory with entries only with \<open>-r\<close>.\<close>

definition removable :: "bool \<Rightarrow> afs \<Rightarrow> string list \<Rightarrow> bool" where
  "removable r a P \<longleftrightarrow> P \<noteq> [] \<and> a P \<noteq> None \<and> (r \<or> a P \<noteq> Some EDir \<or> (\<forall>n. a (P @ [n]) = None))"

definition missing :: "afs \<Rightarrow> string list \<Rightarrow> VfsError" where
  "missing a P = (if a (butlast P) = Some EDir then NotFound (path_of P) else access_err a (butlast P))"

definition refusal :: "bool \<Rightarrow> afs \<Rightarrow> string list \<Rightarrow> VfsError" where
  "refusal r a P =
     (if \<not> r \<and> a P = Some EDir \<and> (\<exists>n. a (P @ [n]) \<noteq> None) then NotEmpty (path_of P)
      else if P = [] then InvalidPath ''no parent of root'' else missing a P)"

definition cut :: "string list \<Rightarrow> afs \<Rightarrow> afs" where
  "cut P a = (\<lambda>qs. if prefix P qs then None else a qs)"

text \<open>
  One operand after the other, each with the place it names: the tree at the end, the text on standard
  error and the exit code.
\<close>

fun rm_effect :: "bool \<Rightarrow> bool \<Rightarrow> (string \<times> string list) list \<Rightarrow> afs \<Rightarrow> afs \<times> string \<times> int" where
  "rm_effect r f [] a = (a, [], 0)"
| "rm_effect r f ((p, P) # ps) a =
     (if removable r a P then rm_effect r f ps (cut P a)
      else (case rm_effect r f ps a of (b, msg, code) \<Rightarrow>
        if f then (b, msg, code)
        else (b, ''rm: '' @ p @ '': '' @ show_vfs_error (refusal r a P) @ [NL] @ msg, 1)))"

lemma spec_remove_removable:
  assumes "tree_ctx c"
  shows "spec_remove P r (ctx_view c) = (if removable r (ctx_view c) P then (Ok (), cut P (ctx_view c))
     else (Err (refusal r (ctx_view c) P), ctx_view c))"
  using tree_parent [OF assms, of P]
  by (auto simp: spec_remove_def spec_take_def removable_def refusal_def missing_def cut_def overlay_def)

definition rm_step :: "bool \<Rightarrow> bool \<Rightarrow> int \<Rightarrow> string \<Rightarrow> ('h, int) cact" where
  "rm_step r f code path = andThen (ctx_remove path r) (\<lambda>x. case x of
     Inr _ \<Rightarrow> ret code | Inl e \<Rightarrow> if f then ret code else path_error ''rm'' path e)"

lemma rm_step_run:
  assumes "tree_ctx c" "P = ctx_parts c p" "a = ctx_view c"
  shows "\<exists>c'. rm_step r f code p c = (Ok (if removable r a P \<or> f then code else 1), c')
     \<and> became c (if removable r a P \<or> f then [] else ''rm: '' @ p @ '': '' @ show_vfs_error (refusal r a P) @ [NL])
         (if removable r a P then cut P a else a) c'"
proof -
  have i: "implements (remove (resolve_path (cx_cwd c) p) r) (spec_remove P r) (cx_fs c)"
    using remove_impl [of "cx_fs c" "resolve_path (cx_cwd c) p" r] assms(1) tree_unmounted [OF assms(1)]
    by (simp add: assms(2) ctx_parts_def tree_ctx_def)
  have root: "a [] = Some EDir" using tree_root [OF assms(1)] assms(3) by simp
  show ?thesis
  proof (cases "removable r a P")
    case True
    then have "cut P a [] = Some EDir" using root by (simp add: cut_def removable_def)
    with became_fs [OF assms(1) i] True show ?thesis
      using spec_remove_removable [OF assms(1), of P r] assms(3)
      by (fastforce simp: rm_step_def andThen_def ctx_remove_def)
  next
    case False
    then obtain c1 where c1: "ctx_remove p r c = (Ok (Inl (refusal r a P)), c1)" "became c [] a c1"
      using became_fs [OF assms(1) i] spec_remove_removable [OF assms(1), of P r] assms(3) root
      by (fastforce simp: ctx_remove_def)
    then show ?thesis
      using False became_error [OF c1(2), of "''rm''" p "refusal r a P"]
      by (cases f) (auto simp: rm_step_def andThen_def)
  qed
qed

lemma rm_run:
  "tree_ctx c \<Longrightarrow> rm_effect r f (map (\<lambda>p. (p, ctx_parts c p)) ps) (ctx_view c) = (a', msg, k) \<Longrightarrow> code \<in> {0, 1} \<Longrightarrow>
     \<exists>c'. fold_act (rm_step r f) code ps c = (Ok (if k = 0 then code else 1), c') \<and> became c msg a' c' \<and> k \<in> {0, 1}"
proof (induction ps arbitrary: c a' msg k code)
  case Nil
  then show ?case using became_refl by auto
next
  case (Cons p ps)
  let ?a = "ctx_view c" and ?P = "ctx_parts c p"
  define ok where "ok \<longleftrightarrow> removable r ?a ?P \<or> f"
  define a1 where "a1 = (if removable r ?a ?P then cut ?P ?a else ?a)"
  define m1 where "m1 = (if ok then [] else ''rm: '' @ p @ '': '' @ show_vfs_error (refusal r ?a ?P) @ [NL])"
  obtain c1 where c1: "rm_step r f code p c = (Ok (if ok then code else 1), c1)" "became c m1 a1 c1"
    using rm_step_run [OF Cons.prems(1) refl refl] unfolding ok_def a1_def m1_def by blast
  obtain a2 m2 k2 where e: "rm_effect r f (map (\<lambda>p. (p, ctx_parts c p)) ps) a1 = (a2, m2, k2)"
    by (cases "rm_effect r f (map (\<lambda>p. (p, ctx_parts c p)) ps) a1")
  have eff: "(a', msg, k) = (a2, m1 @ m2, if ok then k2 else 1)"
    using Cons.prems(2) e by (auto simp: ok_def a1_def m1_def split: if_splits)
  have "rm_effect r f (map (\<lambda>p. (p, ctx_parts c1 p)) ps) (ctx_view c1) = (a2, m2, k2)" "tree_ctx c1"
    using e became_tree [OF c1(2)] by simp_all
  moreover have "(if ok then code else 1) \<in> {0, 1}" using Cons.prems(3) by simp
  ultimately obtain c2 where c2: "fold_act (rm_step r f) (if ok then code else 1) ps c1
      = (Ok (if k2 = 0 then (if ok then code else 1) else 1), c2)" "became c1 m2 a2 c2" "k2 \<in> {0, 1}"
    using Cons.IH by blast
  show ?case
    using c1(1) c2 became_trans [OF c1(2) c2(2)] eff by (auto simp: andThen_def)
qed

text \<open>Operands and flags.\<close>

lemma rm_scan_paths:
  "\<forall>p \<in> set ps. \<not> starts_with p ''-'' \<Longrightarrow>
     scan_args rm_scan opts ps = Inr (opts\<lparr>rm_paths := rm_paths opts @ ps\<rparr>)"
  by (induction ps arbitrary: opts) (simp_all add: rm_scan_def is_flags_def)

definition flag_word :: "string \<Rightarrow> bool" where
  "flag_word x \<longleftrightarrow> (\<exists>ls. x = CHR ''-'' # ls \<and> ls \<noteq> [] \<and> set ls \<subseteq> {CHR ''r'', CHR ''R'', CHR ''f''})"

lemma rm_scan_letters:
  "set ls \<subseteq> {CHR ''r'', CHR ''R'', CHR ''f''} \<Longrightarrow> scan_chars rm_flag opts (map (\<lambda>c. [c]) ls)
     = Inr (opts\<lparr>rm_recursive := rm_recursive opts \<or> CHR ''r'' \<in> set ls \<or> CHR ''R'' \<in> set ls,
              rm_force := rm_force opts \<or> CHR ''f'' \<in> set ls\<rparr>)"
  by (induction ls arbitrary: opts) (auto simp: rm_flag_def)

lemma rm_scan_flags:
  "\<forall>x \<in> set fl. flag_word x \<Longrightarrow> scan_args rm_scan opts (fl @ ps)
     = scan_args rm_scan (opts\<lparr>rm_recursive := rm_recursive opts \<or> (\<exists>x \<in> set fl. CHR ''r'' \<in> set x \<or> CHR ''R'' \<in> set x),
         rm_force := rm_force opts \<or> (\<exists>x \<in> set fl. CHR ''f'' \<in> set x)\<rparr>) ps"
proof (induction fl arbitrary: opts)
  case (Cons x fl)
  obtain ls where x: "x = CHR ''-'' # ls" "ls \<noteq> []" "set ls \<subseteq> {CHR ''r'', CHR ''R'', CHR ''f''}"
    using Cons.prems by (auto simp: flag_word_def)
  have "list_all (\<lambda>c. byte c < 128) x" using x by (auto simp: list_all_iff)
  then have "cluster x = map (\<lambda>c. [c]) ls" using x(1) by (simp add: cluster_def utf8_chars_ascii)
  moreover have "is_flags x" using x by (cases ls) (auto simp: is_flags_def)
  ultimately show ?case
    using Cons x(1) rm_scan_letters [OF x(3), of opts]
    by (simp add: rm_scan_def took_def disj_ac)
qed simp

text \<open>
  C10: what \<open>rm\<close> does, on a filesystem without mounts. Its flags may come in any order and be joined;
  one operand after the other, an entry is removed with all that is below it, except for the root and,
  unless \<open>-r\<close> or \<open>-R\<close> is given, for a directory that has entries; every other path stays what it was.
  An operand that is not removed is reported with the reason and makes the exit code 1, unless \<open>-f\<close> is
  given; the ones after it are still removed.
\<close>

theorem rm_removes:
  assumes "tree_ctx c" "\<forall>x \<in> set flags. flag_word x" "paths \<noteq> []" "\<forall>p \<in> set paths. \<not> starts_with p ''-''"
    and "r \<longleftrightarrow> (\<exists>x \<in> set flags. CHR ''r'' \<in> set x \<or> CHR ''R'' \<in> set x)"
    and "f \<longleftrightarrow> (\<exists>x \<in> set flags. CHR ''f'' \<in> set x)"
    and "rm_effect r f (map (\<lambda>p. (p, ctx_parts c p)) paths) (ctx_view c) = (a, msg, code)"
  shows "\<exists>c'. builtin_rm (''rm'' # flags @ paths) c = (Ok code, c') \<and> became c msg a c'"
proof -
  have scan: "scan_args rm_scan \<lparr>rm_recursive = False, rm_force = False, rm_paths = []\<rparr> (flags @ paths)
      = Inr \<lparr>rm_recursive = r, rm_force = f, rm_paths = paths\<rparr>"
    using rm_scan_flags [OF assms(2)] rm_scan_paths [OF assms(4)] assms(5,6) by simp
  obtain c' where c': "fold_act (rm_step r f) 0 paths c = (Ok (if code = 0 then 0 else 1), c')" "became c msg a c'"
      "code \<in> {0, 1}"
    using rm_run [OF assms(1,7), of 0] by auto
  have "builtin_rm (''rm'' # flags @ paths) c = fold_act (rm_step r f) 0 paths c"
    using assms(3) by (simp add: builtin_rm_def scan with_options_def rm_step_def [abs_def])
  then show ?thesis using c' by auto
qed

definition plain_ctx :: "unit ProgramContext" where
  "plain_ctx = \<lparr>cx_env = [], cx_cwd = ''/'', cx_aliases = [], cx_fs = snd (vfs_new ()), cx_bufs = [ [], [] ],
     cx_io = \<lparr>io_stdin = reader_new [], io_stdout = 0, io_stderr = 1\<rparr>\<rparr>"

lemma plain_tree: "tree_ctx plain_ctx"
  by (simp add: plain_ctx_def tree_ctx_def vfs_new_ok)

theorem rm_removes_witness:
  "\<exists>c'. builtin_rm [''rm'', ''-r'', ''usr'', ''usr/bin''] plain_ctx = (Ok 1, c')
     \<and> became plain_ctx (''rm: usr/bin: '' @ show_vfs_error (NotFound ''/usr'') @ [NL]) (cut [''usr''] (ctx_view plain_ctx)) c'"
proof -
  have p: "ctx_parts plain_ctx ''usr'' = [''usr'']" "ctx_parts plain_ctx ''usr/bin'' = [''usr'', ''bin'']" by code_simp+
  have u: "ctx_view plain_ctx [''usr''] = Some EDir" "ctx_view plain_ctx [] = Some EDir" by code_simp+
  have "rm_effect True False (map (\<lambda>p. (p, ctx_parts plain_ctx p)) [''usr'', ''usr/bin'']) (ctx_view plain_ctx)
      = (cut [''usr''] (ctx_view plain_ctx), ''rm: usr/bin: '' @ show_vfs_error (NotFound ''/usr'') @ [NL], 1)"
    using u by (auto simp: p removable_def refusal_def missing_def cut_def access_err_def path_of_def le_Suc_eq
        take_Cons' split: if_splits)
  then show ?thesis
    using rm_removes [OF plain_tree, of "[''-r'']" "[''usr'', ''usr/bin'']" True False]
    by (simp add: flag_word_def)
qed

section \<open>mv\<close>

text \<open>
  Moving what is at \<open>S\<close> to \<open>T\<close>: the reason why not, or none, and the tree. The source is gone in any case
  once it was there, even if it could not be put at its new place.
\<close>

definition move :: "string list \<Rightarrow> string list \<Rightarrow> afs \<Rightarrow> VfsError option \<times> afs" where
  "move S T a =
     (if S = [] then (Some (InvalidPath ''no parent of root''), a)
      else if a S = None then (Some (missing a S), a)
      else if T = [] then (Some (InvalidPath ''cannot overwrite root''), cut S a)
      else if cut S a (butlast T) \<noteq> Some EDir then (Some (access_err (cut S a) (butlast T)), cut S a)
      else (None, \<lambda>qs. if prefix T qs then a (S @ drop (length T) qs) else cut S a qs))"

fun mv_effect :: "(string \<times> string list \<times> string list) list \<Rightarrow> afs \<Rightarrow> afs \<times> string \<times> int" where
  "mv_effect [] a = (a, [], 0)"
| "mv_effect ((p, S, T) # ms) a =
     (case move S T a of
        (None, b) \<Rightarrow> mv_effect ms b
      | (Some e, b) \<Rightarrow> (case mv_effect ms b of (b', msg, code) \<Rightarrow>
          (b', ''mv: '' @ p @ '': '' @ show_vfs_error e @ [NL] @ msg, 1)))"

lemma spec_rename_move:
  assumes "tree_ctx c"
  shows "spec_rename S T (ctx_view c) =
    (case move S T (ctx_view c) of (None, b) \<Rightarrow> (Ok (), b) | (Some e, b) \<Rightarrow> (Err e, b))"
  using tree_parent [OF assms, of S]
  by (auto simp: spec_rename_def spec_take_def spec_place_def move_def missing_def cut_def overlay_def)

definition mv_step :: "bool \<Rightarrow> string \<Rightarrow> int \<Rightarrow> string \<Rightarrow> ('h, int) cact" where
  "mv_step into dst code src = andThen (ctx_rename src (target_of into dst src)) (\<lambda>r. case r of
     Inr _ \<Rightarrow> ret code | Inl e \<Rightarrow> path_error ''mv'' src e)"

lemma move_root: "tree_ctx c \<Longrightarrow> snd (move S T (ctx_view c)) [] = Some EDir"
  using tree_root [of c] by (auto simp: move_def cut_def)

lemma mv_step_run:
  assumes "tree_ctx c" "move (ctx_parts c src) (ctx_parts c (target_of into dst src)) (ctx_view c) = (e, b)"
  shows "\<exists>c'. mv_step into dst code src c = (Ok (if e = None then code else 1), c')
     \<and> became c (case e of None \<Rightarrow> [] | Some x \<Rightarrow> ''mv: '' @ src @ '': '' @ show_vfs_error x @ [NL]) b c'"
proof -
  let ?t = "target_of into dst src"
  have i: "implements (rename (resolve_path (cx_cwd c) src) (resolve_path (cx_cwd c) ?t))
      (spec_rename (ctx_parts c src) (ctx_parts c ?t)) (cx_fs c)"
    using rename_impl [of "cx_fs c" "resolve_path (cx_cwd c) src" "resolve_path (cx_cwd c) ?t"] assms(1)
      tree_unmounted [OF assms(1)]
    by (simp add: ctx_parts_def tree_ctx_def)
  have root: "b [] = Some EDir" using move_root [OF assms(1)] assms(2) by (metis snd_conv)
  have sp: "spec_rename (ctx_parts c src) (ctx_parts c ?t) (ctx_view c)
      = (case e of None \<Rightarrow> Ok () | Some x \<Rightarrow> Err x, b)"
    using spec_rename_move [OF assms(1)] assms(2) by (simp split: option.split)
  obtain c1 where c1: "ctx_rename src ?t c = (Ok (case e of None \<Rightarrow> Inr () | Some x \<Rightarrow> Inl x), c1)" "became c [] b c1"
    using became_fs [OF assms(1) i sp _ root] by (cases e) (auto simp: ctx_rename_def)
  show ?thesis
  proof (cases e)
    case None
    then show ?thesis using c1 by (simp add: mv_step_def andThen_def)
  next
    case (Some x)
    then show ?thesis using c1 became_error [OF c1(2), of "''mv''" src x] by (auto simp: mv_step_def andThen_def)
  qed
qed

lemma mv_run:
  "tree_ctx c \<Longrightarrow> mv_effect (map (\<lambda>p. (p, ctx_parts c p, ctx_parts c (target_of into dst p))) ps) (ctx_view c) = (a', msg, k) \<Longrightarrow>
     code \<in> {0, 1} \<Longrightarrow>
     \<exists>c'. fold_act (mv_step into dst) code ps c = (Ok (if k = 0 then code else 1), c') \<and> became c msg a' c' \<and> k \<in> {0, 1}"
proof (induction ps arbitrary: c a' msg k code)
  case Nil
  then show ?case using became_refl by auto
next
  case (Cons p ps)
  obtain e b where m: "move (ctx_parts c p) (ctx_parts c (target_of into dst p)) (ctx_view c) = (e, b)" by fastforce
  define m1 where "m1 = (case e of None \<Rightarrow> [] | Some x \<Rightarrow> ''mv: '' @ p @ '': '' @ show_vfs_error x @ [NL])"
  obtain c1 where c1: "mv_step into dst code p c = (Ok (if e = None then code else 1), c1)" "became c m1 b c1"
    using mv_step_run [OF Cons.prems(1) m] unfolding m1_def by blast
  obtain a2 m2 k2 where e: "mv_effect (map (\<lambda>p. (p, ctx_parts c p, ctx_parts c (target_of into dst p))) ps) b = (a2, m2, k2)"
    by (cases "mv_effect (map (\<lambda>p. (p, ctx_parts c p, ctx_parts c (target_of into dst p))) ps) b")
  have eff: "(a', msg, k) = (a2, m1 @ m2, if e = None then k2 else 1)"
    using Cons.prems(2) e m by (auto simp: m1_def split: option.splits)
  have "mv_effect (map (\<lambda>p. (p, ctx_parts c1 p, ctx_parts c1 (target_of into dst p))) ps) (ctx_view c1) = (a2, m2, k2)"
      "tree_ctx c1"
    using e became_tree [OF c1(2)] by simp_all
  moreover have "(if e = None then code else 1) \<in> {0, 1}" using Cons.prems(3) by simp
  ultimately obtain c2 where c2: "fold_act (mv_step into dst) (if e = None then code else 1) ps c1
      = (Ok (if k2 = 0 then (if e = None then code else 1) else 1), c2)" "became c1 m2 a2 c2" "k2 \<in> {0, 1}"
    using Cons.IH by blast
  show ?case
    using c1(1) c2 became_trans [OF c1(2) c2(2)] eff by (auto simp: andThen_def)
qed

lemma basename_last: "good_seg nm \<Longrightarrow> src = nm \<or> (\<exists>d. src = d @ ''/'' @ nm) \<Longrightarrow> basename src = nm"
  by (auto simp: basename_def good_seg_def split_on_no_sep split_on_join_slash)

text \<open>
  C23: what \<open>mv\<close> does, on a filesystem without mounts, with sources whose last segment is a name. If the
  last operand is a directory when it starts, every source goes into it under its own name, else onto
  that path, one source after the other. The whole tree at the source is then at its new place and gone
  from the old one, and every other path is what it was; a source that is not there, or a place whose
  parent is not a directory, is reported, makes the exit code 1, and does not keep the ones after it from
  moving.
\<close>

theorem mv_moves:
  assumes "tree_ctx c" "srcs \<noteq> []" "dst \<noteq> ''''" "D = ctx_parts c dst"
    and "\<forall>src \<in> set srcs. good_seg (nm src) \<and> (src = nm src \<or> (\<exists>d. src = d @ ''/'' @ nm src))"
    and "mv_effect (map (\<lambda>src. (src, ctx_parts c src, if ctx_view c D = Some EDir then D @ [nm src] else D)) srcs)
           (ctx_view c) = (a, msg, code)"
  shows "\<exists>c'. builtin_mv (''mv'' # srcs @ [dst]) c = (Ok code, c') \<and> became c msg a c'"
proof -
  define into where "into \<longleftrightarrow> ctx_view c D = Some EDir"
  have "ctx_parts c (target_of into dst src) = (if into then D @ [nm src] else D)" if "src \<in> set srcs" for src
    using that assms(3-5) basename_last [of "nm src" src] ctx_parts_child [of dst "nm src" c]
    by (simp add: target_of_def)
  then have "map (\<lambda>src. (src, ctx_parts c src, ctx_parts c (target_of into dst src))) srcs
      = map (\<lambda>src. (src, ctx_parts c src, if into then D @ [nm src] else D)) srcs" by simp
  then have eff: "mv_effect (map (\<lambda>p. (p, ctx_parts c p, ctx_parts c (target_of into dst p))) srcs) (ctx_view c) = (a, msg, code)"
    using assms(6) by (simp only: into_def)
  obtain c' where c': "fold_act (mv_step into dst) 0 srcs c = (Ok (if code = 0 then 0 else 1), c')" "became c msg a c'"
      "code \<in> {0, 1}"
    using mv_run [OF assms(1) eff, of 0] by auto
  have "\<not> length (srcs @ [dst]) < 2" using assms(2) by (cases srcs) auto
  then have "builtin_mv (''mv'' # srcs @ [dst]) c = fold_act (mv_step into dst) 0 srcs c"
    using stat_is_dir_view [OF assms(1), of dst]
    by (simp add: builtin_mv_def andThen_def Let_def assms(4) into_def mv_step_def [abs_def])
  then show ?thesis using c' by auto
qed

theorem mv_moves_witness:
  "\<exists>c'. builtin_mv [''mv'', ''usr/bin'', ''etc'', ''/tmp''] plain_ctx = (Ok 0, c')
     \<and> (\<exists>a. became plain_ctx [] a c' \<and> a [''tmp'', ''bin''] = Some EDir \<and> a [''usr'', ''bin''] = None \<and> a [''etc''] = None)"
proof -
  let ?nm = "\<lambda>src. if src = ''etc'' then ''etc'' else ''bin''"
  have p: "ctx_parts plain_ctx ''usr/bin'' = [''usr'', ''bin'']" "ctx_parts plain_ctx ''etc'' = [''etc'']"
    "[''tmp''] = ctx_parts plain_ctx ''/tmp''" by code_simp+
  have v: "ctx_view plain_ctx [''usr'', ''bin''] = Some EDir" "ctx_view plain_ctx [''etc''] = Some EDir"
    "ctx_view plain_ctx [''tmp''] = Some EDir" by code_simp+
  obtain a msg code where eff: "mv_effect (map (\<lambda>src. (src, ctx_parts plain_ctx src,
      if ctx_view plain_ctx [''tmp''] = Some EDir then [''tmp''] @ [?nm src] else [''tmp''])) [''usr/bin'', ''etc''])
      (ctx_view plain_ctx) = (a, msg, code)" (is "?e = _")
    by (cases ?e)
  have r: "msg = []" "code = 0" "a [''tmp'', ''bin''] = Some EDir" "a [''usr'', ''bin''] = None" "a [''etc''] = None"
    using eff v by (auto simp: p(1,2) move_def cut_def)
  have "\<exists>c'. builtin_mv (''mv'' # [''usr/bin'', ''etc''] @ [''/tmp'']) plain_ctx = (Ok code, c') \<and> became plain_ctx msg a c'"
    by (rule mv_moves [OF plain_tree _ _ p(3) _ eff]) (auto simp: good_seg_def intro: exI [of _ "''usr''"])
  then show ?thesis using r by auto
qed

end
