(* ===== verification/Divergences.thy ===== *)
theory Divergences
  imports ShellFacts CopyFacts
begin

text \<open>
  Where the code departs from what a shell does, shown on scripts that run from their text to the state
  they leave, on a shell with a few of the programs.
\<close>

definition demo_shell :: "unit Shell" where
  "demo_shell = install [(''cd'', builtin_cd), (''echo'', builtin_echo), (''true'', const_program 0),
     (''mkdir'', builtin_mkdir), (''cp'', builtin_cp 4), (''cat'', builtin_cat), (''sort'', builtin_sort)] (bare_shell ())"

definition after :: "string \<Rightarrow> unit Shell" where
  "after script = snd (exec False 2 script demo_shell)"

text \<open>A subshell that ends with \<open>exit\<close> does not give the directory back; one that ends by itself does.\<close>

lemma subshell_exit_keeps_cwd:
  "sh_cwd (after ''(cd /tmp; exit 3)'') = ''/tmp'' \<and> sh_cwd (after ''(cd /tmp; true)'') = ''/''"
  by code_simp

text \<open>A variable assigned twice before a command is restored to its first new value.\<close>

lemma double_assignment_leaks:
  "get_env ''A'' (after ''A=1 A=2 true'') = Some ''1'' \<and> get_env ''A'' (after ''A=1 true'') = None"
  by code_simp

text \<open>A command substitution runs in the shell itself.\<close>

lemma substitution_leaks: "get_env ''A'' (after ''echo $(A=1)'') = Some ''1''"
  by code_simp

text \<open>An assignment before a command survives a redirection that fails.\<close>

lemma failed_redirection_leaks:
  "get_env ''A'' (after ''A=1 echo > /nodir/f'') = Some ''1'' \<and> get_env ''A'' (after ''A=1 echo < /nofile'') = Some ''1''"
  by code_simp

text \<open>An error of \<open>sort\<close> is reported under the name of \<open>cat\<close>.\<close>

lemma sort_reports_cat:
  "(case fst (exec False 2 ''sort /no'' demo_shell) of Ok r \<Rightarrow> starts_with (eo_stderr r) ''cat: '' | _ \<Rightarrow> False)"
  by code_simp

text \<open>A heredoc with \<open><<-\<close> keeps the tabs that its lines begin with.\<close>

lemma heredoc_keeps_tabs:
  "fst (parse (''cat <<-E'' @ [NL, TAB] @ ''a'' @ [NL, TAB] @ ''E'' @ [NL]) tls_init)
   = Ok [Simple (SimpleCommand [] (Some (Literal ''cat'')) []
       [Redirect (Some 0) Read (THeredoc (Heredoc ''E'' False True (HBParts [DQLiteral (TAB # ''a'' @ [NL])])))])]"
  by code_simp

text \<open>\<open>find\<close> prints the entries below \<open>/a\<close> as if they were below the working directory.\<close>

lemma find_drops_root: "find_rel ''/a'' ''/a/b'' = ''./b''"
  by code_simp

end
