(* ===== verification/ErrorReport.thy ===== *)
theory ErrorReport
  imports Ast Utf8
begin

text \<open>
  The report of a parse error with its source line (\<open>error.rs\<close>): the line and column of the error, the
  line itself, and a row of carets under the span.
\<close>

definition span_single :: "nat \<Rightarrow> span" where
  "span_single pos = Span pos 1"

definition span_merge :: "span \<Rightarrow> span \<Rightarrow> span" where
  "span_merge s t =
     (let start = min (sp_start s) (sp_start t); stop = max (span_end s) (span_end t) in Span start (stop - start))"

definition rfind :: "char \<Rightarrow> string \<Rightarrow> nat option" where
  "rfind d s = map_option (\<lambda>(a, b). length a) (rsplit_once d s)"

text \<open>The text before the error is a slice of the source, which panics off a character boundary.\<close>

definition error_display :: "parse_error \<Rightarrow> string \<Rightarrow> (string, unit) outcome" where
  "error_display err source =
     (let start = sp_start (pe_span err); cut = min start (length source) in
      if \<not> is_char_boundary source cut then Panic
      else
        (let before = take cut source;
             line_num = length (filter (\<lambda>c. c = NL) before) + 1;
             col = (case rfind NL before of Some i \<Rightarrow> start - i - 1 | None \<Rightarrow> start);
             line_start = (case rfind NL before of Some i \<Rightarrow> i + 1 | None \<Rightarrow> 0);
             line_end = (case find_pos (\<lambda>c. c = NL) (drop line_start source) of
                           Some i \<Rightarrow> line_start + i | None \<Rightarrow> length source);
             line_text = take (line_end - line_start) (drop line_start source)
         in Ok (''parse error (line '' @ show_nat line_num @ '', col '' @ show_nat col @ ''): '' @ pe_message err @ [NL]
              @ ''  '' @ line_text @ [NL]
              @ ''  '' @ replicate col CHR '' '' @ replicate (max (sp_len (pe_span err)) 1) CHR ''^'')))"

section \<open>The report points at the error\<close>

lemma take_to_sep:
  "take (case find_pos (\<lambda>c. c = d) s of Some i \<Rightarrow> i | None \<Rightarrow> length s) s = hd (split_on d s)"
proof (induction s)
  case (Cons c s)
  then show ?case by (cases "split_on d s"; cases "find_pos (\<lambda>c. c = d) s") (auto simp: split_on_nonempty)
qed simp

lemma split_on_count: "length (split_on d s) = length (filter (\<lambda>c. c = d) s) + 1"
  by (induction s) (auto split: list.split)

lemma split_on_terminated: "concat (map (\<lambda>l. l @ [d]) (split_on d s)) = s @ [d]"
  by (induction s) (auto split: list.split)

lemma split_on_apart: "split_on d (s @ d # t) = split_on d s @ split_on d t"
proof (induction s)
  case (Cons c s)
  then show ?case by (cases "split_on d s") auto
qed simp

text \<open>The report of an error after \<open>a @ q\<close>, where \<open>q\<close> is what comes before it on its line.\<close>

definition report :: "parse_error \<Rightarrow> nat \<Rightarrow> nat \<Rightarrow> string \<Rightarrow> string" where
  "report err line_num col line_text =
     ''parse error (line '' @ show_nat line_num @ '', col '' @ show_nat col @ ''): '' @ pe_message err @ [NL]
       @ ''  '' @ line_text @ [NL]
       @ ''  '' @ replicate col CHR '' '' @ replicate (max (sp_len (pe_span err)) 1) CHR ''^''"

lemma error_display_report:
  assumes "source = a @ q @ r" "NL \<notin> set q" "a = [] \<or> (\<exists>p. a = p @ [NL])"
    and "sp_start (pe_span err) = length a + length q" "is_char_boundary source (length a + length q)"
  shows "error_display err source =
    Ok (report err (length (filter (\<lambda>c. c = NL) a) + 1) (length q) (hd (split_on NL (q @ r))))"
proof -
  have cut: "min (sp_start (pe_span err)) (length source) = length a + length q" by (simp add: assms(1,4))
  have before: "take (length a + length q) source = a @ q" by (simp add: assms(1))
  have from_line: "drop (length a) source = q @ r" by (simp add: assms(1))
  have rf: "rfind NL (a @ q) = (if a = [] then None else Some (length a - 1))"
    using assms(2,3) rsplit_once_append [of NL q] by (auto simp: rfind_def rsplit_once_None [THEN iffD2])
  have col: "(case rfind NL (a @ q) of Some i \<Rightarrow> sp_start (pe_span err) - i - 1 | None \<Rightarrow> sp_start (pe_span err)) = length q"
    using assms(3) by (auto simp: rf assms(4))
  have start: "(case rfind NL (a @ q) of Some i \<Rightarrow> i + 1 | None \<Rightarrow> 0) = length a"
    using assms(3) by (auto simp: rf)
  have nl: "length (filter (\<lambda>c. c = NL) (a @ q)) = length (filter (\<lambda>c. c = NL) a)"
    using assms(2) by (auto simp: filter_empty_conv)
  have line: "take ((case find_pos (\<lambda>c. c = NL) (q @ r) of Some i \<Rightarrow> length a + i | None \<Rightarrow> length source) - length a) (q @ r)
      = hd (split_on NL (q @ r))"
    using take_to_sep [where d = NL and s = "q @ r"]
    by (cases "find_pos (\<lambda>c. c = NL) (q @ r)") (simp_all add: assms(1))
  show ?thesis
    unfolding error_display_def Let_def cut before col start from_line nl line report_def
    using assms(5) by simp
qed

lemma hd_split_length: "NL \<notin> set q \<Longrightarrow> length q \<le> length (hd (split_on NL (q @ t)))"
  by (induction q) (auto split: list.split)

lemma last_line:
  obtains a q where "s = a @ q" "NL \<notin> set q" "a = [] \<or> (\<exists>p. a = p @ [NL])"
proof (cases "NL \<in> set s")
  case True
  then obtain p q where "s = p @ NL # q" "NL \<notin> set q" by (metis split_list_last)
  then show ?thesis using that [of "p @ [NL]" q] by simp
qed (use that [of "[]" s] in simp)

text \<open>
  C34: the report points at the error. For a span that starts on a character boundary of the source, it
  names a line and a column whose distance from the start of the source is where the span starts, shows
  that line, and puts a caret for each byte of the span, at least one, under the column.
\<close>

theorem error_display_locates:
  assumes "sp_start (pe_span err) \<le> length source" "is_char_boundary source (sp_start (pe_span err))"
  shows "\<exists>k col. k < length (split_on NL source) \<and> col \<le> length (split_on NL source ! k)
     \<and> sp_start (pe_span err) = length (concat (map (\<lambda>l. l @ [NL]) (take k (split_on NL source)))) + col
     \<and> error_display err source = Ok (report err (k + 1) col (split_on NL source ! k))"
proof -
  let ?start = "sp_start (pe_span err)"
  obtain a q where aq: "take ?start source = a @ q" "NL \<notin> set q" "a = [] \<or> (\<exists>p. a = p @ [NL])"
    by (rule last_line)
  let ?t = "q @ drop ?start source"
  have src: "source = a @ ?t" using aq(1) append_take_drop_id [of ?start source] by simp
  have start: "?start = length a + length q" using arg_cong [OF aq(1), of length] assms(1) by simp
  have rep: "error_display err source =
      Ok (report err (length (filter (\<lambda>c. c = NL) a) + 1) (length q) (hd (split_on NL ?t)))"
    using src aq(2,3) start assms(2) by (intro error_display_report) simp_all
  obtain ls where ls: "split_on NL source = ls @ split_on NL ?t" "length ls = length (filter (\<lambda>c. c = NL) a)"
      "concat (map (\<lambda>l. l @ [NL]) ls) = a"
  proof (cases "a = []")
    case True
    then show ?thesis using that [of "[]"] src by simp
  next
    case False
    then obtain p where "a = p @ [NL]" using aq(3) by blast
    then show ?thesis using that [of "split_on NL p"] src split_on_apart [of NL p ?t]
      by (simp add: split_on_count split_on_terminated)
  qed
  have "split_on NL source ! length ls = hd (split_on NL ?t)"
    by (simp add: ls(1) nth_append hd_conv_nth)
  then show ?thesis
    using rep ls hd_split_length [OF aq(2), of "drop ?start source"] start
    by - (rule exI [where x = "length ls"], rule exI [where x = "length q"], simp add: split_on_nonempty)
qed

theorem error_display_locates_witness:
  "error_display (ParseError (Span 6 2) ''bad'') (''ls'' @ [NL] @ ''a | | b'')
   = Ok (''parse error (line 2, col 3): bad'' @ [NL] @ ''  a | | b'' @ [NL] @ ''     ^^'')"
  (is "error_display ?e ?s = _")
proof -
  have ls: "split_on NL ?s = [''ls'', ''a | | b'']" by code_simp
  have "sp_start (pe_span ?e) \<le> length ?s" "is_char_boundary ?s (sp_start (pe_span ?e))" by code_simp+
  note located = error_display_locates [OF this, unfolded ls]
  obtain k col where k: "k < length [''ls'', ''a | | b'']" "col \<le> length ([''ls'', ''a | | b''] ! k)"
      "sp_start (pe_span ?e) = length (concat (map (\<lambda>l. l @ [NL]) (take k [''ls'', ''a | | b'']))) + col"
      "error_display ?e ?s = Ok (report ?e (k + 1) col ([''ls'', ''a | | b''] ! k))"
    using located by blast
  have "k = 1" using k(1-3) by (auto simp: less_Suc_eq numeral_2_eq_2)
  moreover from this have "col = 3" using k(3) by simp
  moreover have "report ?e (1 + 1) 3 ''a | | b'' = ''parse error (line 2, col 3): bad'' @ [NL] @ ''  a | | b'' @ [NL] @ ''     ^^''"
    by code_simp
  ultimately show ?thesis using k(4) by simp
qed

end
