(* ===== verification/Wasm.thy ===== *)
theory Wasm
  imports Exec Builtins
begin

text \<open>
  The JavaScript bindings (\<open>wasm.rs\<close>): mounts and programs made of JavaScript functions, and the shell
  object whose methods JavaScript calls. The JavaScript engine is code of the host: its values and
  functions are type parameters, and what the bindings ask of it are the fields of a record, acting
  on a heap \<open>'h\<close>, which is the host state of the filesystem. The bytes of a Rust string and of a
  \<open>Uint8Array\<close> are both strings.
\<close>

section \<open>The JavaScript engine\<close>

text \<open>
  What a JavaScript program does with the context it is given: it calls the methods of the context,
  works on the heap in between, and ends by throwing from the call itself, or with a promise that is
  rejected or resolved. A callback is one of the documented type, which returns a promise: the
  code casts what it returns without a check (\<open>Promise::from\<close>), and what a value that is no promise
  does then is a matter of the engine.
\<close>

datatype ctx_request =
    AskArgs | AskCwd | AskEnv | AskGetEnv string | AskSetEnv string string | AskUnsetEnv string
  | AskWriteStdout string | AskWriteStderr string | AskReadStdin

datatype ctx_answer =
    AnsStrings "string list" | AnsString string | AnsPairs "(string \<times> string) list"
  | AnsOption "string option" | AnsBytes string | AnsUnit

datatype ('h, 'v) js_program =
    Resolved 'v
  | Rejected 'v
  | CallThrew 'v
  | CtxCall ctx_request "ctx_answer \<Rightarrow> ('h, 'v) js_program"
  | OnHeap "'h \<Rightarrow> 'h \<times> ('h, 'v) js_program"

record ('h, 'v, 'f) Js =
  js_call :: "'f \<Rightarrow> 'v list \<Rightarrow> ('h, 'v, 'v) act"
  js_await :: "'v \<Rightarrow> ('h, 'v, 'v) act"
  js_program_of :: "'f \<Rightarrow> ('h, 'v) js_program"
  js_str :: "string \<Rightarrow> 'v"
  js_bytes :: "string \<Rightarrow> 'v"
  js_num :: "int \<Rightarrow> 'v"
  js_object :: "(string \<times> 'v) list \<Rightarrow> 'v"
  js_to_bytes :: "'v \<Rightarrow> string"
  js_to_list :: "'v \<Rightarrow> 'v list"
  js_get :: "'v \<Rightarrow> string \<Rightarrow> 'v + 'v"
  js_as_string :: "'v \<Rightarrow> string option"
  js_as_bool :: "'v \<Rightarrow> bool option"
  js_as_u64 :: "'v \<Rightarrow> nat option"
  js_as_i32 :: "'v \<Rightarrow> int option"
  js_as_function :: "'v \<Rightarrow> 'f option"
  js_debug :: "'v \<Rightarrow> string"

section \<open>Mounts\<close>

text \<open>The call of a function and the wait for its promise; either failure is a mount error.\<close>

definition js_mount_call :: "('h, 'v, 'f) Js \<Rightarrow> 'f \<Rightarrow> 'v list \<Rightarrow> ('h, 'v, VfsError) act" where
  "js_mount_call js f args =
     andThen (map_err (\<lambda>e. MountErr (js_debug js e)) (js_call js f args)) (\<lambda>promise.
     map_err (\<lambda>e. MountErr (js_debug js e)) (js_await js promise))"

record 'f JsMount =
  jm_read :: 'f
  jm_write :: 'f
  jm_list :: 'f
  jm_stat :: 'f
  jm_remove :: 'f

definition js_read :: "('h, 'v, 'f) Js \<Rightarrow> 'f JsMount \<Rightarrow> string \<Rightarrow> ('h, string, VfsError) act" where
  "js_read js m path =
     andThen (js_mount_call js (jm_read m) [js_str js path]) (\<lambda>result. ret (js_to_bytes js result))"

definition js_write :: "('h, 'v, 'f) Js \<Rightarrow> 'f JsMount \<Rightarrow> string \<Rightarrow> string \<Rightarrow> ('h, unit, VfsError) act" where
  "js_write js m path data =
     andThen (js_mount_call js (jm_write m) [js_str js path, js_bytes js data]) (\<lambda>_. ret ())"

definition js_list :: "('h, 'v, 'f) Js \<Rightarrow> 'f JsMount \<Rightarrow> string \<Rightarrow> ('h, string list, VfsError) act" where
  "js_list js m path =
     andThen (js_mount_call js (jm_list m) [js_str js path]) (\<lambda>result.
       ret (List.map_filter (js_as_string js) (js_to_list js result)))"

definition get_bool :: "('h, 'v, 'f) Js \<Rightarrow> 'v \<Rightarrow> string \<Rightarrow> bool" where
  "get_bool js result key =
     (case js_get js result key of
        Inr v \<Rightarrow> (case js_as_bool js v of Some b \<Rightarrow> b | None \<Rightarrow> False)
      | Inl _ \<Rightarrow> False)"

definition get_size :: "('h, 'v, 'f) Js \<Rightarrow> 'v \<Rightarrow> string \<Rightarrow> nat" where
  "get_size js result key =
     (case js_get js result key of
        Inr v \<Rightarrow> (case js_as_u64 js v of Some n \<Rightarrow> n | None \<Rightarrow> 0)
      | Inl _ \<Rightarrow> 0)"

definition js_stat :: "('h, 'v, 'f) Js \<Rightarrow> 'f JsMount \<Rightarrow> string \<Rightarrow> ('h, Stat, VfsError) act" where
  "js_stat js m path =
     andThen (js_mount_call js (jm_stat m) [js_str js path]) (\<lambda>result.
       ret \<lparr>is_file = get_bool js result ''isFile'', is_dir = get_bool js result ''isDir'',
            is_device = False, st_size = get_size js result ''size''\<rparr>)"

definition js_remove :: "('h, 'v, 'f) Js \<Rightarrow> 'f JsMount \<Rightarrow> string \<Rightarrow> ('h, unit, VfsError) act" where
  "js_remove js m path =
     andThen (js_mount_call js (jm_remove m) [js_str js path]) (\<lambda>_. ret ())"

definition js_mount_point :: "('h, 'v, 'f) Js \<Rightarrow> 'f JsMount \<Rightarrow> 'h MountPoint" where
  "js_mount_point js m =
     \<lparr>mp_read = js_read js m, mp_write = js_write js m, mp_list = js_list js m,
      mp_stat = js_stat js m, mp_remove = js_remove js m\<rparr>"

section \<open>Programs\<close>

text \<open>The methods of the context a JavaScript program is given.\<close>

fun ctx_answer_to :: "string list \<Rightarrow> ctx_request \<Rightarrow> ('h, ctx_answer) cact" where
  "ctx_answer_to args AskArgs = ret (AnsStrings args)"
| "ctx_answer_to args AskCwd = andThen ctx_cwd (\<lambda>s. ret (AnsString s))"
| "ctx_answer_to args AskEnv = andThen ctx_env_snapshot (\<lambda>env. ret (AnsPairs (env_to_vec env)))"
| "ctx_answer_to args (AskGetEnv k) = andThen (ctx_get_env k) (\<lambda>v. ret (AnsOption v))"
| "ctx_answer_to args (AskSetEnv k v) = andThen (ctx_set_env k v) (\<lambda>_. ret AnsUnit)"
| "ctx_answer_to args (AskUnsetEnv k) = andThen (ctx_unset_env k) (\<lambda>_. ret AnsUnit)"
| "ctx_answer_to args (AskWriteStdout data) = andThen (ctx_out data) (\<lambda>_. ret AnsUnit)"
| "ctx_answer_to args (AskWriteStderr data) = andThen (ctx_err data) (\<lambda>_. ret AnsUnit)"
| "ctx_answer_to args AskReadStdin = andThen ctx_read_stdin (\<lambda>data. ret (AnsBytes data))"

definition on_heap :: "('h \<Rightarrow> 'h \<times> ('h, 'a) cact) \<Rightarrow> ('h, 'a) cact" where
  "on_heap f = (\<lambda>c. case f (vfs_host (cx_fs c)) of (h, m) \<Rightarrow> m (c\<lparr>cx_fs := (cx_fs c)\<lparr>vfs_host := h\<rparr>\<rparr>))"

text \<open>The exit code is the number the promise resolves to, as an \<open>i32\<close>; 0 for anything else.\<close>

primrec run_js :: "('h, 'v, 'f) Js \<Rightarrow> string list \<Rightarrow> ('h, 'v) js_program \<Rightarrow> ('h, int) cact" where
  "run_js js args (Resolved v) = ret (case js_as_i32 js v of Some n \<Rightarrow> n | None \<Rightarrow> 0)"
| "run_js js args (Rejected v) = fail (IoE (''addProgram callback failed: '' @ js_debug js v))"
| "run_js js args (CallThrew v) = fail (IoE (''addProgram callback error: '' @ js_debug js v))"
| "run_js js args (CtxCall q k) = andThen (ctx_answer_to args q) (run_js js args \<circ> k)"
| "run_js js args (OnHeap f) = on_heap (map_prod id (run_js js args) \<circ> f)"

definition js_callback :: "('h, 'v, 'f) Js \<Rightarrow> 'f \<Rightarrow> 'h program" where
  "js_callback js f args = run_js js args (js_program_of js f)"

section \<open>The shell object\<close>

text \<open>\<open>ws_inner\<close> is empty while a script runs: \<open>exec\<close> takes the shell out and puts it back.\<close>

record ('h, 'f) WasmShell =
  ws_inner :: "'h Shell option"
  ws_stdout_cb :: "'f option"
  ws_stderr_cb :: "'f option"
  ws_stdin :: string

type_synonym ('h, 'f, 'v, 'a) wact = "(('h, 'f) WasmShell, 'a, 'v) act"

definition ws_new :: "Libs \<Rightarrow> 'h \<Rightarrow> ('h, 'f) WasmShell" where
  "ws_new lib h = \<lparr>ws_inner = Some (shell_new lib h), ws_stdout_cb = None, ws_stderr_cb = None, ws_stdin = []\<rparr>"

definition ws_is_available :: "('h, 'f) WasmShell \<Rightarrow> bool" where
  "ws_is_available ws = (ws_inner ws \<noteq> None)"

text \<open>Running a change of the shell that is there, or panicking: \<open>expect\<close> on the borrowed option.\<close>

definition ws_expect :: "('h Shell \<Rightarrow> 'h Shell) \<Rightarrow> ('h, 'f, 'v, unit) wact" where
  "ws_expect f = (\<lambda>ws. case ws_inner ws of
      None \<Rightarrow> (Panic, ws)
    | Some sh \<Rightarrow> (Ok (), ws\<lparr>ws_inner := Some (f sh)\<rparr>))"

definition ws_add_program :: "('h, 'v, 'f) Js \<Rightarrow> string \<Rightarrow> 'f \<Rightarrow> ('h, 'f, 'v, unit) wact" where
  "ws_add_program js name callback = ws_expect (add_program name (js_callback js callback))"

definition get_fn :: "('h, 'v, 'f) Js \<Rightarrow> 'v \<Rightarrow> string \<Rightarrow> ('h, 'f, 'v, 'f) wact" where
  "get_fn js options key =
     (case js_get js options key of
        Inl e \<Rightarrow> fail e
      | Inr val \<Rightarrow> (case js_as_function js val of
          Some f \<Rightarrow> ret f
        | None \<Rightarrow> fail (js_str js (''mount option `'' @ key @ ''` is not a function''))))"

definition ws_mount :: "('h, 'v, 'f) Js \<Rightarrow> string \<Rightarrow> 'v \<Rightarrow> ('h, 'f, 'v, unit) wact" where
  "ws_mount js virtual_path options =
     andThen (get_fn js options ''read'') (\<lambda>r.
     andThen (get_fn js options ''write'') (\<lambda>w.
     andThen (get_fn js options ''list'') (\<lambda>l.
     andThen (get_fn js options ''stat'') (\<lambda>s.
     andThen (get_fn js options ''remove'') (\<lambda>d.
     ws_expect (mount virtual_path
       (js_mount_point js \<lparr>jm_read = r, jm_write = w, jm_list = l, jm_stat = s, jm_remove = d\<rparr>)))))))"

text \<open>
  \<open>exec\<close> up to its wait: the shell and the input are taken. After it: the shell is put back whether the
  script succeeded or not, the callbacks get the output that is not empty and their failures are
  dropped, and the result is an object. A panic in between never gets to the second part.
\<close>

definition ws_exec_begin :: "('h, 'v, 'f) Js \<Rightarrow> ('h, 'f, 'v, 'h Shell \<times> string) wact" where
  "ws_exec_begin js = (\<lambda>ws. case ws_inner ws of
      None \<Rightarrow> (Err (js_str js ''shell is busy: exec is already running''), ws)
    | Some sh \<Rightarrow> (Ok (sh, ws_stdin ws), ws\<lparr>ws_inner := None, ws_stdin := []\<rparr>))"

definition deliver :: "('h, 'v, 'f) Js \<Rightarrow> 'f option \<Rightarrow> string \<Rightarrow> 'h Shell \<Rightarrow> 'h Shell" where
  "deliver js cb data sh = (case cb of
      None \<Rightarrow> sh
    | Some f \<Rightarrow>
        if data = [] then sh
        else sh\<lparr>sh_fs := (sh_fs sh)\<lparr>vfs_host := snd (js_call js f [js_bytes js data] (vfs_host (sh_fs sh)))\<rparr>\<rparr>)"

definition exec_object :: "('h, 'v, 'f) Js \<Rightarrow> ExecOutput \<Rightarrow> 'v" where
  "exec_object js output =
     js_object js [(''code'', js_num js (eo_code output)), (''stdout'', js_bytes js (eo_stdout output)),
       (''stderr'', js_bytes js (eo_stderr output))]"

definition ws_exec_end :: "('h, 'v, 'f) Js \<Rightarrow> ExecOutput + ShellError \<Rightarrow> 'h Shell \<Rightarrow> ('h, 'f, 'v, 'v) wact" where
  "ws_exec_end js result sh = (\<lambda>ws. case result of
      Inr e \<Rightarrow> (Err (js_str js (show_shell_error e)), ws\<lparr>ws_inner := Some sh\<rparr>)
    | Inl output \<Rightarrow>
        (Ok (exec_object js output),
         ws\<lparr>ws_inner := Some (deliver js (ws_stderr_cb ws) (eo_stderr output)
              (deliver js (ws_stdout_cb ws) (eo_stdout output) sh))\<rparr>))"

text \<open>\<open>exec\<close> when nothing else happens during its wait.\<close>

definition ws_exec :: "('h, 'v, 'f) Js \<Rightarrow> bool \<Rightarrow> nat \<Rightarrow> string \<Rightarrow> ('h, 'f, 'v, 'v) wact" where
  "ws_exec js oc d source_text =
     andThen (ws_exec_begin js) (\<lambda>(sh, stdin).
       case exec_with_stdin oc d source_text stdin sh of
         (Ok output, sh') \<Rightarrow> ws_exec_end js (Inl output) sh'
       | (Err e, sh') \<Rightarrow> ws_exec_end js (Inr e) sh'
       | (Panic, _) \<Rightarrow> panic
       | (OutOfFuel, _) \<Rightarrow> noFuel
       | (SourceLimit, _) \<Rightarrow> lift_outcome SourceLimit)"

definition ws_on_stdout :: "'f \<Rightarrow> ('h, 'f, 'v, unit) wact" where
  "ws_on_stdout callback = modify (\<lambda>ws. ws\<lparr>ws_stdout_cb := Some callback\<rparr>)"

definition ws_on_stderr :: "'f \<Rightarrow> ('h, 'f, 'v, unit) wact" where
  "ws_on_stderr callback = modify (\<lambda>ws. ws\<lparr>ws_stderr_cb := Some callback\<rparr>)"

definition ws_set_stdin :: "string \<Rightarrow> ('h, 'f, 'v, unit) wact" where
  "ws_set_stdin data = modify (\<lambda>ws. ws\<lparr>ws_stdin := data\<rparr>)"

text \<open>Access to the filesystem: an error while a script runs.\<close>

definition ws_vfs :: "('h, 'v, 'f) Js \<Rightarrow> ('h, 'a) vact \<Rightarrow> ('h, 'f, 'v, 'a) wact" where
  "ws_vfs js m = (\<lambda>ws. case ws_inner ws of
      None \<Rightarrow> (Err (js_str js ''shell is busy''), ws)
    | Some sh \<Rightarrow> (case map_err (\<lambda>e. js_str js (show_vfs_error e)) (sh_vfs m) sh of
        (r, sh') \<Rightarrow> (r, ws\<lparr>ws_inner := Some sh'\<rparr>)))"

definition ws_read_file :: "('h, 'v, 'f) Js \<Rightarrow> string \<Rightarrow> ('h, 'f, 'v, 'v) wact" where
  "ws_read_file js path = andThen (ws_vfs js (read_file path)) (\<lambda>data. ret (js_bytes js data))"

definition ws_write_file :: "('h, 'v, 'f) Js \<Rightarrow> string \<Rightarrow> string \<Rightarrow> ('h, 'f, 'v, unit) wact" where
  "ws_write_file js path data = ws_vfs js (write_file path data)"

definition ws_set_env :: "string \<Rightarrow> string \<Rightarrow> ('h, 'f, 'v, unit) wact" where
  "ws_set_env k v = ws_expect (set_env k v)"

definition ws_get_env :: "string \<Rightarrow> ('h, 'f, 'v, string option) wact" where
  "ws_get_env k = gets (\<lambda>ws. Option.bind (ws_inner ws) (get_env k))"

definition ws_get_cwd :: "('h, 'f, 'v, string) wact" where
  "ws_get_cwd = gets (\<lambda>ws. case ws_inner ws of Some sh \<Rightarrow> sh_cwd sh | None \<Rightarrow> [])"

definition ws_set_cwd :: "string \<Rightarrow> ('h, 'f, 'v, unit) wact" where
  "ws_set_cwd path =
     modify (\<lambda>ws. ws\<lparr>ws_inner := map_option (\<lambda>sh. sh\<lparr>sh_cwd := normalize_path path\<rparr>) (ws_inner ws)\<rparr>)"

end
