(* ===== verification/WasmFacts.thy ===== *)
theory WasmFacts
  imports Wasm ShellSafety
begin

text \<open>
  The shell object under interleaving. A script runs between the two parts of \<open>exec\<close>, and other calls
  of JavaScript come in between. The steps of the object are a relation; its reachable states have at
  most one script running, and what JavaScript sees is one shell on which the calls act one after the
  other. Programs and mounts made of JavaScript functions keep the contracts of the shell.
\<close>

section \<open>The steps of the shell object\<close>

text \<open>The calls that are not \<open>exec\<close>.\<close>

datatype ('v, 'f) request =
    AddProgram string 'f | Mount string 'v | OnStdout 'f | OnStderr 'f | SetStdin string
  | ReadFile string | WriteFile string string | SetEnv string string | GetEnv string
  | SetCwd string | GetCwd

definition state_after :: "('h, 'v, 'f) Js \<Rightarrow> ('h, 'f, 'v, 'a) wact \<Rightarrow> ('h, 'f) WasmShell \<Rightarrow> ('h, 'f) WasmShell" where
  "state_after js m ws = snd (m ws)"

fun after_request :: "('h, 'v, 'f) Js \<Rightarrow> ('v, 'f) request \<Rightarrow> ('h, 'f) WasmShell \<Rightarrow> ('h, 'f) WasmShell" where
  "after_request js (AddProgram name f) ws = state_after js (ws_add_program js name f) ws"
| "after_request js (Mount p options) ws = state_after js (ws_mount js p options) ws"
| "after_request js (OnStdout f) ws = state_after js (ws_on_stdout f) ws"
| "after_request js (OnStderr f) ws = state_after js (ws_on_stderr f) ws"
| "after_request js (SetStdin data) ws = state_after js (ws_set_stdin data) ws"
| "after_request js (ReadFile p) ws = state_after js (ws_read_file js p) ws"
| "after_request js (WriteFile p data) ws = state_after js (ws_write_file js p data) ws"
| "after_request js (SetEnv k v) ws = state_after js (ws_set_env k v) ws"
| "after_request js (GetEnv k) ws = state_after js (ws_get_env k) ws"
| "after_request js (SetCwd p) ws = state_after js (ws_set_cwd p) ws"
| "after_request js GetCwd ws = state_after js (ws_get_cwd) ws"

text \<open>The object with the scripts that are running: each its text, its input and the shell it took.\<close>

record 'h running =
  run_source :: string
  run_stdin :: string
  run_shell :: "'h Shell"

record ('h, 'f) system =
  sys_ws :: "('h, 'f) WasmShell"
  sys_running :: "'h running list"
  sys_trapped :: bool

text \<open>JavaScript running on its own: the heap of the host is another one, wherever the shell is.\<close>

definition with_heap :: "'h \<Rightarrow> 'h Shell \<Rightarrow> 'h Shell" where
  "with_heap h sh = sh\<lparr>sh_fs := (sh_fs sh)\<lparr>vfs_host := h\<rparr>\<rparr>"

definition host_runs :: "'h \<Rightarrow> ('h, 'f) system \<Rightarrow> ('h, 'f) system" where
  "host_runs h s =
     s\<lparr>sys_ws := (sys_ws s)\<lparr>ws_inner := map_option (with_heap h) (ws_inner (sys_ws s))\<rparr>,
       sys_running := map (\<lambda>r. r\<lparr>run_shell := with_heap h (run_shell r)\<rparr>) (sys_running s)\<rparr>"

text \<open>
  A script takes effect when it finishes. A call that panics because the shell is away leaves the object
  as it is: the generated glue refuses a method that needs the object for itself while \<open>exec\<close> borrows it.
\<close>

inductive wstep :: "('h, 'v, 'f) Js \<Rightarrow> bool \<Rightarrow> nat \<Rightarrow> ('h, 'f) system \<Rightarrow> ('h, 'f) system \<Rightarrow> bool"
  for js oc d where
  host: "wstep js oc d s (host_runs h s)"
| request: "wstep js oc d s (s\<lparr>sys_ws := after_request js q (sys_ws s)\<rparr>)"
| begin_exec: "ws_exec_begin js (sys_ws s) = (Ok (sh, stdin), ws) \<Longrightarrow>
     wstep js oc d s (s\<lparr>sys_ws := ws, sys_running := \<lparr>run_source = src, run_stdin = stdin, run_shell = sh\<rparr> # sys_running s\<rparr>)"
| refuse: "ws_exec_begin js (sys_ws s) = (Err e, ws) \<Longrightarrow> wstep js oc d s (s\<lparr>sys_ws := ws\<rparr>)"
| finish: "sys_running s = xs @ r # ys \<Longrightarrow>
     exec_with_stdin oc d (run_source r) (run_stdin r) (run_shell r) = (Ok res, sh) \<Longrightarrow>
     wstep js oc d s (s\<lparr>sys_ws := snd (ws_exec_end js (Inl res) sh (sys_ws s)), sys_running := xs @ ys\<rparr>)"
| finish_error: "sys_running s = xs @ r # ys \<Longrightarrow>
     exec_with_stdin oc d (run_source r) (run_stdin r) (run_shell r) = (Err e, sh) \<Longrightarrow>
     wstep js oc d s (s\<lparr>sys_ws := snd (ws_exec_end js (Inr e) sh (sys_ws s)), sys_running := xs @ ys\<rparr>)"
| trap: "sys_running s = xs @ r # ys \<Longrightarrow>
     exec_with_stdin oc d (run_source r) (run_stdin r) (run_shell r) = (Panic, sh) \<Longrightarrow>
     wstep js oc d s (s\<lparr>sys_running := xs @ ys, sys_trapped := True\<rparr>)"

definition sys_init :: "Libs \<Rightarrow> 'h \<Rightarrow> ('h, 'f) system" where
  "sys_init lib h = \<lparr>sys_ws = ws_new lib h, sys_running = [], sys_trapped = False\<rparr>"

inductive reachable :: "('h, 'v, 'f) Js \<Rightarrow> bool \<Rightarrow> nat \<Rightarrow> Libs \<Rightarrow> 'h \<Rightarrow> ('h, 'f) system \<Rightarrow> bool"
  for js oc d lib h where
  initial: "reachable js oc d lib h (sys_init lib h)"
| step: "reachable js oc d lib h s \<Longrightarrow> wstep js oc d s t \<Longrightarrow> reachable js oc d lib h t"

section \<open>One script at a time\<close>

text \<open>A call that is not \<open>exec\<close> neither takes the shell nor puts one back.\<close>

lemma bind_get_fn:
  "P ws \<Longrightarrow> (\<And>f. P (snd (k f ws))) \<Longrightarrow> P (snd (andThen (get_fn js options key) k ws))"
  by (simp add: get_fn_def andThen_def split: sum.split option.split)

lemma mount_effect:
  "snd (ws_mount js p options ws) = ws
   \<or> (\<exists>sh m. ws_inner ws = Some sh \<and> snd (ws_mount js p options ws) = ws\<lparr>ws_inner := Some (mount p (js_mount_point js m) sh)\<rparr>)"
  unfolding ws_mount_def
  by (rule bind_get_fn, simp)+ (auto simp: ws_expect_def split: option.split)

lemma ws_vfs_state:
  "snd (ws_vfs js m ws) = (case ws_inner ws of None \<Rightarrow> ws | Some sh \<Rightarrow> ws\<lparr>ws_inner := Some (snd (sh_vfs m sh))\<rparr>)"
  by (auto simp: ws_vfs_def map_err_def split: option.split prod.split)

lemma andThen_ret_state: "snd (andThen m (\<lambda>x. ret (f x)) s) = snd (m s)"
  by (simp add: andThen_def split: prod.split outcome.split)

text \<open>
  The effect of a call on the shell that is there: nothing, or one of the changes a Rust caller could
  have made to it.
\<close>

inductive shell_call :: "('h, 'v, 'f) Js \<Rightarrow> 'h Shell \<Rightarrow> 'h Shell \<Rightarrow> bool" for js where
  call_nothing: "shell_call js sh sh"
| call_host: "shell_call js sh (with_heap h sh)"
| call_add: "shell_call js sh (add_program name (js_callback js f) sh)"
| call_mount: "shell_call js sh (mount p (js_mount_point js m) sh)"
| call_read: "shell_call js sh (snd (sh_vfs (read_file p) sh))"
| call_write: "shell_call js sh (snd (sh_vfs (write_file p data) sh))"
| call_env: "shell_call js sh (set_env k v sh)"
| call_cwd: "shell_call js sh (sh\<lparr>sh_cwd := normalize_path p\<rparr>)"

lemma request_effect:
  "(ws_inner ws = None \<and> ws_inner (after_request js q ws) = None)
   \<or> (\<exists>sh sh'. ws_inner ws = Some sh \<and> ws_inner (after_request js q ws) = Some sh' \<and> shell_call js sh sh')"
proof (cases q)
  case (Mount p options)
  then show ?thesis
    using mount_effect [of js p options ws]
    by (cases "ws_inner ws") (auto simp: state_after_def intro: shell_call.intros)
next
  case (AddProgram name f)
  then show ?thesis
    by (cases "ws_inner ws") (auto simp: state_after_def ws_add_program_def ws_expect_def intro: shell_call.intros)
next
  case (ReadFile p)
  then show ?thesis
    by (cases "ws_inner ws") (auto simp: state_after_def ws_read_file_def andThen_ret_state ws_vfs_state intro: shell_call.intros)
next
  case (WriteFile p data)
  then show ?thesis
    by (cases "ws_inner ws") (auto simp: state_after_def ws_write_file_def ws_vfs_state intro: shell_call.intros)
next
  case (SetEnv k v)
  then show ?thesis
    by (cases "ws_inner ws") (auto simp: state_after_def ws_set_env_def ws_expect_def intro: shell_call.intros)
next
  case (SetCwd p)
  then show ?thesis
    by (cases "ws_inner ws") (auto simp: state_after_def ws_set_cwd_def intro: shell_call.intros)
qed (auto simp: state_after_def ws_on_stdout_def ws_on_stderr_def ws_set_stdin_def
      ws_get_env_def ws_get_cwd_def call_nothing)

lemma exec_begin_cases:
  "ws_exec_begin js ws = (r, ws') \<Longrightarrow>
     (ws_inner ws = None \<and> ws' = ws \<and> (\<exists>e. r = Err e))
   \<or> (\<exists>sh. ws_inner ws = Some sh \<and> r = Ok (sh, ws_stdin ws) \<and> ws' = ws\<lparr>ws_inner := None, ws_stdin := []\<rparr>)"
  by (cases "ws_inner ws") (auto simp: ws_exec_begin_def)

lemma exec_end_inner: "\<exists>sh'. ws_inner (snd (ws_exec_end js result sh ws)) = Some sh'"
  by (simp add: ws_exec_end_def split: sum.split)

text \<open>The invariant: a running script and a shell that is there exclude each other.\<close>

definition exclusive :: "('h, 'f) system \<Rightarrow> bool" where
  "exclusive s \<longleftrightarrow> (if sys_trapped s then sys_running s = [] \<and> ws_inner (sys_ws s) = None
     else (\<exists>sh. ws_inner (sys_ws s) = Some sh) \<and> sys_running s = []
       \<or> ws_inner (sys_ws s) = None \<and> (\<exists>r. sys_running s = [r]))"

lemma exclusive_init: "exclusive (sys_init lib h)"
  by (simp add: exclusive_def sys_init_def ws_new_def)

lemma wstep_exclusive: "wstep js oc d s t \<Longrightarrow> exclusive s \<Longrightarrow> exclusive t"
proof (induction rule: wstep.induct)
  case (host s h)
  then show ?case by (auto simp: exclusive_def host_runs_def split: if_splits)
next
  case (request s q)
  then show ?case using request_effect [of "sys_ws s" js q] by (auto simp: exclusive_def split: if_splits)
next
  case (begin_exec s sh stdin ws src)
  then show ?case using exec_begin_cases [OF begin_exec(1)] by (auto simp: exclusive_def split: if_splits)
next
  case (refuse s e ws)
  then show ?case using exec_begin_cases [OF refuse(1)] by (auto simp: exclusive_def split: if_splits)
next
  case (finish s xs r ys res sh)
  then show ?case
    using exec_end_inner [of js "Inl res" sh "sys_ws s"] by (auto simp: exclusive_def append_eq_Cons_conv split: if_splits)
next
  case (finish_error s xs r ys e sh)
  then show ?case
    using exec_end_inner [of js "Inr e" sh "sys_ws s"] by (auto simp: exclusive_def append_eq_Cons_conv split: if_splits)
next
  case (trap s xs r ys sh)
  then show ?case by (auto simp: exclusive_def append_eq_Cons_conv split: if_splits)
qed

lemma reachable_exclusive: "reachable js oc d lib h s \<Longrightarrow> exclusive s"
  by (induction rule: reachable.induct) (auto intro: exclusive_init wstep_exclusive)

inductive_cases trapped_step: "wstep js oc d s t"

text \<open>
  C19: one script at a time. However JavaScript interleaves its calls with the scripts that run, at most
  one script is running; the shell is available exactly when none is and none has panicked; and while it
  is not, a call of \<open>exec\<close> is refused and leaves the object as it is, the input for the next script
  included.
\<close>

theorem exec_exclusive:
  assumes "reachable js oc d lib h s"
  shows "length (sys_running s) \<le> 1
     \<and> (ws_is_available (sys_ws s) \<longleftrightarrow> sys_running s = [] \<and> \<not> sys_trapped s)
     \<and> (\<not> ws_is_available (sys_ws s) \<longrightarrow>
         ws_exec_begin js (sys_ws s) = (Err (js_str js ''shell is busy: exec is already running''), sys_ws s))"
  using reachable_exclusive [OF assms]
  by (auto simp: exclusive_def ws_is_available_def ws_exec_begin_def split: if_splits)

text \<open>
  C39: a panic wedges the object. If a script panics, the shell it took is never put back: from then on,
  whatever JavaScript calls, the shell is not available and every script is refused.
\<close>

theorem trap_is_final:
  assumes "reachable js oc d lib h s" "sys_trapped s" "(wstep js oc d)\<^sup>*\<^sup>* s t"
  shows "sys_trapped t \<and> \<not> ws_is_available (sys_ws t) \<and> \<not> (\<exists>r ws. ws_exec_begin js (sys_ws t) = (Ok r, ws))"
proof -
  have keep: "sys_trapped u \<Longrightarrow> wstep js oc d u v \<Longrightarrow> sys_trapped v" for u v
    by (auto elim: trapped_step simp: host_runs_def)
  from assms(3,1,2) have "reachable js oc d lib h t \<and> sys_trapped t"
    by (induction rule: rtranclp_induct) (auto intro: reachable.step keep)
  then show ?thesis
    using reachable_exclusive [of js oc d lib h t] by (auto simp: exclusive_def ws_is_available_def ws_exec_begin_def)
qed

section \<open>One shell\<close>

text \<open>The shell JavaScript has, wherever it is: in the object, or with the script that took it.\<close>

definition sys_shell :: "('h, 'f) system \<Rightarrow> 'h Shell option" where
  "sys_shell s = (case ws_inner (sys_ws s) of
      Some sh \<Rightarrow> Some sh
    | None \<Rightarrow> (case sys_running s of [] \<Rightarrow> None | r # _ \<Rightarrow> Some (run_shell r)))"

text \<open>
  The shell as a sequential object: a script runs at once, on the input and to the end, and its output
  is then delivered.
\<close>

inductive shell_does :: "('h, 'v, 'f) Js \<Rightarrow> bool \<Rightarrow> nat \<Rightarrow> 'h Shell \<Rightarrow> 'h Shell \<Rightarrow> bool" for js oc d where
  does_call: "shell_call js sh sh' \<Longrightarrow> shell_does js oc d sh sh'"
| does_exec: "exec_with_stdin oc d src stdin sh = (Ok res, sh') \<Longrightarrow>
     shell_does js oc d sh (deliver js ecb (eo_stderr res) (deliver js ocb (eo_stdout res) sh'))"
| does_fail: "exec_with_stdin oc d src stdin sh = (Err e, sh') \<Longrightarrow> shell_does js oc d sh sh'"

lemma wstep_does:
  assumes "wstep js oc d s t" "exclusive s" "sys_shell s = Some sh"
  shows "sys_shell t = None \<or> (\<exists>sh'. sys_shell t = Some sh' \<and> shell_does js oc d sh sh')"
  using assms
proof (induction rule: wstep.induct)
  case (host s h)
  then show ?case by (auto simp: sys_shell_def host_runs_def intro!: does_call call_host split: option.splits list.splits)
next
  case (request s q)
  show ?case
  proof (cases "ws_inner (sys_ws s)")
    case None
    then show ?thesis
      using request request_effect [of "sys_ws s" js q] by (auto simp: sys_shell_def intro: does_call call_nothing)
  next
    case (Some x)
    then show ?thesis
      using request request_effect [of "sys_ws s" js q] by (auto simp: sys_shell_def intro: does_call)
  qed
next
  case (begin_exec s sh0 stdin ws src)
  then show ?case
    using exec_begin_cases [OF begin_exec(1)] by (auto simp: sys_shell_def intro: does_call call_nothing)
next
  case (refuse s e ws)
  then show ?case
    using exec_begin_cases [OF refuse(1)] by (auto simp: sys_shell_def intro: does_call call_nothing)
next
  case (finish s xs r ys res sh0)
  then have "sys_running s = [r]" "sh = run_shell r"
    by (auto simp: exclusive_def sys_shell_def append_eq_Cons_conv split: if_splits option.splits)
  then show ?case using finish(2) by (auto simp: sys_shell_def ws_exec_end_def intro: does_exec)
next
  case (finish_error s xs r ys e sh0)
  then have "sys_running s = [r]" "sh = run_shell r"
    by (auto simp: exclusive_def sys_shell_def append_eq_Cons_conv split: if_splits option.splits)
  then show ?case using finish_error(2) by (auto simp: sys_shell_def ws_exec_end_def intro: does_fail)
next
  case (trap s xs r ys sh0)
  then show ?case
    by (auto simp: exclusive_def sys_shell_def append_eq_Cons_conv split: if_splits option.splits)
qed

text \<open>
  Whatever calls come in while scripts run, the shell JavaScript has is one that a sequence of calls and of
  whole scripts, one after the other, makes of the new shell.
\<close>

lemma reachable_refines:
  assumes "reachable js oc d lib h s" "sys_shell s = Some sh"
  shows "(shell_does js oc d)\<^sup>*\<^sup>* (shell_new lib h) sh"
  using assms
proof (induction arbitrary: sh rule: reachable.induct)
  case initial
  then show ?case by (simp add: sys_shell_def sys_init_def ws_new_def)
next
  case (step s t)
  have ex: "exclusive s" by (rule reachable_exclusive [OF step(1)])
  show ?case
  proof (cases "sys_shell s")
    case None
    then have "sys_trapped s" using ex by (auto simp: exclusive_def sys_shell_def split: if_splits)
    then have "sys_trapped t" "exclusive t" using step(2) ex wstep_exclusive by (auto elim: trapped_step simp: host_runs_def)
    then show ?thesis using step(4) by (auto simp: exclusive_def sys_shell_def)
  next
    case (Some sh0)
    then have "shell_does js oc d sh0 sh" using wstep_does [OF step(2) ex Some] step(4) by auto
    with step(3) [OF Some] show ?thesis by (rule rtranclp.rtrancl_into_rtrancl)
  qed
qed

section \<open>Mounts and programs of JavaScript\<close>

text \<open>Calling a function and waiting for a promise come back, with a value or a thrown one.\<close>

definition js_settles :: "('h, 'v, 'f) Js \<Rightarrow> bool" where
  "js_settles js \<longleftrightarrow> (\<forall>f args h. returns (fst (js_call js f args h))) \<and> (\<forall>v h. returns (fst (js_await js v h)))"

lemma returns_andThen: "returns (fst (m s)) \<Longrightarrow> (\<And>x s'. returns (fst (f x s'))) \<Longrightarrow> returns (fst (andThen m f s))"
  by (cases "m s"; cases "fst (m s)") (auto simp: andThen_def returns_def)

lemma returns_map_err [simp]: "returns (fst (map_err g m s)) = returns (fst (m s))"
  by (cases "m s"; cases "fst (m s)") (auto simp: map_err_def returns_def)

lemma js_mount_returns: "js_settles js \<Longrightarrow> mount_returns (js_mount_point js m)"
  unfolding mount_returns_def js_mount_point_def js_read_def js_write_def js_list_def js_stat_def js_remove_def js_mount_call_def
  by (auto intro!: returns_andThen simp: js_settles_def)

text \<open>
  A program made of a JavaScript function changes no file, no mount, neither the directory nor the
  aliases, and only appends to the streams.
\<close>

definition confined :: "'h ProgramContext \<Rightarrow> 'h ProgramContext \<Rightarrow> bool" where
  "confined c c' \<longleftrightarrow> vfs_root (cx_fs c') = vfs_root (cx_fs c) \<and> vfs_mounts (cx_fs c') = vfs_mounts (cx_fs c)
     \<and> cx_cwd c' = cx_cwd c \<and> cx_aliases c' = cx_aliases c \<and> grows (cx_bufs c) (cx_bufs c')
     \<and> io_stdout (cx_io c') = io_stdout (cx_io c) \<and> io_stderr (cx_io c') = io_stderr (cx_io c)"

interpretation confining: step_contract "\<lambda>_. True" confined "{KOk, KErr}"
  by unfold_locales (auto simp: confined_def intro: grows_trans)

lemma answer_confined: "upholds (\<lambda>_. True) confined {KOk, KErr} (ctx_answer_to args q)"
proof -
  have local: "(\<And>c. confined c (f c)) \<Longrightarrow> upholds (\<lambda>_. True) confined {KOk, KErr} (modify f)" for f :: "'h ProgramContext \<Rightarrow> 'h ProgramContext"
    by (simp add: upholds_def upholds_at_def)
  have steps: "upholds (\<lambda>_. True) confined {KOk, KErr} (ctx_set_env k v)" "upholds (\<lambda>_. True) confined {KOk, KErr} (ctx_unset_env k)"
    "upholds (\<lambda>_. True) confined {KOk, KErr} (ctx_out s)" "upholds (\<lambda>_. True) confined {KOk, KErr} (ctx_err s)" for k v s
    unfolding ctx_set_env_def ctx_unset_env_def ctx_out_def ctx_err_def by (rule local; simp add: confined_def)+
  have stdin: "upholds (\<lambda>_. True) confined {KOk, KErr} ctx_read_stdin"
    by (auto simp: upholds_def upholds_at_def ctx_read_stdin_def confined_def split: prod.split)
  show ?thesis
    by (cases q) (auto simp: ctx_cwd_def ctx_env_snapshot_def ctx_get_env_def intro!: confining.up_andThen
        confining.up_gets confining.up_ret steps stdin)
qed

lemma run_js_confined: "upholds (\<lambda>_. True) confined {KOk, KErr} (run_js js args p)"
proof (induction p)
  case (CtxCall q k)
  then show ?case by (auto intro!: confining.up_andThen answer_confined)
next
  case (OnHeap f)
  have "upholds_at (\<lambda>_. True) confined {KOk, KErr} (run_js js args (OnHeap f)) c" for c
  proof -
    obtain h p where f: "f (vfs_host (cx_fs c)) = (h, p)" by fastforce
    let ?c = "c\<lparr>cx_fs := (cx_fs c)\<lparr>vfs_host := h\<rparr>\<rparr>"
    have "upholds_at (\<lambda>_. True) confined {KOk, KErr} (run_js js args p) ?c"
      using OnHeap [of "f (vfs_host (cx_fs c))" p] f rangeI [of f "vfs_host (cx_fs c)"] by (simp add: upholds_def)
    then show ?thesis by (simp add: on_heap_def f upholds_at_def confined_def)
  qed
  then show ?case by (simp add: upholds_def)
qed (simp_all add: confining.up_Pair)

lemma js_callback_confined: "upholds_at (\<lambda>_. True) confined {KOk, KErr} (js_callback js f args) c"
  unfolding js_callback_def by (rule upholdsD [OF run_js_confined]) simp

lemma host_run_confined: "confined c (snd (js_callback js f args c))"
  using js_callback_confined [of js f args c] by (simp add: upholds_at_def)

text \<open>An error of the run is one of the binding itself: no method of the context has one.\<close>

lemma answer_ok: "\<exists>a. fst (ctx_answer_to args q c) = Ok a"
  by (cases q) (auto simp: ctx_cwd_def ctx_env_snapshot_def ctx_get_env_def ctx_set_env_def ctx_unset_env_def
      ctx_out_def ctx_err_def ctx_read_stdin_def andThen_def split: prod.split)

lemma run_js_error: "fst (run_js js args p c) = Err e \<Longrightarrow> \<exists>msg. e = IoE msg"
proof (induction p arbitrary: c)
  case (CtxCall q k)
  obtain a c' where "ctx_answer_to args q c = (Ok a, c')"
    using answer_ok [of args q c] by (metis prod.collapse)
  then show ?case using CtxCall.prems CtxCall.IH [OF rangeI] by (simp add: andThen_def)
next
  case (OnHeap f)
  obtain h p where f: "f (vfs_host (cx_fs c)) = (h, p)" by fastforce
  then have "(h, p) \<in> range f" by (metis rangeI)
  then show ?case using OnHeap.prems OnHeap.IH [of "(h, p)" p] by (simp add: on_heap_def f)
qed auto

text \<open>
  C20: a host program is confined. Whatever a JavaScript function registered as a program does with its
  context, the run comes back with an exit code or an error, never a panic; no file, mount, directory
  or alias has changed, and the streams have only been appended to. What it can change is the
  environment, the input it has read, and the heap of the host.
\<close>

theorem host_program_confined:
  "(case fst (js_callback js f args c) of Ok _ \<Rightarrow> True | Err e \<Rightarrow> (\<exists>msg. e = IoE msg) | _ \<Rightarrow> False)
   \<and> confined c (snd (js_callback js f args c))"
  using js_callback_confined [of js f args c] run_js_error [of js args "js_program_of js f" c]
  by (cases "fst (js_callback js f args c)") (auto simp: upholds_at_def js_callback_def)

lemma js_callback_good: "good_program fs_ok same_mounts L (js_callback js f)"
  if "{KOk, KErr} \<subseteq> L"
proof -
  have "ctx_inv fs_ok (snd (js_callback js f args c))" if "ctx_inv fs_ok c" for args c
    using that host_run_confined [of c js f args] by (simp add: ctx_inv_def fs_ok_def confined_def vfs_ok_def)
  moreover have "ctx_rel same_mounts c (snd (js_callback js f args c))" for args c
    using host_run_confined [of c js f args] by (simp add: ctx_rel_def same_mounts_def confined_def)
  moreover have "kind_of (fst (js_callback js f args c)) \<in> L" for args c
    using js_callback_confined [of js f args c] that by (auto simp: upholds_at_def)
  ultimately show ?thesis by (simp add: good_program_def upholds_def upholds_at_def)
qed

section \<open>The shell of the object stays well formed\<close>

abbreviation object_inv :: "'h Shell \<Rightarrow> bool" where
  "object_inv \<equiv> shell_inv fs_ok same_mounts UNIV"

lemma sh_vfs_inv: "upholds fs_ok same_mounts UNIV m \<Longrightarrow> object_inv sh \<Longrightarrow> object_inv (snd (sh_vfs m sh))"
  using upholdsD [OF any_fs.lift_shell] by (auto simp: upholds_at_def)

lemma call_keeps: "shell_call js sh sh' \<Longrightarrow> js_settles js \<Longrightarrow> object_inv sh \<Longrightarrow> object_inv sh'"
proof (induction rule: shell_call.induct)
  case (call_add sh name f)
  then show ?case by (simp add: shell_inv_def add_program_def registry_add_def js_callback_good)
next
  case (call_mount sh p m)
  then show ?case by (auto simp: shell_inv_def mount_def fs_ok_def add_mount_def Let_def vfs_ok_def js_mount_returns
        split: if_splits)
next
  case (call_read sh p)
  then show ?case by (intro sh_vfs_inv any_fs.fs_read)
next
  case (call_write sh p data)
  then show ?case by (intro sh_vfs_inv any_fs.fs_write)
qed (simp_all add: shell_inv_def set_env_def with_heap_def fs_ok_def)

lemma deliver_keeps: "object_inv sh \<Longrightarrow> object_inv (deliver js cb data sh)"
  by (simp add: deliver_def shell_inv_def fs_ok_def split: option.split)

lemma exec_keeps: "object_inv sh \<Longrightarrow> object_inv (snd (exec_with_stdin oc d src stdin sh))"
  using upholdsD [OF any_shell.exec_upholds [OF UNIV_I], of sh oc d src stdin] by (simp only: upholds_at_def)

lemma does_keeps: "shell_does js oc d sh sh' \<Longrightarrow> js_settles js \<Longrightarrow> object_inv sh \<Longrightarrow> object_inv sh'"
  by (induction rule: shell_does.induct)
     (auto intro: call_keeps intro!: deliver_keeps, (metis exec_keeps snd_conv)+)

lemma sh_vfs_mounts:
  "upholds fs_ok same_mounts UNIV m \<Longrightarrow> object_inv sh \<Longrightarrow> vfs_mounts (sh_fs (snd (sh_vfs m sh))) = vfs_mounts (sh_fs sh)"
  by (drule upholdsD [OF any_fs.lift_shell], assumption) (simp only: upholds_at_def shell_rel_def same_mounts_def)

lemma call_mounts: "shell_call js sh sh' \<Longrightarrow> object_inv sh \<Longrightarrow> mounts_ok (vfs_mounts (sh_fs sh)) \<Longrightarrow> mounts_ok (vfs_mounts (sh_fs sh'))"
proof (induction rule: shell_call.induct)
  case (call_mount sh p m)
  then show ?case by (simp add: mount_def add_mount_ok)
next
  case (call_read sh p)
  then show ?case by (metis sh_vfs_mounts [OF any_fs.fs_read])
next
  case (call_write sh p data)
  then show ?case by (metis sh_vfs_mounts [OF any_fs.fs_write])
qed (simp_all add: add_program_def set_env_def with_heap_def)

lemma exec_mounts:
  "object_inv sh \<Longrightarrow> vfs_mounts (sh_fs (snd (exec_with_stdin oc d src stdin sh))) = vfs_mounts (sh_fs sh)"
  using upholdsD [OF any_shell.exec_upholds [OF UNIV_I], of sh oc d src stdin]
  by (simp only: upholds_at_def shell_rel_def same_mounts_def)

lemma does_mounts:
  "shell_does js oc d sh sh' \<Longrightarrow> object_inv sh \<Longrightarrow> mounts_ok (vfs_mounts (sh_fs sh)) \<Longrightarrow> mounts_ok (vfs_mounts (sh_fs sh'))"
proof (induction rule: shell_does.induct)
  case (does_exec src stdin sh res sh' ecb ocb)
  have "vfs_mounts (sh_fs (deliver js cb data x)) = vfs_mounts (sh_fs x)" for cb data and x :: "'a Shell"
    by (simp add: deliver_def split: option.split)
  then show ?case using does_exec exec_mounts [of sh oc d src stdin] by simp
next
  case (does_fail src stdin sh e sh')
  then show ?case using exec_mounts [of sh oc d src stdin] by simp
qed (rule call_mounts)

lemma new_bare: "\<exists>r. shell_new lib h = (bare_shell h)\<lparr>sh_registry := r\<rparr>"
proof -
  have "\<exists>r. install ps sh = sh\<lparr>sh_registry := r\<rparr>" for ps and sh :: "'a Shell"
  proof (induction ps arbitrary: sh)
    case Nil
    show ?case by (rule exI [of _ "sh_registry sh"]) (simp add: install_def)
  next
    case (Cons p ps)
    obtain name f where p: "p = (name, f)" by fastforce
    have "install (p # ps) sh = install ps (add_program name f sh)" by (simp add: install_def p)
    then show ?case using Cons [of "add_program name f sh"] by (auto simp: add_program_def)
  qed
  then show ?thesis by (simp add: shell_new_def register_install)
qed

lemma new_mounts: "vfs_mounts (sh_fs (shell_new lib h)) = []"
  using new_bare [of lib h] by (auto simp: bare_shell_def vfs_new_ok)

lemma sequence_keeps:
  assumes "(shell_does js oc d)\<^sup>*\<^sup>* (shell_new lib h) sh" "js_settles js"
  shows "object_inv sh \<and> mounts_ok (vfs_mounts (sh_fs sh))"
  using assms(1)
proof (induction rule: rtranclp_induct)
  case base
  show ?case by (simp add: new_inv new_mounts mounts_ok_def)
next
  case (step a b)
  then show ?case using does_keeps assms(2) does_mounts by blast
qed

text \<open>
  C13: what JavaScript cannot break. If calling a function and awaiting a promise come back, then
  whatever functions are registered as programs and mounts, and whatever scripts run, the filesystem of
  the shell stays a well-formed tree whose mounts return, the mount table keeps its order, the heredoc
  queue of the parser is free, and every registered program run on a well-formed filesystem leaves it
  well formed with the same mounts and only appends to the streams.
\<close>

theorem object_keeps_shell:
  assumes "js_settles js" "reachable js oc d lib h s" "sys_shell s = Some sh"
  shows "fs_ok (sh_fs sh) \<and> mounts_ok (vfs_mounts (sh_fs sh)) \<and> \<not> hd_borrowed (sh_tls sh)
     \<and> (\<forall>p f args c. sm_get (sh_registry sh) p = Some f \<and> fs_ok (cx_fs c) \<longrightarrow>
          fs_ok (cx_fs (snd (f args c))) \<and> vfs_mounts (cx_fs (snd (f args c))) = vfs_mounts (cx_fs c)
          \<and> grows (cx_bufs c) (cx_bufs (snd (f args c))))"
  using sequence_keeps [OF reachable_refines [OF assms(2,3)] assms(1)]
  by (auto simp: shell_inv_def good_program_def upholds_def upholds_at_def ctx_inv_def ctx_rel_def same_mounts_def)

section \<open>The properties at work\<close>

text \<open>
  An engine for the witnesses: values and functions are strings, the heap counts the calls, and a program
  writes its own name.
\<close>

definition demo_engine :: "(nat, string, string) Js" where
  "demo_engine =
     \<lparr>js_call = (\<lambda>f args h. (Ok f, Suc h)), js_await = (\<lambda>v h. (Ok v, h)),
      js_program_of = (\<lambda>f. CtxCall (AskWriteStdout f) (\<lambda>_. OnHeap (\<lambda>h. (Suc h, Resolved f)))),
      js_str = id, js_bytes = id, js_num = (\<lambda>n. if n = 0 then ''0'' else ''1''), js_object = concat \<circ> map snd,
      js_to_bytes = id, js_to_list = (\<lambda>v. [v]), js_get = (\<lambda>v k. Inr (v @ k)), js_as_string = Some,
      js_as_bool = (\<lambda>_. None), js_as_u64 = (\<lambda>_. None), js_as_i32 = (\<lambda>v. Some (int (length v))),
      js_as_function = Some, js_debug = id\<rparr>"

definition demo_libs :: Libs where
  "demo_libs =
     \<lparr>lib_regex = (\<lambda>_ _. Inl []), lib_evaluate = (\<lambda>_. Inl []), lib_f64 = (\<lambda>_ _. []), lib_toml = (\<lambda>_. Inl []),
      lib_svg = \<lparr>svg_color = (\<lambda>_. None), svg_size_from_wh = (\<lambda>_ _. False), svg_int_from_wh = (\<lambda>_ _. None),
        svg_scale_to_width = (\<lambda>_ _. None), svg_scale_to_height = (\<lambda>_ _. None), svg_scale_to = (\<lambda>s _. s),
        svg_tree = (\<lambda>_ _. Inl []), svg_pixmap = (\<lambda>_. False)\<rparr>,
      lib_depth = 4\<rparr>"

text \<open>The new object, and the same while a script runs.\<close>

definition fresh :: "(nat, string) system" where
  "fresh = sys_init demo_libs 0"

definition taken :: "string \<Rightarrow> (nat, string) system" where
  "taken src =
     \<lparr>sys_ws = \<lparr>ws_inner = None, ws_stdout_cb = None, ws_stderr_cb = None, ws_stdin = []\<rparr>,
      sys_running = [\<lparr>run_source = src, run_stdin = [], run_shell = shell_new demo_libs 0\<rparr>],
      sys_trapped = False\<rparr>"

lemma taken_reachable: "reachable demo_engine oc d demo_libs 0 (taken src)"
proof -
  let ?s = "sys_init demo_libs 0 :: (nat, string) system"
  have "ws_exec_begin demo_engine (sys_ws ?s) = (Ok (shell_new demo_libs 0, []), (sys_ws ?s)\<lparr>ws_inner := None, ws_stdin := []\<rparr>)"
    by (simp add: ws_exec_begin_def sys_init_def ws_new_def)
  from wstep.begin_exec [OF this, of oc d src] show ?thesis
    by (intro reachable.step [OF reachable.initial]) (simp add: sys_init_def ws_new_def taken_def)
qed

theorem exec_exclusive_witness:
  "ws_exec_begin demo_engine (sys_ws (taken ''echo hi''))
     = (Err ''shell is busy: exec is already running'', sys_ws (taken ''echo hi''))"
  using exec_exclusive [OF taken_reachable, of "''echo hi''"]
  by (simp add: taken_def ws_is_available_def demo_engine_def)

text \<open>A character of two bytes inside a command substitution: the lexer slices between them.\<close>

lemma panicking: "fst (exec_with_stdin True 2 (''$('' @ [CHR 0xC3, CHR 0xA9] @ '')'') [] ((bare_shell 0)\<lparr>sh_registry := r\<rparr>)) = Panic"
  by code_simp

lemma fst_outcome: "fst p = r \<Longrightarrow> \<exists>s. p = (r, s)"
  by (cases p) simp

lemma new_panics: "\<exists>sh. exec_with_stdin True 2 (''$('' @ [CHR 0xC3, CHR 0xA9] @ '')'') [] (shell_new lib (0 :: nat)) = (Panic, sh)"
proof -
  obtain r where "shell_new lib (0 :: nat) = (bare_shell 0)\<lparr>sh_registry := r\<rparr>"
    by (rule exE [OF new_bare [of lib 0]])
  then show ?thesis by (simp only: fst_outcome [OF panicking])
qed

theorem trap_is_final_witness:
  "\<exists>s t. reachable demo_engine True 2 demo_libs 0 s \<and> sys_trapped s
     \<and> t = s\<lparr>sys_ws := after_request demo_engine (SetStdin ''x'') (sys_ws s)\<rparr> \<and> \<not> ws_is_available (sys_ws t)"
proof -
  let ?src = "''$('' @ [CHR 0xC3, CHR 0xA9] @ '')''"
  let ?s = "(taken ?src)\<lparr>sys_running := [], sys_trapped := True\<rparr>"
  let ?t = "?s\<lparr>sys_ws := after_request demo_engine (SetStdin ''x'') (sys_ws ?s)\<rparr>"
  obtain sh where p: "exec_with_stdin True 2 ?src [] (shell_new demo_libs (0 :: nat)) = (Panic, sh)"
    by (rule exE [OF new_panics [of demo_libs]])
  have "wstep demo_engine True 2 (taken ?src) ?s"
    using wstep.trap [of "taken ?src" "[]" _ "[]" True 2 sh demo_engine] p by (simp add: taken_def)
  then have s: "reachable demo_engine True 2 demo_libs 0 ?s" by (rule reachable.step [OF taken_reachable])
  have trapped: "sys_trapped ?s" by (simp only: system.simps system.update_convs taken_def)
  have "(wstep demo_engine True 2)\<^sup>*\<^sup>* ?s ?t" by (rule r_into_rtranclp, rule wstep.request)
  then have "\<not> ws_is_available (sys_ws ?t)" using trap_is_final [OF s trapped] by blast
  with s trapped show ?thesis by blast
qed

lemma requested: "reachable js oc d lib h ((sys_init lib h)\<lparr>sys_ws := after_request js q (ws_new lib h)\<rparr>)"
  using reachable.step [OF reachable.initial wstep.request, of js oc d lib h q] by (simp add: sys_init_def)

theorem object_keeps_shell_witness:
  "\<exists>m. mounts_ok (vfs_mounts (sh_fs (mount ''/mnt'' (js_mount_point demo_engine m) (shell_new demo_libs 0))))"
proof -
  let ?m = "\<lparr>jm_read = ''oread'', jm_write = ''owrite'', jm_list = ''olist'', jm_stat = ''ostat'', jm_remove = ''oremove''\<rparr>"
  have "js_settles demo_engine" by (simp add: js_settles_def demo_engine_def returns_def)
  moreover have "sys_shell ((sys_init demo_libs 0)\<lparr>sys_ws := after_request demo_engine (Mount ''/mnt'' ''o'') (ws_new demo_libs 0)\<rparr>)
      = Some (mount ''/mnt'' (js_mount_point demo_engine ?m) (shell_new demo_libs 0))"
    by (simp add: sys_shell_def state_after_def ws_mount_def get_fn_def ws_expect_def ws_new_def andThen_def
        demo_engine_def)
  ultimately show ?thesis using object_keeps_shell [OF _ requested [of demo_engine False 2]] by blast
qed

end
