(* ===== verification/WasmSession.thy ===== *)
theory WasmSession
  imports WasmFacts
begin

text \<open>
  What JavaScript observes of the shell object. The steps of the object carry the call that makes them
  and the reply it gives; a session is the same interface as one state with a phase, written over the
  operations of the shell and the filesystem, and the replies of the object are those of the session.
\<close>

section \<open>Calls and replies\<close>

datatype ('h, 'v, 'f) js_event = HostTurn 'h | Ask "('v, 'f) request" | Execute string | ScriptEnds

text \<open>\<open>NoAnswer\<close> is a call that panics; \<open>Started\<close> a promise that is still pending.\<close>

datatype 'v js_reply =
    Silent | Done | Started | Value 'v | Text string | Maybe "string option" | Threw 'v | NoAnswer

definition reply_of :: "('a \<Rightarrow> 'v js_reply) \<Rightarrow> ('a, 'v) outcome \<Rightarrow> 'v js_reply" where
  "reply_of f r = (case r of Ok a \<Rightarrow> f a | Err e \<Rightarrow> Threw e | _ \<Rightarrow> NoAnswer)"

fun object_reply :: "('h, 'v, 'f) Js \<Rightarrow> ('v, 'f) request \<Rightarrow> ('h, 'f) WasmShell \<Rightarrow> 'v js_reply" where
  "object_reply js (AddProgram name f) ws = reply_of (\<lambda>_. Done) (fst (ws_add_program js name f ws))"
| "object_reply js (Mount p options) ws = reply_of (\<lambda>_. Done) (fst (ws_mount js p options ws))"
| "object_reply js (OnStdout f) ws = reply_of (\<lambda>_. Done) (fst (ws_on_stdout f ws :: (unit, 'v) outcome \<times> _))"
| "object_reply js (OnStderr f) ws = reply_of (\<lambda>_. Done) (fst (ws_on_stderr f ws :: (unit, 'v) outcome \<times> _))"
| "object_reply js (SetStdin data) ws = reply_of (\<lambda>_. Done) (fst (ws_set_stdin data ws :: (unit, 'v) outcome \<times> _))"
| "object_reply js (ReadFile p) ws = reply_of Value (fst (ws_read_file js p ws))"
| "object_reply js (WriteFile p data) ws = reply_of (\<lambda>_. Done) (fst (ws_write_file js p data ws))"
| "object_reply js (SetEnv k v) ws = reply_of (\<lambda>_. Done) (fst (ws_set_env k v ws :: (unit, 'v) outcome \<times> _))"
| "object_reply js (GetEnv k) ws = reply_of Maybe (fst (ws_get_env k ws :: (string option, 'v) outcome \<times> _))"
| "object_reply js (SetCwd p) ws = reply_of (\<lambda>_. Done) (fst (ws_set_cwd p ws :: (unit, 'v) outcome \<times> _))"
| "object_reply js GetCwd ws = reply_of Text (fst (ws_get_cwd ws :: (string, 'v) outcome \<times> _))"

text \<open>The steps of the object, each with its call and its reply.\<close>

inductive object_step ::
    "('h, 'v, 'f) Js \<Rightarrow> bool \<Rightarrow> nat \<Rightarrow> ('h, 'f) system \<Rightarrow> ('h, 'v, 'f) js_event \<Rightarrow> 'v js_reply \<Rightarrow> ('h, 'f) system \<Rightarrow> bool"
  for js oc d where
  on_host: "object_step js oc d s (HostTurn h) Silent (host_runs h s)"
| on_request: "object_step js oc d s (Ask q) (object_reply js q (sys_ws s)) (s\<lparr>sys_ws := after_request js q (sys_ws s)\<rparr>)"
| on_exec: "ws_exec_begin js (sys_ws s) = (Ok (sh, stdin), ws) \<Longrightarrow>
     object_step js oc d s (Execute src) Started
       (s\<lparr>sys_ws := ws, sys_running := \<lparr>run_source = src, run_stdin = stdin, run_shell = sh\<rparr> # sys_running s\<rparr>)"
| on_refusal: "ws_exec_begin js (sys_ws s) = (Err e, ws) \<Longrightarrow>
     object_step js oc d s (Execute src) (Threw e) (s\<lparr>sys_ws := ws\<rparr>)"
| on_end: "sys_running s = xs @ r # ys \<Longrightarrow>
     exec_with_stdin oc d (run_source r) (run_stdin r) (run_shell r) = (Ok res, sh) \<Longrightarrow>
     object_step js oc d s ScriptEnds (reply_of Value (fst (ws_exec_end js (Inl res) sh (sys_ws s))))
       (s\<lparr>sys_ws := snd (ws_exec_end js (Inl res) sh (sys_ws s)), sys_running := xs @ ys\<rparr>)"
| on_failure: "sys_running s = xs @ r # ys \<Longrightarrow>
     exec_with_stdin oc d (run_source r) (run_stdin r) (run_shell r) = (Err e, sh) \<Longrightarrow>
     object_step js oc d s ScriptEnds (reply_of Value (fst (ws_exec_end js (Inr e) sh (sys_ws s))))
       (s\<lparr>sys_ws := snd (ws_exec_end js (Inr e) sh (sys_ws s)), sys_running := xs @ ys\<rparr>)"
| on_trap: "sys_running s = xs @ r # ys \<Longrightarrow>
     exec_with_stdin oc d (run_source r) (run_stdin r) (run_shell r) = (Panic, sh) \<Longrightarrow>
     object_step js oc d s ScriptEnds NoAnswer (s\<lparr>sys_running := xs @ ys, sys_trapped := True\<rparr>)"

lemma wstep_labelled: "wstep js oc d s t \<longleftrightarrow> (\<exists>e r. object_step js oc d s e r t)"
proof
  assume "wstep js oc d s t"
  then show "\<exists>e r. object_step js oc d s e r t" by cases (blast intro: object_step.intros)+
next
  assume "\<exists>e r. object_step js oc d s e r t"
  then obtain e r where "object_step js oc d s e r t" by blast
  then show "wstep js oc d s t" by cases (blast intro: wstep.intros)+
qed

inductive object_run ::
    "('h, 'v, 'f) Js \<Rightarrow> bool \<Rightarrow> nat \<Rightarrow> ('h, 'f) system \<Rightarrow> ('h, 'v, 'f) js_event list \<Rightarrow> 'v js_reply list \<Rightarrow> ('h, 'f) system \<Rightarrow> bool"
  for js oc d where
  run_nothing: "object_run js oc d s [] [] s"
| run_step: "object_step js oc d s e r t \<Longrightarrow> object_run js oc d t es rs u \<Longrightarrow> object_run js oc d s (e # es) (r # rs) u"

section \<open>Sessions\<close>

text \<open>The shell is idle, away with a script and its input, or lost.\<close>

datatype 'h phase = Idle "'h Shell" | Running string string "'h Shell" | Wrecked

record ('h, 'f) session =
  ses_phase :: "'h phase"
  ses_input :: string
  ses_out :: "'f option"
  ses_err :: "'f option"

definition new_session :: "Libs \<Rightarrow> 'h \<Rightarrow> ('h, 'f) session" where
  "new_session lib h = \<lparr>ses_phase = Idle (shell_new lib h), ses_input = [], ses_out = None, ses_err = None\<rparr>"

definition when_idle :: "('h, 'f) session \<Rightarrow> 'v js_reply \<Rightarrow> ('h Shell \<Rightarrow> 'v js_reply \<times> 'h Shell) \<Rightarrow> 'v js_reply \<times> ('h, 'f) session" where
  "when_idle ses busy f = (case ses_phase ses of
      Idle sh \<Rightarrow> (case f sh of (r, sh') \<Rightarrow> (r, ses\<lparr>ses_phase := Idle sh'\<rparr>))
    | _ \<Rightarrow> (busy, ses))"

definition file_reply :: "('h, 'v, 'f) Js \<Rightarrow> ('a \<Rightarrow> 'v js_reply) \<Rightarrow> ('a, VfsError) outcome \<times> 'h Vfs \<Rightarrow> 'h Shell \<Rightarrow> 'v js_reply \<times> 'h Shell" where
  "file_reply js f = (\<lambda>(r, fs) sh.
     (case r of Ok x \<Rightarrow> f x | Err e \<Rightarrow> Threw (js_str js (show_vfs_error e)) | _ \<Rightarrow> NoAnswer, sh\<lparr>sh_fs := fs\<rparr>))"

text \<open>The options of a mount: five functions, or the error of the first that is not one.\<close>

definition option_function :: "('h, 'v, 'f) Js \<Rightarrow> 'v \<Rightarrow> string \<Rightarrow> 'v + 'f" where
  "option_function js options key = (case js_get js options key of
      Inl e \<Rightarrow> Inl e
    | Inr v \<Rightarrow> (case js_as_function js v of
        Some f \<Rightarrow> Inr f
      | None \<Rightarrow> Inl (js_str js (''mount option `'' @ key @ ''` is not a function''))))"

fun mount_functions :: "('v + 'f) list \<Rightarrow> 'v + 'f list" where
  "mount_functions [] = Inr []"
| "mount_functions (Inl e # _) = Inl e"
| "mount_functions (Inr f # rest) = map_sum id ((#) f) (mount_functions rest)"

fun session_ask :: "('h, 'v, 'f) Js \<Rightarrow> ('v, 'f) request \<Rightarrow> ('h, 'f) session \<Rightarrow> 'v js_reply \<times> ('h, 'f) session" where
  "session_ask js (AddProgram name f) ses = when_idle ses NoAnswer (\<lambda>sh.
     (Done, sh\<lparr>sh_registry := registry_add name (\<lambda>args. run_js js args (js_program_of js f)) (sh_registry sh)\<rparr>))"
| "session_ask js (Mount p options) ses =
     (case mount_functions (map (option_function js options) [''read'', ''write'', ''list'', ''stat'', ''remove'']) of
        Inl e \<Rightarrow> (Threw e, ses)
      | Inr fs \<Rightarrow> when_idle ses NoAnswer (\<lambda>sh. (Done, sh\<lparr>sh_fs := add_mount p
          \<lparr>mp_read = \<lambda>path. andThen (js_mount_call js (fs ! 0) [js_str js path]) (\<lambda>v. ret (js_to_bytes js v)),
           mp_write = \<lambda>path data. andThen (js_mount_call js (fs ! 1) [js_str js path, js_bytes js data]) (\<lambda>_. ret ()),
           mp_list = \<lambda>path. andThen (js_mount_call js (fs ! 2) [js_str js path]) (\<lambda>v.
             ret (List.map_filter (js_as_string js) (js_to_list js v))),
           mp_stat = \<lambda>path. andThen (js_mount_call js (fs ! 3) [js_str js path]) (\<lambda>v.
             ret \<lparr>is_file = get_bool js v ''isFile'', is_dir = get_bool js v ''isDir'', is_device = False,
               st_size = get_size js v ''size''\<rparr>),
           mp_remove = \<lambda>path. andThen (js_mount_call js (fs ! 4) [js_str js path]) (\<lambda>_. ret ())\<rparr> (sh_fs sh)\<rparr>)))"
| "session_ask js (OnStdout f) ses = (Done, ses\<lparr>ses_out := Some f\<rparr>)"
| "session_ask js (OnStderr f) ses = (Done, ses\<lparr>ses_err := Some f\<rparr>)"
| "session_ask js (SetStdin data) ses = (Done, ses\<lparr>ses_input := data\<rparr>)"
| "session_ask js (ReadFile p) ses = when_idle ses (Threw (js_str js ''shell is busy'')) (\<lambda>sh.
     file_reply js (\<lambda>data. Value (js_bytes js data)) (read_file p (sh_fs sh)) sh)"
| "session_ask js (WriteFile p data) ses = when_idle ses (Threw (js_str js ''shell is busy'')) (\<lambda>sh.
     file_reply js (\<lambda>_. Done) (write_file p data (sh_fs sh)) sh)"
| "session_ask js (SetEnv k v) ses = when_idle ses NoAnswer (\<lambda>sh. (Done, sh\<lparr>sh_env := env_set k v (sh_env sh)\<rparr>))"
| "session_ask js (GetEnv k) ses = when_idle ses (Maybe None) (\<lambda>sh. (Maybe (env_get k (sh_env sh)), sh))"
| "session_ask js (SetCwd p) ses = when_idle ses Done (\<lambda>sh. (Done, sh\<lparr>sh_cwd := normalize_path p\<rparr>))"
| "session_ask js GetCwd ses = when_idle ses (Text []) (\<lambda>sh. (Text (sh_cwd sh), sh))"

text \<open>A callback is called with the bytes of a stream, unless there are none.\<close>

definition announced :: "('h, 'v, 'f) Js \<Rightarrow> 'f option \<Rightarrow> string \<Rightarrow> 'h \<Rightarrow> 'h" where
  "announced js callback bytes h =
     (if bytes = [] then h else case callback of None \<Rightarrow> h | Some f \<Rightarrow> snd (js_call js f [js_bytes js bytes] h))"

definition phase_heap :: "'h \<Rightarrow> 'h phase \<Rightarrow> 'h phase" where
  "phase_heap h p = (case p of
      Idle sh \<Rightarrow> Idle (with_heap h sh)
    | Running src input sh \<Rightarrow> Running src input (with_heap h sh)
    | Wrecked \<Rightarrow> Wrecked)"

definition script_ends :: "('h, 'v, 'f) Js \<Rightarrow> bool \<Rightarrow> nat \<Rightarrow> ('h, 'f) session \<Rightarrow> 'v js_reply \<times> ('h, 'f) session" where
  "script_ends js oc d ses = (case ses_phase ses of
      Running src input sh \<Rightarrow>
        (case exec_with_stdin oc d src input sh of
           (Ok res, sh') \<Rightarrow>
             (Value (js_object js [(''code'', js_num js (eo_code res)), (''stdout'', js_bytes js (eo_stdout res)),
                 (''stderr'', js_bytes js (eo_stderr res))]),
              ses\<lparr>ses_phase := Idle (with_heap (announced js (ses_err ses) (eo_stderr res)
                 (announced js (ses_out ses) (eo_stdout res) (vfs_host (sh_fs sh')))) sh')\<rparr>)
         | (Err e, sh') \<Rightarrow> (Threw (js_str js (show_shell_error e)), ses\<lparr>ses_phase := Idle sh'\<rparr>)
         | _ \<Rightarrow> (NoAnswer, ses\<lparr>ses_phase := Wrecked\<rparr>))
    | _ \<Rightarrow> (Silent, ses))"

fun session_event :: "('h, 'v, 'f) Js \<Rightarrow> bool \<Rightarrow> nat \<Rightarrow> ('h, 'v, 'f) js_event \<Rightarrow> ('h, 'f) session \<Rightarrow> 'v js_reply \<times> ('h, 'f) session" where
  "session_event js oc d (HostTurn h) ses = (Silent, ses\<lparr>ses_phase := phase_heap h (ses_phase ses)\<rparr>)"
| "session_event js oc d (Ask q) ses = session_ask js q ses"
| "session_event js oc d (Execute src) ses = (case ses_phase ses of
      Idle sh \<Rightarrow> (Started, ses\<lparr>ses_phase := Running src (ses_input ses) sh, ses_input := []\<rparr>)
    | _ \<Rightarrow> (Threw (js_str js ''shell is busy: exec is already running''), ses))"
| "session_event js oc d ScriptEnds ses = script_ends js oc d ses"

fun session_run :: "('h, 'v, 'f) Js \<Rightarrow> bool \<Rightarrow> nat \<Rightarrow> ('h, 'v, 'f) js_event list \<Rightarrow> ('h, 'f) session \<Rightarrow> 'v js_reply list \<times> ('h, 'f) session" where
  "session_run js oc d [] ses = ([], ses)"
| "session_run js oc d (e # es) ses =
     (let (r, ses1) = session_event js oc d e ses; (rs, ses2) = session_run js oc d es ses1 in (r # rs, ses2))"

section \<open>The object shows a session\<close>

definition shown_phase :: "('h, 'f) system \<Rightarrow> 'h phase" where
  "shown_phase s = (case ws_inner (sys_ws s) of
      Some sh \<Rightarrow> Idle sh
    | None \<Rightarrow> (case sys_running s of
        [] \<Rightarrow> Wrecked
      | r # _ \<Rightarrow> Running (run_source r) (run_stdin r) (run_shell r)))"

definition shown :: "('h, 'f) system \<Rightarrow> ('h, 'f) session" where
  "shown s = \<lparr>ses_phase = shown_phase s, ses_input = ws_stdin (sys_ws s),
     ses_out = ws_stdout_cb (sys_ws s), ses_err = ws_stderr_cb (sys_ws s)\<rparr>"

lemma shown_init: "shown (sys_init lib h) = new_session lib h"
  by (simp add: shown_def shown_phase_def sys_init_def ws_new_def new_session_def)

text \<open>A call of the object is the call of the session it shows.\<close>

definition shows_call :: "('h, 'v, 'f) Js \<Rightarrow> ('v, 'f) request \<Rightarrow> ('h, 'f) system \<Rightarrow> bool" where
  "shows_call js q s \<longleftrightarrow>
     session_ask js q (shown s) = (object_reply js q (sys_ws s), shown (s\<lparr>sys_ws := after_request js q (sys_ws s)\<rparr>))"

lemmas shows_defs = shows_call_def shown_def shown_phase_def state_after_def reply_of_def when_idle_def

lemma away_phase:
  "ws_inner (sys_ws s) = None \<Longrightarrow> shown_phase s = Wrecked \<or> (\<exists>src input sh. shown_phase s = Running src input sh)"
  by (simp add: shown_phase_def split: list.split)

lemma shows_expect:
  "(case ws_inner ws of None \<Rightarrow> (Panic, ws) | Some sh \<Rightarrow> (Ok (), ws\<lparr>ws_inner := Some (f sh)\<rparr>)) = ws_expect f ws"
  by (simp add: ws_expect_def)

lemma shows_add: "shows_call js (AddProgram name f) s"
  by (cases "ws_inner (sys_ws s)")
     (auto simp: shows_defs ws_add_program_def ws_expect_def add_program_def js_callback_def [abs_def] split: list.split)

lemma shows_vfs: "shows_call js (ReadFile p) s" "shows_call js (WriteFile p data) s"
  by (cases "ws_inner (sys_ws s)";
      auto simp: shows_defs ws_read_file_def ws_write_file_def ws_vfs_def andThen_def map_err_def sh_vfs_def file_reply_def
      split: list.split prod.split outcome.split)+

lemma shows_state:
  "shows_call js (SetEnv k v) s" "shows_call js (GetEnv k) s" "shows_call js (SetCwd p) s" "shows_call js GetCwd s"
  "shows_call js (OnStdout f) s" "shows_call js (OnStderr f) s" "shows_call js (SetStdin data) s"
  by (cases "ws_inner (sys_ws s)";
      auto simp: shows_defs ws_set_env_def ws_get_env_def ws_set_cwd_def ws_get_cwd_def ws_expect_def ws_on_stdout_def
        ws_on_stderr_def ws_set_stdin_def set_env_def get_env_def split: list.split)+

lemma get_fn_option: "get_fn js options key ws = (case option_function js options key of Inl e \<Rightarrow> (Err e, ws) | Inr f \<Rightarrow> (Ok f, ws))"
  by (simp add: get_fn_def option_function_def split: sum.split option.split)

lemma shows_mount: "shows_call js (Mount p options) s"
  by (cases "ws_inner (sys_ws s)")
     (auto simp: shows_defs ws_mount_def andThen_def get_fn_option ws_expect_def mount_def js_mount_point_def
        js_read_def [abs_def] js_write_def [abs_def] js_list_def [abs_def] js_stat_def [abs_def] js_remove_def [abs_def]
        split: list.split sum.split)

lemma shows_every: "shows_call js q s"
  by (cases q) (auto intro: shows_add shows_vfs shows_state shows_mount)

lemma deliver_announced: "deliver js cb data sh = with_heap (announced js cb data (vfs_host (sh_fs sh))) sh"
  by (simp add: deliver_def announced_def with_heap_def split: option.split)

lemma with_heap_twice [simp]: "with_heap h (with_heap h' sh) = with_heap h sh" "vfs_host (sh_fs (with_heap h sh)) = h"
  by (simp_all add: with_heap_def)

lemma one_running: "sys_running s = xs @ r # ys \<Longrightarrow> exclusive s \<Longrightarrow>
    xs = [] \<and> ys = [] \<and> ws_inner (sys_ws s) = None \<and> \<not> sys_trapped s"
  by (auto simp: exclusive_def append_eq_Cons_conv split: if_splits)

lemma step_shows:
  assumes "object_step js oc d s e r t" "exclusive s"
  shows "session_event js oc d e (shown s) = (r, shown t)"
  using assms
proof (induction rule: object_step.induct)
  case (on_host s h)
  then show ?case
    by (auto simp: shown_def shown_phase_def host_runs_def phase_heap_def split: option.split list.split)
next
  case (on_request s q)
  then show ?case using shows_every [of js q s] by (simp add: shows_call_def)
next
  case (on_exec s sh stdin ws src)
  then show ?case using exec_begin_cases [OF on_exec(1)]
    by (auto simp: shown_def shown_phase_def)
next
  case (on_refusal s e ws src)
  then have "ws_inner (sys_ws s) = None" "ws = sys_ws s" "e = js_str js ''shell is busy: exec is already running''"
    by (auto simp: ws_exec_begin_def split: option.splits)
  then show ?case using away_phase [of s] by (auto simp: shown_def shown_phase_def split: list.split)
next
  case (on_end s xs r ys res sh)
  then show ?case using one_running [OF on_end(1,3)]
    by (auto simp: shown_def shown_phase_def script_ends_def ws_exec_end_def reply_of_def exec_object_def deliver_announced)
next
  case (on_failure s xs r ys e sh)
  then show ?case using one_running [OF on_failure(1,3)]
    by (auto simp: shown_def shown_phase_def script_ends_def ws_exec_end_def reply_of_def)
next
  case (on_trap s xs r ys sh)
  then show ?case using one_running [OF on_trap(1,3)]
    by (auto simp: shown_def shown_phase_def script_ends_def)
qed

lemma run_shows:
  "object_run js oc d s es rs t \<Longrightarrow> exclusive s \<Longrightarrow> session_run js oc d es (shown s) = (rs, shown t)"
proof (induction rule: object_run.induct)
  case (run_step s e r t es rs u)
  then have "exclusive t" using wstep_exclusive wstep_labelled by blast
  then show ?case using run_step step_shows [OF run_step(1,4)] by simp
qed simp

section \<open>Properties\<close>

text \<open>
  C12: the object is a session. Take any calls JavaScript makes on a new object, with scripts that run in
  between and end at any point of the sequence: the replies the object gives are those of a session with
  one shell, and the shell, the input for the next script and the callbacks are those of the session. So
  a file that is written holds exactly the bytes given and a read replies with those there; a script
  runs its own text on the input set before it was started, and on the shell as the calls before left it;
  the callbacks registered when it ends get its output, and its promise the code and the two streams;
  calls that come while it runs reply that the shell is busy, or find no shell. A script is taken to do its
  work when it ends, with the host's heap as it then is.
\<close>

theorem object_refines_session:
  assumes "object_run js oc d (sys_init lib h) calls replies s"
  shows "session_run js oc d calls (new_session lib h) = (replies, shown s)"
  using run_shows [OF assms exclusive_init] by (simp add: shown_init)

theorem object_refines_session_witness:
  "\<exists>ses. session_run demo_engine True 2
       [Ask (SetEnv ''A'' ''1''), Ask (SetStdin ''in''), Execute ''cat'', Ask (GetEnv ''A''), Execute ''ls'']
       (new_session demo_libs 0)
     = ([Done, Done, Started, Maybe None, Threw ''shell is busy: exec is already running''], ses)
     \<and> ses_phase ses = Running ''cat'' ''in'' (set_env ''A'' ''1'' (shell_new demo_libs 0))"
proof -
  let ?js = demo_engine and ?s0 = "sys_init demo_libs 0 :: (nat, string) system"
  let ?s1 = "?s0\<lparr>sys_ws := after_request ?js (SetEnv ''A'' ''1'') (sys_ws ?s0)\<rparr>"
  let ?s2 = "?s1\<lparr>sys_ws := after_request ?js (SetStdin ''in'') (sys_ws ?s1)\<rparr>"
  let ?sh = "set_env ''A'' ''1'' (shell_new demo_libs (0 :: nat))"
  let ?ws = "\<lparr>ws_inner = None, ws_stdout_cb = None, ws_stderr_cb = None, ws_stdin = []\<rparr> :: (nat, string) WasmShell"
  let ?s3 = "\<lparr>sys_ws = ?ws, sys_running = [\<lparr>run_source = ''cat'', run_stdin = ''in'', run_shell = ?sh\<rparr>], sys_trapped = False\<rparr>"
  let ?s4 = "?s3\<lparr>sys_ws := after_request ?js (GetEnv ''A'') (sys_ws ?s3)\<rparr>"
  note defs = sys_init_def ws_new_def state_after_def ws_set_env_def ws_expect_def ws_set_stdin_def ws_get_env_def
    ws_exec_begin_def reply_of_def
  have "ws_exec_begin ?js (sys_ws ?s2) = (Ok (?sh, ''in''), ?ws)" by (simp add: defs)
  from on_exec [OF this, of True 2 "''cat''"] have "object_step ?js True 2 ?s2 (Execute ''cat'') Started ?s3"
    by (simp add: sys_init_def)
  moreover have "ws_exec_begin ?js (sys_ws ?s4) = (Err ''shell is busy: exec is already running'', sys_ws ?s4)"
    by (simp add: defs demo_engine_def)
  from on_refusal [OF this, of True 2 "''ls''"]
  have "object_step ?js True 2 ?s4 (Execute ''ls'') (Threw ''shell is busy: exec is already running'') ?s4" by simp
  ultimately have "object_run ?js True 2 ?s0
      [Ask (SetEnv ''A'' ''1''), Ask (SetStdin ''in''), Execute ''cat'', Ask (GetEnv ''A''), Execute ''ls'']
      [object_reply ?js (SetEnv ''A'' ''1'') (sys_ws ?s0), object_reply ?js (SetStdin ''in'') (sys_ws ?s1), Started,
       object_reply ?js (GetEnv ''A'') (sys_ws ?s3), Threw ''shell is busy: exec is already running''] ?s4"
    by - (rule run_step [OF on_request], rule run_step [OF on_request], rule run_step, assumption,
        rule run_step [OF on_request], rule run_step, assumption, rule run_nothing)
  from object_refines_session [OF this] show ?thesis
    by (intro exI [of _ "shown ?s4"]) (simp add: defs shown_def shown_phase_def)
qed

end
