(* ===== verification/PrintParse.thy ===== *)
theory PrintParse
  imports Printer ParserTotal
begin

text \<open>
  The parser on printed tokens: rules for its steps on a state whose tokens are known, and with them the
  words, the redirections and the simple commands that it reads back from the tokens they are printed as.
\<close>

section \<open>Partial correctness up to fuel\<close>

text \<open>
  From every state of \<open>P\<close> the computation runs out of fuel or returns \<open>a\<close> in a state of \<open>Q\<close>. That the
  fuel is enough is shown apart from this (\<open>parse_settled\<close>).
\<close>

definition yields :: "('s \<Rightarrow> bool) \<Rightarrow> ('s, 'a, 'e) act \<Rightarrow> 'a \<Rightarrow> ('s \<Rightarrow> bool) \<Rightarrow> bool" where
  "yields P m a Q \<longleftrightarrow> (\<forall>p. P p \<longrightarrow> fst (m p) = OutOfFuel \<or> (\<exists>p'. m p = (Ok a, p') \<and> Q p'))"

lemma yieldsI: "(\<And>p. P p \<Longrightarrow> \<exists>p'. m p = (Ok a, p') \<and> Q p') \<Longrightarrow> yields P m a Q"
  by (simp add: yields_def)

lemma yields_pre: "yields P m a Q \<Longrightarrow> (\<And>p. P' p \<Longrightarrow> P p) \<Longrightarrow> yields P' m a Q"
  by (simp add: yields_def)

lemma yields_then:
  assumes m: "yields P m a Q" and f: "yields Q (f a) b R"
  shows "yields P (andThen m f) b R"
  unfolding yields_def
proof (intro allI impI)
  fix p assume "P p"
  then consider "fst (m p) = OutOfFuel" | p' where "m p = (Ok a, p')" "Q p'"
    using m unfolding yields_def by blast
  then show "fst (andThen m f p) = OutOfFuel \<or> (\<exists>p'. andThen m f p = (Ok b, p') \<and> R p')"
  proof cases
    case 1
    then show ?thesis by (cases "m p") (simp add: andThen_def)
  next
    case 2
    then show ?thesis using f by (simp add: yields_def andThen_def)
  qed
qed

lemma yields_ret [simp]: "yields P (ret a) a P"
  by (simp add: yields_def)

lemma yields_Ok [simp]: "yields P (Pair (Ok a)) a P"
  by (simp add: yields_def)

lemma yields_fuel:
  assumes "\<And>j. k = Suc j \<Longrightarrow> yields P (m k) a Q" "\<And>p. fst (m 0 p) = OutOfFuel"
  shows "yields P (m k) a Q"
  using assms by (cases k) (auto simp: yields_def)

section \<open>The tokens a parser state has before it\<close>

text \<open>In mode \<open>dq\<close>, with no heredoc pending; the first token may have been looked at already.\<close>

definition view :: "bool \<Rightarrow> tls \<Rightarrow> token_kind list \<Rightarrow> parser \<Rightarrow> bool" where
  "view dq t ks p \<longleftrightarrow> ps_in_dq p = dq \<and> ps_pending p = [] \<and> ps_tls p = t
     \<and> (case ps_peeked p of
          None \<Rightarrow> lexes dq (ps_lexer p) ks
        | Some tk \<Rightarrow> \<exists>ks'. ks = tk_kind tk # ks' \<and> lexes (mode_after (tk_kind tk) dq) (ps_lexer p) ks')"

text \<open>After a token that changes the mode, before the parser has changed its own.\<close>

definition turning :: "bool \<Rightarrow> bool \<Rightarrow> tls \<Rightarrow> token_kind list \<Rightarrow> parser \<Rightarrow> bool" where
  "turning dq m t ks p \<longleftrightarrow> ps_in_dq p = dq \<and> ps_pending p = [] \<and> ps_tls p = t \<and> ps_peeked p = None
     \<and> lexes m (ps_lexer p) ks"

lemma turning_view: "turning dq dq t ks p \<Longrightarrow> view dq t ks p"
  by (simp add: turning_def view_def)

lemma yields_peek:
  assumes "\<And>sp. yields (\<lambda>p. view dq t (k # ks) p \<and> ps_peeked p = Some (Token k sp)) (f (Token k sp)) a Q"
  shows "yields (view dq t (k # ks)) (andThen p_peek f) a Q"
  unfolding yields_def
proof (intro allI impI)
  fix p assume v: "view dq t (k # ks) p"
  show "fst (andThen p_peek f p) = OutOfFuel \<or> (\<exists>p'. andThen p_peek f p = (Ok a, p') \<and> Q p')"
  proof (cases "ps_peeked p")
    case (Some tk)
    then obtain sp where "tk = Token k sp" using v by (cases tk) (simp add: view_def)
    then show ?thesis using assms [of sp] v Some by (simp add: yields_def andThen_def p_peek_def)
  next
    case None
    then obtain sp l where n: "next_token dq (ps_lexer p) = (Ok (Token k sp), l)" "lexes (mode_after k dq) l ks"
      using v by (auto simp: view_def elim: lexes.cases)
    let ?p = "p\<lparr>ps_lexer := l, ps_peeked := Some (Token k sp)\<rparr>"
    have "p_peek p = (Ok (Token k sp), ?p)"
      using None n v by (simp add: p_peek_def on_lexer_def andThen_def view_def)
    moreover have "view dq t (k # ks) ?p" using v n by (simp add: view_def)
    ultimately show ?thesis using assms [of sp] by (simp add: yields_def andThen_def)
  qed
qed

lemma yields_next:
  assumes "\<And>sp. yields (turning dq (mode_after k dq) t ks) (f (Token k sp)) a Q"
  shows "yields (view dq t (k # ks)) (andThen p_next f) a Q"
  unfolding yields_def
proof (intro allI impI)
  fix p assume v: "view dq t (k # ks) p"
  have "\<exists>sp p'. p_next p = (Ok (Token k sp), p') \<and> turning dq (mode_after k dq) t ks p'"
  proof (cases "ps_peeked p")
    case (Some tk)
    then show ?thesis using v by (cases tk) (simp add: p_next_def view_def turning_def)
  next
    case None
    then show ?thesis using v
      by (auto simp: p_next_def on_lexer_def view_def turning_def elim: lexes.cases)
  qed
  then show "fst (andThen p_next f p) = OutOfFuel \<or> (\<exists>p'. andThen p_next f p = (Ok a, p') \<and> Q p')"
    using assms by (fastforce simp: yields_def andThen_def)
qed

lemma yields_next_plain:
  assumes "\<And>sp. yields (view dq t ks) (f (Token k sp)) a Q" "mode_after k dq = dq"
  shows "yields (view dq t (k # ks)) (andThen p_next f) a Q"
  by (rule yields_next, rule yields_pre [OF assms(1)]) (simp add: assms(2) turning_view)

lemma yields_peek_kind:
  assumes "yields (view dq t (k # ks)) (f k) a Q"
  shows "yields (view dq t (k # ks)) (andThen peek_kind f) a Q"
  unfolding peek_kind_then by (rule yields_peek) (use assms in \<open>simp add: yields_def\<close>)

lemma yields_gets:
  assumes "yields P (f b) a Q" "\<And>p. P p \<Longrightarrow> g p = b"
  shows "yields P (andThen (gets g) f) a Q"
  using assms by (simp add: yields_def andThen_def)

lemma yields_modify:
  assumes "yields P' (f ()) a Q" "\<And>p. P p \<Longrightarrow> P' (g p)"
  shows "yields P (andThen (modify g) f) a Q"
  using assms by (simp add: yields_def andThen_def)

lemma yields_on_tls:
  assumes "m t = (Ok b, t)" "yields (turning dq m' t ks) (f b) a Q"
  shows "yields (turning dq m' t ks) (andThen (on_tls m) f) a Q"
  using assms by (auto simp: yields_def andThen_def on_tls_def turning_def)

section \<open>Words\<close>

fun dq_tok :: "dq_part \<Rightarrow> token_kind" where
  "dq_tok (DQLiteral s) = DQText s"
| "dq_tok (DQVariable (SimpleVar x)) = TkWord (CHR ''$'' # x)"
| "dq_tok _ = Eof"

text \<open>The character of a special variable.\<close>

fun special_text :: "special_var \<Rightarrow> char" where
  "special_text Zero = CHR ''0''"
| "special_text (Positional n) = char_of (48 + n)"
| "special_text StarVar = CHR ''*''"
| "special_text AtVar = CHR ''@''"
| "special_text Hash = CHR ''#''"
| "special_text Pid = CHR ''$''"
| "special_text LastExit = CHR ''?''"
| "special_text LastBgPid = CHR ''!''"

fun ok_special :: "special_var \<Rightarrow> bool" where
  "ok_special (Positional n) = (0 < n \<and> n < 10)"
| "ok_special sp = True"

lemma special_of_text: "ok_special sp \<Longrightarrow> special_of (special_text sp) = Some sp"
  by (cases sp) (auto simp: special_of_def is_ascii_digit_def)

text \<open>The text of a word that is one token; the other words have none.\<close>

fun word_raw :: "word \<Rightarrow> string" where
  "word_raw (Literal s) = enc s"
| "word_raw (Variable (SimpleVar x)) = CHR ''$'' # x"
| "word_raw (Variable (Special sp)) = [CHR ''$'', special_text sp]"
| "word_raw (Concat [Literal s, Variable (SimpleVar x)]) = enc s @ CHR ''$'' # x"
| "word_raw _ = []"

fun word_toks :: "word \<Rightarrow> token_kind list" where
  "word_toks (SingleQuoted s) = [SingleQuote s]"
| "word_toks (DoubleQuoted ps) = DoubleQuoteOpen # map dq_tok ps @ [DoubleQuoteClose]"
| "word_toks w = [TkWord (word_raw w)]"

text \<open>Words that are one token, and all that can be printed.\<close>

fun bare_word :: "word \<Rightarrow> bool" where
  "bare_word (Literal s) = (NL \<notin> set s)"
| "bare_word (Variable (SimpleVar x)) = is_valid_name x"
| "bare_word (Variable (Special sp)) = ok_special sp"
| "bare_word (Concat [Literal s, Variable (SimpleVar x)]) = (s \<noteq> [] \<and> NL \<notin> set s \<and> is_valid_name x)"
| "bare_word _ = False"

fun ok_word :: "word \<Rightarrow> bool" where
  "ok_word (SingleQuoted s) = (SQUOTE \<notin> set s)"
| "ok_word (DoubleQuoted []) = True"
| "ok_word (DoubleQuoted [DQLiteral s]) = (s \<noteq> [])"
| "ok_word (DoubleQuoted [DQVariable (SimpleVar x)]) = is_valid_name x"
| "ok_word (DoubleQuoted [DQLiteral s, DQVariable (SimpleVar x)]) = (s \<noteq> [] \<and> is_valid_name x)"
| "ok_word (DoubleQuoted _) = False"
| "ok_word w = (bare_word w \<and> w \<noteq> Literal [])"

lemma char_len_over: "\<exists>v r. s = v @ r \<and> list_all high v \<and> char_len (c # s) = Suc (length v)"
proof -
  obtain ok n where "utf8_step (c # s) = (ok, n)" by fastforce
  then show ?thesis using utf8_step_high [of c s ok n] by (auto simp: tail_of_def char_len_def)
qed

lemma unq_high: "list_all high v \<Longrightarrow> unq (v @ w) = v @ unq w"
  by (induction v) (auto simp: unq_Cons high_distinct)

lemma high_prefix_end: "v @ r = u @ x \<Longrightarrow> list_all high v \<Longrightarrow> x = [] \<or> \<not> high (hd x) \<Longrightarrow> \<exists>u'. u = v @ u' \<and> r = u' @ x"
proof (cases x)
  case Nil
  then show "v @ r = u @ x \<Longrightarrow> ?thesis" by simp
next
  case (Cons d y)
  then show "v @ r = u @ x \<Longrightarrow> list_all high v \<Longrightarrow> x = [] \<or> \<not> high (hd x) \<Longrightarrow> ?thesis"
    using high_prefix [of v r u d y] by simp
qed

lemma word_parts_over:
  assumes "wordy u" "x = [] \<or> \<not> high (hd x)"
  shows "word_parts_loop cb base False i (u @ x) lit parts t
     = word_parts_loop cb base False (i + length u) x (lit @ unq u) parts t"
  using assms(1)
proof (induction "length u" arbitrary: u i lit rule: less_induct)
  case less
  show ?case
  proof (cases u)
    case (Cons c s)
    show ?thesis
    proof (cases "c = BSLASH")
      case True
      then obtain e s' where s: "s = e # s'" "\<not> high e" "e \<noteq> NL" "wordy s'"
        using less.prems Cons by (cases s) auto
      have "char_len (e # s' @ x) = 1" using utf8_step_ascii [OF s(2)] by (simp add: char_len_def)
      moreover have "word_parts_loop cb base False (i + 2) (s' @ x) (lit @ [e]) parts t
          = word_parts_loop cb base False (i + 2 + length s') x ((lit @ [e]) @ unq s') parts t"
        using less.hyps [of s'] s Cons by simp
      ultimately show ?thesis
        using Cons True s by (subst word_parts_loop.simps) (simp add: Let_def)
    next
      case False
      then have c: "c \<noteq> CHR ''$''" "c \<noteq> BTICK" "wordy s" using less.prems Cons by (auto simp: wordy_Cons)
      obtain v r where v: "s @ x = v @ r" "list_all high v" "char_len (c # s @ x) = Suc (length v)"
        using char_len_over [of "s @ x" c] by auto
      then obtain s' where s': "s = v @ s'" "r = s' @ x" using high_prefix_end assms(2) by metis
      have "word_parts_loop cb base False (i + Suc (length v)) (s' @ x) (lit @ c # v) parts t
          = word_parts_loop cb base False (i + Suc (length v) + length s') x ((lit @ c # v) @ unq s') parts t"
        by (rule less.hyps) (use Cons s' c(3) v(2) wordy_high in auto)
      then show ?thesis
        using Cons False c s' v by (subst word_parts_loop.simps) (simp add: Let_def unq_Cons unq_high add.assoc)
    qed
  qed simp
qed

lemma advance_all: "advance_chars (length s) s = []"
proof (induction "length s" arbitrary: s rule: less_induct)
  case less
  show ?case
  proof (cases "s = []")
    case False
    then have "advance_chars (length (drop (char_len s) s)) (drop (char_len s) s) = []"
      using char_len_pos [of s] by (intro less) simp
    then show ?thesis using False by (subst advance_chars.simps) simp
  qed (subst advance_chars.simps, simp)
qed

lemma parse_dollar_name:
  assumes n: "is_valid_name n"
  shows "parse_dollar cb (CHR ''$'' # n) base t = (Ok (Variable (SimpleVar n), 1 + length n), t)"
proof -
  obtain c s where c: "n = c # s" "is_name_start c" "is_ident_char c" "\<forall>d \<in> set s. is_ident_char d"
    using valid_name_cases [OF n] by blast
  have "\<forall>d \<in> set ''0123456789*@#$?!({''. \<not> is_name_start d" by (simp add: is_name_start_def is_ascii_alphabetic_def)
  then have no: "c \<notin> set ''*@#$?!({''" using c(2) by auto
  have "\<not> is_ascii_digit c" using c(2) by (auto simp: is_name_start_def is_ascii_alphabetic_def is_ascii_digit_def)
  then have sp: "special_of c = None" "c \<noteq> CHR ''(''" "c \<noteq> CHR ''{''"
    using no by (simp_all add: special_of_def)
  have all: "takeWhile is_ident_char (c # s) = c # s" using c by (simp add: takeWhile_eq_all_conv)
  show ?thesis
    unfolding c(1) by (subst parse_dollar.simps) (simp add: Let_def sp all [simplified])
qed

lemma word_parts_name:
  assumes "is_valid_name n"
  shows "word_parts_loop cb base False i (CHR ''$'' # n) lit parts t
     = (Ok (parts @ flush_literal lit @ [Variable (SimpleVar n)]), t)"
  using parse_dollar_name [OF assms] advance_all
  by (subst word_parts_loop.simps, simp add: Let_def andThen_def char_consts)
     (subst word_parts_loop.simps, simp add: flush_literal_def)

lemma parse_dollar_special:
  assumes "special_of c = Some sp"
  shows "parse_dollar cb [CHR ''$'', c] base t = (Ok (Variable (Special sp), 2), t)"
  using special_char [of c] assms by (subst parse_dollar.simps) (simp add: Let_def)

lemma word_parts_special:
  assumes "special_of c = Some sp"
  shows "word_parts_loop cb base False i [CHR ''$'', c] lit parts t
     = (Ok (parts @ flush_literal lit @ [Variable (Special sp)]), t)"
  using parse_dollar_special [OF assms] advance_all [of "[c]"]
  by (subst word_parts_loop.simps, simp add: Let_def andThen_def char_consts numeral_2_eq_2)
     (subst word_parts_loop.simps, simp add: flush_literal_def)

lemma word_parts_end: "word_parts_loop cb base False i [] lit parts t = (Ok (parts @ flush_literal lit), t)"
  by (subst word_parts_loop.simps) simp

lemma parse_raw:
  assumes "bare_word w"
  shows "parse_word_str_inner cb (word_raw w) base t = (Ok w, t)"
proof -
  note parts = parse_word_str_inner_def parse_word_parts_def andThen_def simplify_word_parts_def flush_literal_def
  have h: "\<not> high (CHR ''$'')" by (simp add: high_def)
  consider (lit) s where "w = Literal s" "NL \<notin> set s"
    | (var) x where "w = Variable (SimpleVar x)" "is_valid_name x"
    | (special) sp where "w = Variable (Special sp)" "ok_special sp"
    | (both) s x where "w = Concat [Literal s, Variable (SimpleVar x)]" "s \<noteq> []" "NL \<notin> set s" "is_valid_name x"
    using assms by (cases w rule: bare_word.cases) auto
  then show ?thesis
  proof cases
    case lit
    then show ?thesis
      using word_parts_over [OF wordy_enc [OF lit(2)], of "[]" cb base 0 "[]" "[]" t] by (simp add: parts word_parts_end)
  next
    case var
    then show ?thesis by (simp add: parts word_parts_name)
  next
    case special
    then show ?thesis by (simp add: parts word_parts_special special_of_text)
  next
    case both
    then show ?thesis
      using word_parts_over [OF wordy_enc [OF both(3)], of "CHR ''$'' # x" cb base 0 "[]" "[]" t] h
      by (simp add: parts word_parts_name)
  qed
qed

lemma yields_weak: "yields P m a Q \<Longrightarrow> (\<And>p. P' p \<Longrightarrow> P p) \<Longrightarrow> (\<And>p. Q p \<Longrightarrow> Q' p) \<Longrightarrow> yields P' m a Q'"
  unfolding yields_def by blast

lemma yields_peeked: "yields (view dq t ks) m a Q \<Longrightarrow> yields (\<lambda>p. view dq t ks p \<and> ps_peeked p = x) m a Q"
  by (erule yields_pre) simp

lemma parse_dq_name: "is_valid_name x \<Longrightarrow> parse_dq_word_parts cb (CHR ''$'' # x) base t = (Ok [DQVariable (SimpleVar x)], t)"
  using parse_dollar_name advance_all
  by (simp add: parse_dq_word_parts_def, subst dq_parts_loop.simps, simp add: Let_def andThen_def flush_dq_def word_to_dq_part_def)
     (subst dq_parts_loop.simps, simp add: flush_dq_def)

lemma dq_close:
  "yields (view True t (DoubleQuoteClose # ks)) (dq_loop cb sp k parts) parts (turning True False t ks)"
proof (rule yields_fuel)
  fix j assume "k = Suc j"
  show "yields (view True t (DoubleQuoteClose # ks)) (dq_loop cb sp k parts) parts (turning True False t ks)"
    unfolding \<open>k = Suc j\<close> dq_loop.simps
    by (rule yields_peek, rule yields_peeked, simp, rule yields_next) simp
qed simp

lemma dq_var:
  assumes "is_valid_name x"
  shows "yields (view True t (TkWord (CHR ''$'' # x) # DoubleQuoteClose # ks)) (dq_loop cb sp k parts)
     (parts @ [DQVariable (SimpleVar x)]) (turning True False t ks)"
proof (rule yields_fuel)
  fix j assume "k = Suc j"
  show "yields (view True t (TkWord (CHR ''$'' # x) # DoubleQuoteClose # ks)) (dq_loop cb sp k parts)
     (parts @ [DQVariable (SimpleVar x)]) (turning True False t ks)"
    unfolding \<open>k = Suc j\<close> dq_loop.simps
    by (rule yields_peek, rule yields_peeked, simp, rule yields_next, rule yields_on_tls,
        rule parse_dq_name [OF assms], rule yields_pre [OF dq_close]) (simp add: turning_view)
qed simp

lemma dq_text:
  assumes "\<And>k. yields (view True t ks) (dq_loop cb sp k (parts @ [DQLiteral s])) a Q"
  shows "yields (view True t (DQText s # ks)) (dq_loop cb sp k parts) a Q"
proof (rule yields_fuel)
  fix j assume "k = Suc j"
  show "yields (view True t (DQText s # ks)) (dq_loop cb sp k parts) a Q"
    unfolding \<open>k = Suc j\<close> dq_loop.simps
    by (rule yields_peek, rule yields_peeked, simp, rule yields_next_plain) (simp_all add: assms)
qed simp

lemma yields_dq_loop:
  assumes "ok_word (DoubleQuoted ps)"
  shows "yields (view True t (map dq_tok ps @ DoubleQuoteClose # ks)) (dq_loop cb sp k []) ps (turning True False t ks)"
proof -
  consider "ps = []" | s where "ps = [DQLiteral s]" | x where "ps = [DQVariable (SimpleVar x)]" "is_valid_name x"
    | s x where "ps = [DQLiteral s, DQVariable (SimpleVar x)]" "is_valid_name x"
    using assms by (cases "DoubleQuoted ps" rule: ok_word.cases) auto
  then show ?thesis
  proof cases
    case 1
    then show ?thesis using dq_close by simp
  next
    case 2
    then show ?thesis using dq_text [of t "DoubleQuoteClose # ks"] dq_close by fastforce
  next
    case 3
    then show ?thesis using dq_var [of _ t ks cb sp k "[]"] by simp
  next
    case (4 s x)
    have "yields (view True t (TkWord (CHR ''$'' # x) # DoubleQuoteClose # ks)) (dq_loop cb sp k ([] @ [DQLiteral s]))
        ps (turning True False t ks)" for k
      using dq_var [OF 4(2), of t ks cb sp k "[DQLiteral s]"] 4(1) by simp
    from dq_text [OF this] show ?thesis using 4(1) by simp
  qed
qed

lemma yields_double_quoted:
  assumes "ok_word (DoubleQuoted ps)"
  shows "yields (view False t (word_toks (DoubleQuoted ps) @ ks)) (parse_double_quoted cb k) (DoubleQuoted ps) (view False t ks)"
proof -
  have close: "yields (turning True False t ks)
      (andThen (modify (ps_in_dq_update (\<lambda>_. False))) (\<lambda>_. ret (DoubleQuoted ps))) (DoubleQuoted ps) (view False t ks)"
    by (rule yields_modify [OF yields_ret]) (simp add: turning_def view_def)
  have "yields (view False t (DoubleQuoteOpen # map dq_tok ps @ DoubleQuoteClose # ks)) (parse_double_quoted cb k)
      (DoubleQuoted ps) (view False t ks)"
    unfolding parse_double_quoted_def peek_span_then
    by (rule yields_peek, rule yields_peeked, rule yields_next, rule yields_gets [where b = False],
        rule yields_modify [where P' = "view True t (map dq_tok ps @ DoubleQuoteClose # ks)"],
        rule yields_then [where Q = "turning True False t ks" and a = ps],
        rule yields_dq_loop [OF assms], rule close) (simp_all add: turning_def view_def)
  then show ?thesis by simp
qed

lemma yields_word:
  assumes "ok_word w"
  shows "yields (view False t (word_toks w @ ks)) (parse_word cb k) w (view False t ks)"
proof -
  have bare: "yields (view False t (TkWord (word_raw w) # ks)) (parse_word cb k) w (view False t ks)" if "bare_word w"
  proof -
    have "simplify_word_parts (case w of Concat ps \<Rightarrow> ps | other \<Rightarrow> [other]) = w"
      using that by (cases w rule: bare_word.cases) (simp_all add: simplify_word_parts_def)
    moreover have "yields (view False t (TkWord (word_raw w) # ks))
        (andThen p_next (\<lambda>_. andThen (on_tls (parse_word_str_inner cb (word_raw w) b)) (\<lambda>word.
             ret (case word of Concat ps \<Rightarrow> ps | other \<Rightarrow> [other]))))
        (case w of Concat ps \<Rightarrow> ps | other \<Rightarrow> [other]) (view False t ks)" for b
      by (rule yields_next, rule yields_on_tls, rule parse_raw [OF that])
         (rule yields_pre [OF yields_ret], simp add: turning_view)
    ultimately show ?thesis
      unfolding parse_word_def
      by (intro yields_then [where a = "case w of Concat ps \<Rightarrow> ps | other \<Rightarrow> [other]" and Q = "view False t ks"]
            yields_peek yields_peeked)
         simp_all
  qed
  show ?thesis
  proof (cases w)
    case (SingleQuoted s)
    have "yields (view False t (SingleQuote s # ks)) (andThen p_next (\<lambda>_. ret [SingleQuoted s])) [SingleQuoted s] (view False t ks)"
      by (rule yields_next_plain) simp_all
    then show ?thesis
      unfolding parse_word_def SingleQuoted
      by (intro yields_then [where a = "[SingleQuoted s]"])
         (auto intro!: yields_peek yields_peeked simp: simplify_word_parts_def)
  next
    case (DoubleQuoted ps)
    have "yields (view False t (word_toks w @ ks)) (andThen (parse_double_quoted cb k) (\<lambda>w. ret [w])) [DoubleQuoted ps] (view False t ks)"
      unfolding DoubleQuoted by (rule yields_then [OF yields_double_quoted]) (use assms DoubleQuoted in simp_all)
    then show ?thesis
      unfolding parse_word_def DoubleQuoted
      by (intro yields_then [where a = "[DoubleQuoted ps]"])
         (auto intro!: yields_peek yields_peeked simp: simplify_word_parts_def)
  qed (use assms bare in auto)
qed

lemma word_then:
  "ok_word w \<Longrightarrow> yields (view False t ks) (f w) c Q
   \<Longrightarrow> yields (view False t (word_toks w @ ks)) (andThen (parse_word cb k) f) c Q"
  by (rule yields_then [OF yields_word])

section \<open>Redirections\<close>

fun file_op :: "redirect_kind \<Rightarrow> redirect_op" where
  "file_op Write = Greater"
| "file_op Append = GreaterGreater"
| "file_op Read = Less"
| "file_op ReadWrite = LessGreater"
| "file_op Clobber = GreaterPipe"

definition dup_op :: "redirect_kind \<Rightarrow> redirect_op" where
  "dup_op kind = (if kind = Read then LessAmp else GreaterAmp)"

definition redir_toks :: "redirect \<Rightarrow> token_kind list" where
  "redir_toks r =
     (case rd_target r of
        TWord w \<Rightarrow> TkRedirect (rd_fd r) (file_op (rd_kind r)) # word_toks w
      | TFd m \<Rightarrow> [TkRedirect (rd_fd r) (dup_op (rd_kind r)), TkWord (show_nat m)]
      | TCloseFd \<Rightarrow> [TkRedirect (rd_fd r) (dup_op (rd_kind r)), TkWord ''-'']
      | THeredoc h \<Rightarrow> [])"

definition ok_redir :: "redirect \<Rightarrow> bool" where
  "ok_redir r \<longleftrightarrow> (case rd_fd r of Some n \<Rightarrow> n < 2 ^ 32 | None \<Rightarrow> False)
     \<and> (case rd_target r of
          TWord w \<Rightarrow> ok_word w
        | TFd m \<Rightarrow> m < 2 ^ 32 \<and> rd_kind r \<in> {Write, Read}
        | TCloseFd \<Rightarrow> rd_kind r \<in> {Write, Read}
        | THeredoc h \<Rightarrow> False)"

lemma show_not_dash: "show_nat n \<noteq> ''-''"
proof
  assume "show_nat n = ''-''"
  then have "is_ascii_digit (CHR ''-'')" using show_digits [of n] by simp
  then show False by (simp add: is_ascii_digit_def)
qed

lemma yields_dup:
  assumes "w = ''-'' \<and> target = TCloseFd \<or> (\<exists>m. w = show_nat m \<and> m < 2 ^ 32 \<and> target = TFd m)"
  shows "yields (view False t (TkWord w # ks)) (parse_dup_redirect cb k fd kind) (Redirect fd kind target) (view False t ks)"
proof -
  have p: "parse_unsigned 32 (show_nat m) = Some m" if "m < 2 ^ 32" for m
    by (rule parse_unsigned_show) (use that in simp)
  show ?thesis
    using assms p show_not_dash unfolding parse_dup_redirect_def Let_def
    by (auto intro!: yields_peek_kind yields_next_plain)
qed

lemma yields_redirect:
  assumes r: "ok_redir r"
  shows "yields (view False t (redir_toks r @ ks)) (parse_redirect cb k) r (view False t ks)"
proof -
  obtain n kind target where eq: "r = Redirect (Some n) kind target"
    using r by (cases r; cases "rd_fd r") (auto simp: ok_redir_def)
  note red = parse_redirect_def redir_toks_def eq
  show ?thesis
  proof (cases target)
    case (TWord w)
    then have w: "ok_word w" using r eq by (simp add: ok_redir_def)
    show ?thesis
      unfolding red TWord by (cases kind) (auto intro!: yields_next_plain word_then [OF w] simp: or_fd_def)
  next
    case (TFd m)
    then have m: "m < 2 ^ 32" "kind = Write \<or> kind = Read" using r eq by (auto simp: ok_redir_def)
    then show ?thesis
      unfolding red TFd by (auto intro!: yields_next_plain yields_dup simp: or_fd_def dup_op_def)
  next
    case TCloseFd
    then have "kind = Write \<or> kind = Read" using r eq by (auto simp: ok_redir_def)
    then show ?thesis
      unfolding red TCloseFd by (auto intro!: yields_next_plain yields_dup simp: or_fd_def dup_op_def)
  qed (use r eq in \<open>simp add: ok_redir_def\<close>)
qed

lemma redirect_then:
  "ok_redir r \<Longrightarrow> yields (view False t ks) (f r) c Q
   \<Longrightarrow> yields (view False t (redir_toks r @ ks)) (andThen (parse_redirect cb k) f) c Q"
  by (rule yields_then [OF yields_redirect])

lemma redir_first: "ok_redir r \<Longrightarrow> \<exists>fd op ks. redir_toks r = TkRedirect fd op # ks"
  by (auto simp: ok_redir_def redir_toks_def split: redirect_target.splits)

section \<open>Simple commands\<close>

definition reserved :: "string list" where
  "reserved = [''if'', ''for'', ''while'', ''until'', ''case'', ''select'']"

text \<open>The first word is not one the parser refuses.\<close>

definition ok_name :: "word \<Rightarrow> bool" where
  "ok_name w \<longleftrightarrow> ok_word w \<and> (case w of Literal s \<Rightarrow> s \<notin> set reserved | _ \<Rightarrow> True)"

definition assign_tok :: "string \<times> word \<Rightarrow> token_kind" where
  "assign_tok a = TkWord (fst a @ ''='' @ word_raw (snd a))"

definition simple_toks :: "simple_command \<Rightarrow> token_kind list" where
  "simple_toks sc =
     map assign_tok (sc_assignments sc) @ (case sc_name sc of None \<Rightarrow> [] | Some w \<Rightarrow> word_toks w)
       @ concat (map word_toks (sc_args sc)) @ concat (map redir_toks (sc_redirects sc))"

definition ok_simple :: "simple_command \<Rightarrow> bool" where
  "ok_simple sc \<longleftrightarrow> list_all (\<lambda>(x, w). is_valid_name x \<and> bare_word w) (sc_assignments sc)
     \<and> (case sc_name sc of None \<Rightarrow> sc_args sc = [] | Some w \<Rightarrow> ok_name w)
     \<and> list_all ok_word (sc_args sc) \<and> list_all ok_redir (sc_redirects sc)
     \<and> (sc_assignments sc \<noteq> [] \<or> sc_name sc \<noteq> None \<or> sc_redirects sc \<noteq> [])"

text \<open>The turns of the loop.\<close>

lemma turn_end: "ends_command k0 \<Longrightarrow> yields (view False t (k0 # ks)) (simple_loop cb k sc saw) (Simple sc) (view False t (k0 # ks))"
  by (rule yields_fuel) (auto intro!: yields_peek yields_peeked)

lemma turn_redirect:
  assumes r: "ok_redir r"
    and next_turn: "\<And>j. yields (view False t ks)
      (simple_loop cb j (SimpleCommand (sc_assignments sc) (sc_name sc) (sc_args sc) (sc_redirects sc @ [r])) saw) c Q"
  shows "yields (view False t (redir_toks r @ ks)) (simple_loop cb k sc saw) c Q"
proof (rule yields_fuel)
  fix j assume k: "k = Suc j"
  obtain fd op ts where ts: "redir_toks r = TkRedirect fd op # ts" using redir_first [OF r] by blast
  have "yields (view False t (redir_toks r @ ks)) (andThen (parse_redirect cb j) (\<lambda>redir. simple_loop cb j
      (SimpleCommand (sc_assignments sc) (sc_name sc) (sc_args sc) (sc_redirects sc @ [redir])) saw)) c Q"
    by (rule redirect_then [OF r]) (rule next_turn)
  then show "yields (view False t (redir_toks r @ ks)) (simple_loop cb k sc saw) c Q"
    unfolding k ts by (auto intro!: yields_peek yields_peeked simp: ends_command_def is_redirect_token_def simp del: andThen_ret)
qed simp

lemma word_first: "ok_word w \<Longrightarrow> \<exists>k ks. word_toks w = k # ks \<and> is_word_token k \<and> \<not> is_redirect_token k \<and> \<not> ends_command k"
  by (cases w) (auto simp: is_word_token_def is_redirect_token_def ends_command_def)

lemma turn_arg:
  assumes w: "ok_word w"
    and next_turn: "\<And>j. yields (view False t ks)
      (simple_loop cb j (SimpleCommand (sc_assignments sc) (sc_name sc) (sc_args sc @ [w]) (sc_redirects sc)) True) c Q"
  shows "yields (view False t (word_toks w @ ks)) (simple_loop cb k sc True) c Q"
proof (rule yields_fuel)
  fix j assume k: "k = Suc j"
  obtain k0 ts where ts: "word_toks w = k0 # ts" "is_word_token k0" "\<not> is_redirect_token k0" "\<not> ends_command k0"
    using word_first [OF w] by blast
  have "assignment_of True k0 = None" by (cases k0) (simp_all add: assignment_of_def)
  moreover have "yields (view False t (word_toks w @ ks)) (andThen (parse_word cb j) (\<lambda>word. simple_loop cb j
      (SimpleCommand (sc_assignments sc) (sc_name sc) (sc_args sc @ [word]) (sc_redirects sc)) True)) c Q"
    by (rule word_then [OF w]) (rule next_turn)
  ultimately show "yields (view False t (word_toks w @ ks)) (simple_loop cb k sc True) c Q"
    unfolding k ts(1) using ts(2-4) by (auto intro!: yields_peek yields_peeked)
qed simp

lemma valid_name_no: "is_valid_name x \<Longrightarrow> CHR ''='' \<notin> set x \<and> NL \<notin> set x"
  using ident_distinct [of "CHR ''=''"] ident_distinct [of NL] by (auto simp: is_valid_name_def list_all_iff is_word_char_def)

lemma split_assign:
  assumes "is_valid_name x"
  shows "split_assignment (x @ CHR ''='' # v) = Some (x, v)"
proof -
  have "split_once CHR ''='' (x @ CHR ''='' # v) = Some (x, v)"
    using valid_name_no [OF assms] by (simp add: split_once_iff)
  then show ?thesis using assms by (simp add: split_assignment_def is_valid_name_def)
qed

lemma turn_assign:
  assumes a: "is_valid_name x" "bare_word v"
    and next_turn: "\<And>j. yields (view False t ks)
      (simple_loop cb j (SimpleCommand (sc_assignments sc @ [(x, v)]) (sc_name sc) (sc_args sc) (sc_redirects sc)) False) c Q"
  shows "yields (view False t (assign_tok (x, v) # ks)) (simple_loop cb k sc False) c Q"
proof (rule yields_fuel)
  fix j assume k: "k = Suc j"
  have "yields (view False t (assign_tok (x, v) # ks)) (andThen p_next (\<lambda>_.
      andThen (on_tls (parse_word_str_inner cb (word_raw v) b)) (\<lambda>value. simple_loop cb j
        (SimpleCommand (sc_assignments sc @ [(x, value)]) (sc_name sc) (sc_args sc) (sc_redirects sc)) False))) c Q" for b
    unfolding assign_tok_def
    by (rule yields_next, rule yields_on_tls, rule parse_raw [OF a(2)], rule yields_pre [OF next_turn])
       (simp add: turning_view)
  then show "yields (view False t (assign_tok (x, v) # ks)) (simple_loop cb k sc False) c Q"
    unfolding k
    by (auto intro!: yields_peek yields_peeked simp: assign_tok_def assignment_of_def split_assign [OF a(1)]
        ends_command_def is_redirect_token_def is_word_token_def)
qed simp

text \<open>The look-ahead for a function definition finds no parenthesis and puts everything back.\<close>

lemma yields_check:
  assumes "k1 \<noteq> LParen" "yields (view False t (k0 # k1 # ks)) m c Q"
  shows "yields (\<lambda>p. view False t (k0 # k1 # ks) p \<and> ps_peeked p = Some (Token k0 sp))
     (andThen (check_function_def (Token k0 sp)) (\<lambda>_. m)) c Q"
proof (cases "\<exists>w. k0 = TkWord w \<and> is_plain_name w")
  case True
  have "check_function_def (Token k0 sp) p = (Ok (), p)"
    if v: "view False t (k0 # k1 # ks) p" and pk: "ps_peeked p = Some (Token k0 sp)" for p
  proof -
    have "lexes False (ps_lexer p) (k1 # ks)" using v pk True by (auto simp: view_def)
    then obtain sp1 l where n: "next_token False (ps_lexer p) = (Ok (Token k1 sp1), l)"
      by (auto elim: lexes.cases)
    have "scans (ps_lexer p) (next_token False (ps_lexer p))" using next_token_spec by blast
    then have l: "lx_src l = lx_src (ps_lexer p)" using n by (simp add: ahead_src)
    have dq: "ps_in_dq p = False" using v by (simp add: view_def)
    have "p\<lparr>ps_peeked := Some (Token k0 sp), ps_lexer := set_pos (lx_pos (ps_lexer p)) l\<rparr> = p"
      using pk l by (cases p; cases "ps_lexer p"; cases l) (simp add: set_pos_def)
    then show ?thesis
      using True pk n assms(1) dq
      by (auto simp: check_function_def_def andThen_def p_next_def peek_kind_def p_peek_def on_lexer_def)
  qed
  then show ?thesis using assms(2) by (simp add: yields_def andThen_def)
next
  case False
  then have "check_function_def (Token k0 sp) = ret ()"
    by (auto simp: check_function_def_def split: token_kind.split)
  then show ?thesis using assms(2) by (simp add: yields_def)
qed

lemma enc_before_assign:
  "enc s @ y = a @ CHR ''='' # b \<Longrightarrow> CHR ''='' \<notin> set y \<Longrightarrow> BSLASH \<in> set a"
proof (induction s arbitrary: a)
  case (Cons c s)
  have "BSLASH \<noteq> CHR ''=''" by (simp add: char_consts)
  then show ?case
    using Cons plain_distinct [of c] by (cases a) (auto split: if_splits)
qed simp

lemma enc_no_assign: "CHR ''='' \<notin> set y \<Longrightarrow> split_assignment (enc s @ y) = None"
proof -
  assume y: "CHR ''='' \<notin> set y"
  have "\<not> list_all is_ident_char a" if "split_once CHR ''='' (enc s @ y) = Some (a, b)" for a b
    using enc_before_assign [of s y a b] that y ident_distinct [of BSLASH] by (auto simp: split_once_iff list_all_iff)
  then show ?thesis by (auto simp: split_assignment_def split: option.split)
qed

lemma name_no_assign: "ok_word w \<Longrightarrow> word_toks w = k # ks \<Longrightarrow> assignment_of False k = None"
proof -
  assume w: "ok_word w" "word_toks w = k # ks"
  have "CHR ''='' \<noteq> special_text sp" if "ok_special sp" for sp
    using special_char [of "special_text sp"] special_of_text [OF that] by fastforce
  then have "split_assignment (word_raw w) = None" if "bare_word w"
    using that enc_no_assign [of "[]"] enc_no_assign [of "CHR ''$'' # _" "[]"] enc_no_assign [of "CHR ''$'' # _"] valid_name_no
    by (cases w rule: bare_word.cases) auto
  then show ?thesis using w by (cases w) (auto simp: assignment_of_def)
qed

lemma dq_tok_not: "dq_tok part \<noteq> LParen"
  by (cases part rule: dq_tok.cases) auto

lemma turn_name:
  assumes w: "ok_name w" and k1: "k1 \<noteq> LParen"
    and next_turn: "\<And>j. yields (view False t (k1 # ks))
      (simple_loop cb j (SimpleCommand (sc_assignments sc) (Some w) (sc_args sc) (sc_redirects sc)) True) c Q"
  shows "yields (view False t (word_toks w @ k1 # ks)) (simple_loop cb k sc False) c Q"
proof (rule yields_fuel)
  fix j assume k: "k = Suc j"
  have ok: "ok_word w" using w by (simp add: ok_name_def)
  obtain k0 ts where ts: "word_toks w = k0 # ts" "is_word_token k0" "\<not> is_redirect_token k0" "\<not> ends_command k0"
    using word_first [OF ok] by blast
  have "assignment_of False k0 = None" by (rule name_no_assign [OF ok ts(1)])
  moreover have "yields (view False t (word_toks w @ k1 # ks)) (andThen (parse_word cb j) (\<lambda>word. simple_loop cb j
      (SimpleCommand (sc_assignments sc) (Some word) (sc_args sc) (sc_redirects sc)) True)) c Q"
    by (rule word_then [OF ok]) (rule next_turn)
  moreover have "\<exists>k2 ks2. ts @ k1 # ks = k2 # ks2 \<and> k2 \<noteq> LParen"
    using k1 ts(1) ok by (cases w; cases ts) (auto simp: dq_tok_not Cons_eq_append_conv append_eq_Cons_conv map_eq_Cons_conv)
  ultimately show "yields (view False t (word_toks w @ k1 # ks)) (simple_loop cb k sc False) c Q"
    unfolding k ts(1) using ts(2-4) by (auto intro!: yields_peek yields_check)
qed simp

text \<open>The loop on the tokens of a whole command.\<close>

lemma loop_redirects:
  assumes "list_all ok_redir rs" "ends_command k0"
  shows "yields (view False t (concat (map redir_toks rs) @ k0 # ks)) (simple_loop cb k sc saw)
     (Simple (SimpleCommand (sc_assignments sc) (sc_name sc) (sc_args sc) (sc_redirects sc @ rs)))
     (view False t (k0 # ks))"
  using assms
proof (induction rs arbitrary: k sc)
  case Nil
  then show ?case using turn_end [of k0 t ks cb k sc saw] by simp
next
  case (Cons r rs)
  have "yields (view False t (redir_toks r @ concat (map redir_toks rs) @ k0 # ks)) (simple_loop cb k sc saw)
     (Simple (SimpleCommand (sc_assignments sc) (sc_name sc) (sc_args sc) ((sc_redirects sc @ [r]) @ rs)))
     (view False t (k0 # ks))"
    by (rule turn_redirect)
       (use Cons.prems Cons.IH [of _ "SimpleCommand (sc_assignments sc) (sc_name sc) (sc_args sc) (sc_redirects sc @ [r])"]
        in simp_all)
  then show ?case by simp
qed

lemma loop_args:
  assumes "list_all ok_word ws" "list_all ok_redir rs" "ends_command k0"
  shows "yields (view False t (concat (map word_toks ws) @ concat (map redir_toks rs) @ k0 # ks)) (simple_loop cb k sc True)
     (Simple (SimpleCommand (sc_assignments sc) (sc_name sc) (sc_args sc @ ws) (sc_redirects sc @ rs)))
     (view False t (k0 # ks))"
  using assms(1)
proof (induction ws arbitrary: k sc)
  case Nil
  then show ?case using loop_redirects [OF assms(2,3)] by simp
next
  case (Cons w ws)
  have "yields (view False t (word_toks w @ concat (map word_toks ws) @ concat (map redir_toks rs) @ k0 # ks))
     (simple_loop cb k sc True)
     (Simple (SimpleCommand (sc_assignments sc) (sc_name sc) ((sc_args sc @ [w]) @ ws) (sc_redirects sc @ rs)))
     (view False t (k0 # ks))"
    by (rule turn_arg)
       (use Cons.prems Cons.IH [of _ "SimpleCommand (sc_assignments sc) (sc_name sc) (sc_args sc @ [w]) (sc_redirects sc)"]
        in simp_all)
  then show ?case by simp
qed

lemma tail_first:
  assumes "list_all ok_word ws" "list_all ok_redir rs" "ends_command k0"
  shows "\<exists>k1 ks1. concat (map word_toks ws) @ concat (map redir_toks rs) @ k0 # ks = k1 # ks1 \<and> k1 \<noteq> LParen"
proof (cases ws)
  case (Cons w ws')
  then obtain k1 ts where "word_toks w = k1 # ts" "is_word_token k1" using assms(1) word_first [of w] by auto
  then show ?thesis using Cons by (auto simp: is_word_token_def)
next
  case Nil
  show ?thesis
  proof (cases rs)
    case (Cons r rs')
    then show ?thesis using Nil assms(2) redir_first [of r] by auto
  qed (use Nil assms(3) in \<open>auto simp: ends_command_def\<close>)
qed

lemma loop_simple:
  assumes "ok_simple (SimpleCommand as name ws rs)" "ends_command k0"
  shows "yields (view False t (simple_toks (SimpleCommand as name ws rs) @ k0 # ks))
     (simple_loop cb k (SimpleCommand bs None [] []) False)
     (Simple (SimpleCommand (bs @ as) name ws rs)) (view False t (k0 # ks))"
proof -
  let ?rest = "concat (map word_toks ws) @ concat (map redir_toks rs) @ k0 # ks"
  have ok: "list_all ok_word ws" "list_all ok_redir rs" using assms(1) by (simp_all add: ok_simple_def)
  have start: "yields (view False t ((case name of None \<Rightarrow> [] | Some w \<Rightarrow> word_toks w) @ ?rest))
     (simple_loop cb j (SimpleCommand cs None [] []) False) (Simple (SimpleCommand cs name ws rs)) (view False t (k0 # ks))"
    for j cs
  proof (cases name)
    case None
    then show ?thesis
      using assms loop_redirects [OF ok(2) assms(2), of t ks cb j "SimpleCommand cs None [] []" False]
      by (simp add: ok_simple_def)
  next
    case (Some w)
    obtain k1 ks1 where r: "?rest = k1 # ks1" "k1 \<noteq> LParen" using tail_first [OF ok assms(2)] by blast
    have "yields (view False t (word_toks w @ k1 # ks1)) (simple_loop cb j (SimpleCommand cs None [] []) False)
       (Simple (SimpleCommand cs (Some w) ws rs)) (view False t (k0 # ks))"
      by (rule turn_name [OF _ r(2)])
         (use Some assms loop_args [OF ok assms(2), of t ks cb _ "SimpleCommand cs (Some w) [] []"] r(1)
          in \<open>auto simp: ok_simple_def\<close>)
    then show ?thesis using r(1) Some by simp
  qed
  have "list_all (\<lambda>(x, w). is_valid_name x \<and> bare_word w) as" using assms(1) by (simp add: ok_simple_def)
  then have "yields (view False t (map assign_tok as @ (case name of None \<Rightarrow> [] | Some w \<Rightarrow> word_toks w) @ ?rest))
     (simple_loop cb k (SimpleCommand bs None [] []) False) (Simple (SimpleCommand (bs @ as) name ws rs)) (view False t (k0 # ks))"
  proof (induction as arbitrary: k bs)
    case Nil
    then show ?case using start by simp
  next
    case (Cons a as)
    obtain x v where a: "a = (x, v)" by fastforce
    have "yields (view False t (assign_tok (x, v) # map assign_tok as @ (case name of None \<Rightarrow> [] | Some w \<Rightarrow> word_toks w) @ ?rest))
       (simple_loop cb k (SimpleCommand bs None [] []) False)
       (Simple (SimpleCommand ((bs @ [(x, v)]) @ as) name ws rs)) (view False t (k0 # ks))"
      by (rule turn_assign) (use Cons.prems Cons.IH [of _ "bs @ [(x, v)]"] a in simp_all)
    then show ?case using a by simp
  qed
  then show ?thesis by (simp add: simple_toks_def)
qed

lemma yields_simple:
  assumes "ok_simple sc" "ends_command k0"
  shows "yields (view False t (simple_toks sc @ k0 # ks)) (parse_simple_command cb k) (Simple sc) (view False t (k0 # ks))"
  using loop_simple [of "sc_assignments sc" "sc_name sc" "sc_args sc" "sc_redirects sc" k0 t ks cb k "[]"] assms
  by (simp add: parse_simple_command_def empty_command_def)

end
