(* ===== verification/ScriptRoundtrip.thy ===== *)
theory ScriptRoundtrip
  imports PrintParse
begin

text \<open>
  The printer for scripts, and the round trip: parsing the text of a printable script gives the script.
\<close>

section \<open>The printer\<close>

fun is_background :: "command \<Rightarrow> bool" where
  "is_background (Background c) = True"
| "is_background c = False"

text \<open>The operands of an and-or list.\<close>

fun is_element :: "command \<Rightarrow> bool" where
  "is_element (Simple sc) = True"
| "is_element (Pipeline scs neg) = True"
| "is_element (Subshell s) = True"
| "is_element (Group s) = True"
| "is_element c = False"

fun pipe_toks :: "simple_command list \<Rightarrow> token_kind list" where
  "pipe_toks [] = []"
| "pipe_toks [sc] = simple_toks sc"
| "pipe_toks (sc # sc2 # scs) = simple_toks sc @ Pipe # pipe_toks (sc2 # scs)"

fun cmd_toks :: "command \<Rightarrow> token_kind list"
  and script_toks :: "script \<Rightarrow> token_kind list" where
  "cmd_toks (Simple sc) = simple_toks sc"
| "cmd_toks (Pipeline scs neg) = (if neg then [Bang] else []) @ pipe_toks scs"
| "cmd_toks (AndCmd l r) = cmd_toks l @ AndAnd # cmd_toks r"
| "cmd_toks (OrCmd l r) = cmd_toks l @ OrOr # cmd_toks r"
| "cmd_toks (Sequence s) = []"
| "cmd_toks (Background c) = cmd_toks c @ [Amp]"
| "cmd_toks (Subshell s) = LParen # script_toks s @ [RParen]"
| "cmd_toks (Group s) = LBrace # script_toks s @ [RBrace]"
| "script_toks [] = []"
| "script_toks (c # cs) = cmd_toks c @ Newline # script_toks cs"

definition print_script :: "script \<Rightarrow> string" where
  "print_script s = render False (script_toks s)"

text \<open>
  The scripts the parser can give, without heredocs and substitutions: a pipeline has two commands or is
  a negated one; and-or lists nest to the left; only a whole list is in the background.
\<close>

fun ok_cmd :: "command \<Rightarrow> bool"
  and ok_script :: "script \<Rightarrow> bool" where
  "ok_cmd (Simple sc) = ok_simple sc"
| "ok_cmd (Pipeline scs neg) = (list_all ok_simple scs \<and> (case scs of [] \<Rightarrow> False | [sc] \<Rightarrow> neg | _ \<Rightarrow> True))"
| "ok_cmd (AndCmd l r) = (ok_cmd l \<and> \<not> is_background l \<and> ok_cmd r \<and> is_element r)"
| "ok_cmd (OrCmd l r) = (ok_cmd l \<and> \<not> is_background l \<and> ok_cmd r \<and> is_element r)"
| "ok_cmd (Sequence s) = False"
| "ok_cmd (Background c) = (ok_cmd c \<and> \<not> is_background c)"
| "ok_cmd (Subshell s) = ok_script s"
| "ok_cmd (Group s) = ok_script s"
| "ok_script [] = True"
| "ok_script (c # cs) = (ok_cmd c \<and> ok_script cs)"

section \<open>First tokens\<close>

definition starts_command :: "token_kind \<Rightarrow> bool" where
  "starts_command k \<longleftrightarrow> is_word_token k \<or> is_redirect_token k \<or> k \<in> {Bang, LParen, LBrace}"

lemma enc_inj: "enc s = enc s' \<longleftrightarrow> s = s'"
  by (metis unq_enc)

lemma enc_reserved: "s \<notin> set reserved \<Longrightarrow> enc s \<notin> set reserved"
proof -
  have "enc x = x" if "x \<in> set reserved" for x
    using that by (auto simp: reserved_def plain_char_def is_ident_char_def is_ascii_alphanumeric_def is_ascii_alphabetic_def)
  then show "s \<notin> set reserved \<Longrightarrow> enc s \<notin> set reserved" by (metis enc_inj)
qed

lemma reserved_chars: "x \<in> set reserved \<Longrightarrow> CHR ''$'' \<notin> set x \<and> CHR ''='' \<notin> set x"
  by (auto simp: reserved_def)

lemma unsupported_word: "w \<notin> set reserved \<Longrightarrow> unsupported (TkWord w) = None"
  by (auto simp: unsupported_def reserved_def)

lemma unsupported_other: "\<forall>w. k \<noteq> TkWord w \<Longrightarrow> unsupported k = None"
  by (cases k) (auto simp: unsupported_def)

lemma name_first:
  assumes "ok_name w" "word_toks w = k # ks"
  shows "unsupported k = None"
proof (cases "\<exists>x. k = TkWord x")
  case True
  then have k: "k = TkWord (word_raw w)" "bare_word w"
    using assms by (auto simp: ok_name_def elim!: word_toks.elims)
  have "word_raw w \<notin> set reserved"
    using k(2) assms(1) enc_reserved reserved_chars
    by (cases w rule: bare_word.cases) (fastforce simp: ok_name_def)+
  then show ?thesis using k(1) unsupported_word by simp
qed (use unsupported_other in blast)

lemma simple_first:
  assumes "ok_simple sc"
  shows "\<exists>k ks. simple_toks sc = k # ks \<and> (is_word_token k \<or> is_redirect_token k) \<and> unsupported k = None"
proof -
  obtain as name ws rs where sc: "sc = SimpleCommand as name ws rs" by (cases sc)
  show ?thesis
  proof (cases as)
    case (Cons a as')
    have "fst a @ CHR ''='' # word_raw (snd a) \<notin> set reserved" using reserved_chars by fastforce
    then show ?thesis
      using Cons sc unsupported_word by (simp add: simple_toks_def assign_tok_def is_word_token_def)
  next
    case Nil
    show ?thesis
    proof (cases name)
      case (Some w)
      then have w: "ok_name w" using assms sc by (simp add: ok_simple_def)
      then have "ok_word w" by (simp add: ok_name_def)
      then obtain k ks where "word_toks w = k # ks" "is_word_token k" using word_first [of w] by blast
      moreover note w
      ultimately show ?thesis using name_first Some Nil sc by (auto simp: simple_toks_def)
    next
      case None
      then obtain r rs' where "rs = r # rs'" "ok_redir r" using assms Nil sc by (cases rs) (auto simp: ok_simple_def)
      moreover from this obtain fd op ks where "redir_toks r = TkRedirect fd op # ks" using redir_first by blast
      ultimately show ?thesis
        using None Nil sc assms unsupported_other by (auto simp: simple_toks_def ok_simple_def is_redirect_token_def)
    qed
  qed
qed

lemma word_or_redirect:
  "is_word_token k \<or> is_redirect_token k \<Longrightarrow> starts_command k \<and> k \<notin> {Bang, LParen, LBrace, Newline} \<and> \<not> ends_command k"
  by (cases k) (auto simp: is_word_token_def is_redirect_token_def starts_command_def ends_command_def)

lemma simple_start:
  assumes "ok_simple sc"
  obtains k ks where "simple_toks sc = k # ks" "starts_command k" "k \<notin> {Bang, LParen, LBrace, Newline}" "unsupported k = None"
  using simple_first [OF assms] word_or_redirect by blast

lemma pipe_toks_Cons: "pipe_toks (sc # scs) = simple_toks sc @ concat (map (\<lambda>sc. Pipe # simple_toks sc) scs)"
  by (induction scs arbitrary: sc) auto

lemma cmd_first: "ok_cmd c \<Longrightarrow> \<exists>k ks. cmd_toks c = k # ks \<and> starts_command k"
  and "ok_script s \<Longrightarrow> True"
proof (induction c and s rule: ok_cmd_ok_script.induct)
  case (1 sc)
  then show ?case using simple_first [of sc] by (auto simp: starts_command_def)
next
  case (2 scs neg)
  then obtain sc scs' where "scs = sc # scs'" "ok_simple sc" by (cases scs) auto
  then show ?case using simple_first [of sc] by (auto simp: starts_command_def pipe_toks_Cons)
qed (auto simp: starts_command_def)

lemma starts_not: "starts_command k \<Longrightarrow> k \<notin> {Newline, Eof, RParen, RBrace, Pipe, Semi, Amp, AndAnd, OrOr}"
  by (auto simp: starts_command_def is_word_token_def is_redirect_token_def split: token_kind.splits)

section \<open>The grammar\<close>

lemma yields_skip:
  "k0 \<noteq> Newline \<Longrightarrow> yields (view False t (k0 # ks)) (skip_newlines k any) any (view False t (k0 # ks))"
  by (rule yields_fuel) (auto intro!: yields_peek_kind)

lemma skip_then:
  assumes "k0 \<noteq> Newline" "\<And>any. yields (view False t (k0 # ks)) (f any) c Q"
  shows "yields (view False t (k0 # ks)) (andThen (skip_newlines k any) f) c Q"
  by (rule yields_then [OF yields_skip [OF assms(1)] assms(2)])

lemma yields_flush: "yields (view dq t ks) flush_heredocs () (view dq t ks)"
  unfolding flush_heredocs_def by (rule yields_gets [where b = "[]"]) (simp_all add: view_def)

text \<open>A parser for the commands in a pipeline, as \<open>parse_command\<close> is one.\<close>

definition parses_commands :: "tls \<Rightarrow> command pact \<Rightarrow> bool" where
  "parses_commands t pc \<longleftrightarrow> (\<forall>c k0 ks. ok_cmd c \<longrightarrow> is_element c \<longrightarrow> (\<forall>scs neg. c \<noteq> Pipeline scs neg) \<longrightarrow>
     ends_command k0 \<longrightarrow> yields (view False t (cmd_toks c @ k0 # ks)) pc c (view False t (k0 # ks)))"

lemma parses_then:
  assumes "parses_commands t pc" "ok_cmd e" "is_element e" "\<forall>scs neg. e \<noteq> Pipeline scs neg" "ends_command k0"
    "yields (view False t (k0 # ks)) (f e) c Q"
  shows "yields (view False t (cmd_toks e @ k0 # ks)) (andThen pc f) c Q"
proof (rule yields_then [where a = e])
  show "yields (view False t (cmd_toks e @ k0 # ks)) pc e (view False t (k0 # ks))"
    using assms(1-5) unfolding parses_commands_def by blast
qed (rule assms(6))

lemma parses_simple:
  assumes "parses_commands t pc" "ok_simple sc" "ends_command k0"
    "yields (view False t (k0 # ks)) (f (Simple sc)) c Q"
  shows "yields (view False t (simple_toks sc @ k0 # ks)) (andThen pc f) c Q"
  using parses_then [OF assms(1), of "Simple sc" k0 ks f c Q] assms(2-4) by simp

lemma yields_stages:
  assumes pc: "parses_commands t pc" and scs: "list_all ok_simple scs" and k0: "ends_command k0" "k0 \<noteq> Pipe"
  shows "yields (view False t (concat (map (\<lambda>sc. Pipe # simple_toks sc) scs) @ k0 # ks)) (stages_loop pc k neg before)
     (Pipeline (before @ scs) neg) (view False t (k0 # ks))"
  using scs
proof (induction scs arbitrary: before k)
  case Nil
  show ?case by (rule yields_fuel) (auto intro!: yields_peek_kind simp: k0)
next
  case (Cons sc scs)
  let ?rest = "concat (map (\<lambda>sc. Pipe # simple_toks sc) scs) @ k0 # ks"
  obtain k1 ks1 where r: "?rest = k1 # ks1" "ends_command k1"
    using k0 by (cases scs) (auto simp: ends_command_def)
  have "ok_simple sc" using Cons.prems by simp
  then obtain k2 ks2 where s: "simple_toks sc = k2 # ks2" "k2 \<noteq> Newline" by (rule simple_start) blast
  show ?case
  proof (rule yields_fuel)
    fix j assume k: "k = Suc j"
    have "yields (view False t (simple_toks sc @ k1 # ks1)) (andThen pc (\<lambda>cmd. andThen (command_to_simple cmd)
        (\<lambda>sc. stages_loop pc j neg (before @ [sc])))) (Pipeline (before @ sc # scs) neg) (view False t (k0 # ks))"
      by (rule parses_simple [OF pc _ r(2)])
         (use Cons.prems Cons.IH [of j "before @ [sc]"] r(1) in \<open>simp_all add: command_to_simple_def\<close>)
    then have "yields (view False t (simple_toks sc @ ?rest)) (andThen (skip_newlines j False) (\<lambda>_. andThen pc (\<lambda>cmd.
        andThen (command_to_simple cmd) (\<lambda>sc. stages_loop pc j neg (before @ [sc]))))) (Pipeline (before @ sc # scs) neg)
        (view False t (k0 # ks))"
      unfolding s(1) r(1) append_Cons by (rule skip_then [OF s(2)])
    then show "yields (view False t (concat (map (\<lambda>sc. Pipe # simple_toks sc) (sc # scs)) @ k0 # ks))
        (stages_loop pc k neg before) (Pipeline (before @ sc # scs) neg) (view False t (k0 # ks))"
      unfolding k by (auto intro!: yields_peek_kind yields_next_plain)
  qed simp
qed

lemma yields_pipeline:
  assumes pc: "parses_commands t pc" and c: "ok_cmd c" "is_element c" and k0: "ends_command k0" "k0 \<noteq> Pipe"
  shows "yields (view False t (cmd_toks c @ k0 # ks)) (parse_pipeline_cmd pc k) c (view False t (k0 # ks))"
proof (cases "\<exists>scs neg. c = Pipeline scs neg")
  case False
  obtain k1 ts where k1: "cmd_toks c = k1 # ts" "k1 \<noteq> Bang"
  proof -
    obtain k1 ts where "cmd_toks c = k1 # ts" "starts_command k1" using cmd_first(1) [OF c(1)] by blast
    moreover from this have "k1 \<noteq> Bang"
      using c False by (cases c) (auto elim: simple_start)
    ultimately show ?thesis using that by blast
  qed
  have "yields (view False t (cmd_toks c @ k0 # ks)) (parse_pipeline pc k False) c (view False t (k0 # ks))"
    unfolding parse_pipeline_def
    by (rule parses_then [OF pc c _ k0(1)]) (use False k0(2) c in \<open>auto intro!: yields_peek_kind split: command.splits\<close>)
  then show ?thesis unfolding parse_pipeline_cmd_def k1(1) append_Cons by (intro yields_peek_kind) (simp add: k1(2))
next
  case True
  then obtain sc scs neg where p: "c = Pipeline (sc # scs) neg" "list_all ok_simple (sc # scs)" "scs = [] \<longrightarrow> neg"
    using c(1) by (auto split: list.splits)
  let ?rest = "concat (map (\<lambda>sc. Pipe # simple_toks sc) scs) @ k0 # ks"
  obtain k1 ks1 where r: "?rest = k1 # ks1" "ends_command k1" "k1 = Pipe \<longleftrightarrow> scs \<noteq> []"
    using k0 by (cases scs) (auto simp: ends_command_def)
  have ok: "list_all ok_simple scs" "ok_simple sc" using p(2) by simp_all
  obtain k2 ks2 where s: "simple_toks sc = k2 # ks2" "k2 \<noteq> Bang" by (rule simple_start [OF ok(2)]) blast
  have main: "yields (view False t (simple_toks sc @ ?rest)) (parse_pipeline pc k neg) c (view False t (k0 # ks))"
  proof (cases scs)
    case Nil
    then have "yields (view False t (simple_toks sc @ k0 # ks)) (parse_pipeline pc k neg) c (view False t (k0 # ks))"
      unfolding parse_pipeline_def
      by (intro parses_simple [OF pc ok(2) k0(1)]) (use p(1,3) k0(2) in \<open>auto intro!: yields_peek_kind\<close>)
    then show ?thesis using Nil by simp
  next
    case (Cons sc2 scs2)
    have "yields (view False t (k1 # ks1)) (stages_loop pc k neg [sc]) (Pipeline ([sc] @ scs) neg) (view False t (k0 # ks))"
      using yields_stages [OF pc ok(1) k0, of ks k neg "[sc]"] unfolding r(1) .
    then show ?thesis
      unfolding parse_pipeline_def r(1)
      by (intro parses_simple [OF pc ok(2) r(2)])
         (use p(1) r(3) Cons in \<open>auto intro!: yields_peek_kind simp: command_to_simple_def\<close>)
  qed
  show ?thesis
  proof (cases neg)
    case True
    have "yields (view False t (Bang # simple_toks sc @ ?rest)) (andThen p_next (\<lambda>_. parse_pipeline pc k True)) c (view False t (k0 # ks))"
      by (rule yields_next_plain) (use main True in simp_all)
    then show ?thesis
      unfolding parse_pipeline_cmd_def using p(1) True by (auto intro!: yields_peek_kind simp: pipe_toks_Cons)
  next
    case False
    have "yields (view False t (k2 # ks2 @ ?rest)) (parse_pipeline_cmd pc k) c (view False t (k0 # ks))"
      unfolding parse_pipeline_cmd_def by (rule yields_peek_kind) (use main s False in simp)
    then show ?thesis using p(1) False s(1) by (simp add: pipe_toks_Cons)
  qed
qed

lemma pipeline_then:
  assumes "parses_commands t pc" "ok_cmd e" "is_element e" "ends_command k0" "k0 \<noteq> Pipe"
    "yields (view False t (k0 # ks)) (f e) c Q"
  shows "yields (view False t (cmd_toks e @ k0 # ks)) (andThen (parse_pipeline_cmd pc k) f) c Q"
  by (rule yields_then [where a = e and Q = "view False t (k0 # ks)"])
     (use yields_pipeline [OF assms(1-5)] assms(6) in auto)

lemma andThen_noFuel: "andThen noFuel f = noFuel"
  by (simp add: fun_eq_iff andThen_def)

lemma list_turn:
  assumes pc: "parses_commands t pc" "ok_cmd r" "is_element r" "ends_command k0" "k0 \<noteq> Pipe"
    and op: "k1 = AndAnd \<and> comb = AndCmd \<or> k1 = OrOr \<and> comb = OrCmd"
    and next_turn: "\<And>j. yields (view False t (k0 # ks)) (andThen (list_item_loop pc j (comb l r)) f) a Q"
  shows "yields (view False t (k1 # cmd_toks r @ k0 # ks)) (andThen (list_item_loop pc j l) f) a Q"
proof (cases j)
  case 0
  then show ?thesis by (simp add: yields_def andThen_def)
next
  case (Suc i)
  obtain k2 ts where k2: "cmd_toks r = k2 # ts" "k2 \<noteq> Newline"
    using cmd_first(1) [OF pc(2)] starts_not by blast
  have "yields (view False t (cmd_toks r @ k0 # ks))
      (andThen (parse_pipeline_cmd pc i) (\<lambda>rhs. andThen (list_item_loop pc i (comb l rhs)) f)) a Q"
    by (rule pipeline_then [OF pc]) (rule next_turn)
  then have "yields (view False t (cmd_toks r @ k0 # ks)) (andThen (skip_newlines i False)
      (\<lambda>_. andThen (parse_pipeline_cmd pc i) (\<lambda>rhs. andThen (list_item_loop pc i (comb l rhs)) f))) a Q"
    unfolding k2(1) append_Cons by (rule skip_then [OF k2(2)])
  then have "yields (view False t (k1 # cmd_toks r @ k0 # ks)) (andThen p_next (\<lambda>_. andThen (skip_newlines i False)
      (\<lambda>_. andThen (parse_pipeline_cmd pc i) (\<lambda>rhs. andThen (list_item_loop pc i (comb l rhs)) f)))) a Q"
    by (rule yields_next_plain) (use op in auto)
  then show ?thesis
    unfolding Suc list_item_loop.simps andThen_assoc using op
    by (auto intro!: yields_peek_kind simp: andThen_assoc)
qed

lemma element_chain:
  assumes "parses_commands t pc" "is_element e" "ok_cmd e" "ends_command k0" "k0 \<noteq> Pipe"
    "\<And>j. yields (view False t (k0 # ks)) (andThen (list_item_loop pc j e) f) a Q"
  shows "yields (view False t (cmd_toks e @ k0 # ks))
     (andThen (parse_pipeline_cmd pc k) (\<lambda>first. andThen (list_item_loop pc i first) f)) a Q"
  by (rule pipeline_then [OF assms(1,3,2,4,5)]) (rule assms(6))

lemma yields_chain:
  assumes pc: "parses_commands t pc"
  shows "ok_cmd c \<Longrightarrow> \<not> is_background c \<Longrightarrow> ends_command k0 \<Longrightarrow> k0 \<noteq> Pipe \<Longrightarrow>
     (\<And>j. yields (view False t (k0 # ks)) (andThen (list_item_loop pc j c) f) a Q) \<Longrightarrow>
     yields (view False t (cmd_toks c @ k0 # ks))
       (andThen (parse_pipeline_cmd pc k) (\<lambda>first. andThen (list_item_loop pc i first) f)) a Q"
    and "ok_script s \<Longrightarrow> True"
proof (induction c and s arbitrary: k0 ks k i rule: ok_cmd_ok_script.induct)
  case (1 sc)
  show ?case by (rule element_chain [OF pc]) (use "1.prems" in simp_all)
next
  case (2 scs neg)
  show ?case by (rule element_chain [OF pc]) (use "2.prems" in simp_all)
next
  case (7 s)
  show ?case by (rule element_chain [OF pc]) (use "7.prems" in simp_all)
next
  case (8 s)
  show ?case by (rule element_chain [OF pc]) (use "8.prems" in simp_all)
next
  case (3 l r)
  have "yields (view False t (AndAnd # cmd_toks r @ k0 # ks)) (andThen (list_item_loop pc j l) f) a Q" for j
    by (rule list_turn [OF pc, where comb = AndCmd]) (use "3.prems" in auto)
  then show ?case using "3.IH"(1) [of AndAnd "cmd_toks r @ k0 # ks" k i] "3.prems" by (simp add: ends_command_def)
next
  case (4 l r)
  have "yields (view False t (OrOr # cmd_toks r @ k0 # ks)) (andThen (list_item_loop pc j l) f) a Q" for j
    by (rule list_turn [OF pc, where comb = OrCmd]) (use "4.prems" in auto)
  then show ?case using "4.IH"(1) [of OrOr "cmd_toks r @ k0 # ks" k i] "4.prems" by (simp add: ends_command_def)
qed simp_all

lemma list_stop:
  assumes "k0 \<notin> {AndAnd, OrOr}" "yields (view False t (k0 # ks)) (f c) a Q"
  shows "yields (view False t (k0 # ks)) (andThen (list_item_loop pc j c) f) a Q"
proof (cases j)
  case 0
  then show ?thesis by (simp add: yields_def andThen_def)
next
  case (Suc i)
  then show ?thesis using assms by (auto intro!: yields_peek_kind simp: andThen_assoc)
qed

lemma yields_item:
  assumes pc: "parses_commands t pc" and c: "ok_cmd c"
  shows "yields (view False t (cmd_toks c @ Newline # ks)) (parse_list_item pc k) c (view False t (Newline # ks))"
proof (cases "is_background c")
  case False
  show ?thesis
    unfolding parse_list_item_def
    by (rule yields_chain(1) [OF pc c False]) (auto intro!: list_stop yields_peek_kind simp: ends_command_def)
next
  case True
  then obtain b where b: "c = Background b" by (cases c) auto
  have "yields (view False t (cmd_toks b @ Amp # Newline # ks)) (parse_list_item pc k) (Background b) (view False t (Newline # ks))"
    unfolding parse_list_item_def
    by (rule yields_chain(1) [OF pc])
       (use c b in \<open>auto intro!: list_stop yields_peek_kind yields_next_plain simp: ends_command_def\<close>)
  then show ?thesis by (simp add: b)
qed

lemma script_first: "ok_script s \<Longrightarrow> k0 \<noteq> Newline \<Longrightarrow> \<exists>k ks'. script_toks s @ k0 # ks = k # ks' \<and> k \<noteq> Newline"
  using cmd_first(1) starts_not by (cases s) fastforce+

text \<open>After an item: its line ends, and the next begins or the script does.\<close>

lemma line_end:
  assumes "ok_script s" "k0 \<noteq> Newline" "yields (view False t (script_toks s @ k0 # ks)) m a Q"
  shows "yields (view False t (Newline # script_toks s @ k0 # ks))
     (andThen skip_list_separator (\<lambda>_. andThen (skip_newlines k False) (\<lambda>_. m))) a Q"
proof -
  obtain k1 ks1 where r: "script_toks s @ k0 # ks = k1 # ks1" "k1 \<noteq> Newline" using script_first assms(1,2) by blast
  have lines: "yields (view False t (Newline # k1 # ks1)) (skip_newlines i any) True (view False t (k1 # ks1))" for i any
  proof (rule yields_fuel)
    fix j assume i: "i = Suc j"
    have "yields (view False t (Newline # k1 # ks1)) (andThen p_next (\<lambda>_. andThen flush_heredocs (\<lambda>_. skip_newlines j True)))
        True (view False t (k1 # ks1))"
      by (rule yields_next_plain, rule yields_then [OF yields_flush], rule yields_skip [OF r(2)]) simp
    then show "yields (view False t (Newline # k1 # ks1)) (skip_newlines i any) True (view False t (k1 # ks1))"
      unfolding i by (auto intro!: yields_peek_kind)
  qed simp
  have "yields (view False t (Newline # k1 # ks1)) (andThen (skip_newlines k False) (\<lambda>_. m)) a Q"
    by (rule yields_then [OF lines]) (use assms(3) r(1) in simp)
  then have "yields (view False t (Newline # k1 # ks1))
      (andThen skip_list_separator (\<lambda>_. andThen (skip_newlines k False) (\<lambda>_. m))) a Q"
    unfolding skip_list_separator_def andThen_assoc by (intro yields_peek_kind) simp
  then show ?thesis using r(1) by simp
qed

lemma yields_script_loop:
  assumes pc: "parses_commands t pc" and k0: "k0 \<in> {Eof, RParen, RBrace}"
  shows "ok_script s \<Longrightarrow> yields (view False t (script_toks s @ k0 # ks)) (script_loop pc k before) (before @ s) (view False t (k0 # ks))"
proof (induction s arbitrary: k before)
  case Nil
  show ?case by (rule yields_fuel) (use k0 in \<open>auto intro!: yields_peek_kind\<close>)
next
  case (Cons c s)
  obtain k1 ts where k1: "cmd_toks c = k1 # ts" "k1 \<notin> {Eof, RParen, RBrace}"
    using cmd_first(1) [of c] starts_not Cons.prems by fastforce
  show ?case
  proof (rule yields_fuel)
    fix j assume k: "k = Suc j"
    have "yields (view False t (Newline # script_toks s @ k0 # ks))
        (andThen skip_list_separator (\<lambda>_. andThen (skip_newlines j False) (\<lambda>_. script_loop pc j (before @ [c]))))
        (before @ c # s) (view False t (k0 # ks))"
      by (rule line_end) (use Cons.IH [of j "before @ [c]"] Cons.prems k0 in auto)
    then have "yields (view False t (cmd_toks c @ Newline # script_toks s @ k0 # ks))
        (andThen (parse_list_item pc j) (\<lambda>c. andThen skip_list_separator (\<lambda>_. andThen (skip_newlines j False)
          (\<lambda>_. script_loop pc j (before @ [c]))))) (before @ c # s) (view False t (k0 # ks))"
      by (intro yields_then [where a = c, OF yields_item [OF pc]]) (use Cons.prems in simp_all)
    then show "yields (view False t (script_toks (c # s) @ k0 # ks)) (script_loop pc k before) (before @ c # s) (view False t (k0 # ks))"
      unfolding k using k1 by (auto intro!: yields_peek_kind)
  qed simp
qed

lemma yields_script:
  assumes "parses_commands t pc" "k0 \<in> {Eof, RParen, RBrace}" "ok_script s"
  shows "yields (view False t (script_toks s @ k0 # ks)) (parse_script pc k) s (view False t (k0 # ks))"
proof -
  obtain k1 ks1 where r: "script_toks s @ k0 # ks = k1 # ks1" "k1 \<noteq> Newline"
    using script_first [OF assms(3), of k0 ks] assms(2) by blast
  show ?thesis
    unfolding parse_script_def r(1)
    by (rule skip_then [OF r(2)]) (use yields_script_loop [OF assms, of ks k "[]"] r(1) in simp)
qed

section \<open>Commands\<close>

lemma script_then:
  assumes "parses_commands t pc" "k0 \<in> {Eof, RParen, RBrace}" "ok_script s"
    "yields (view False t (k0 # ks)) (f s) c Q"
  shows "yields (view False t (script_toks s @ k0 # ks)) (andThen (parse_script pc k) f) c Q"
  by (rule yields_then [where a = s, OF yields_script [OF assms(1-3)]]) (rule assms(4))

lemma yields_subshell:
  assumes pc: "parses_commands t pc" and s: "ok_script s"
  shows "yields (view False t (LParen # script_toks s @ RParen # ks)) (parse_subshell (parse_script pc i) k) (Subshell s) (view False t ks)"
proof -
  obtain k1 ks1 where r: "script_toks s @ RParen # ks = k1 # ks1" "k1 \<noteq> Newline"
    using script_first [OF s, of RParen ks] by auto
  have close: "yields (view False t (RParen # ks)) (andThen p_peek (\<lambda>t.
       if tk_kind t = RParen then andThen p_next (\<lambda>_. ret (Subshell s))
       else if tk_kind t = Eof then fail (e1 t) else fail (e2 t))) (Subshell s) (view False t ks)" for e1 e2
    by (rule yields_peek, rule yields_peeked) (auto intro!: yields_next_plain)
  show ?thesis
    unfolding parse_subshell_def peek_span_then r(1)
    by (rule yields_peek, rule yields_peeked, rule yields_next_plain, rule skip_then [OF r(2)], fold r(1),
        rule script_then [OF pc _ s]) (use close in simp_all)
qed

lemma yields_group:
  assumes pc: "parses_commands t pc" and s: "ok_script s"
  shows "yields (view False t (LBrace # script_toks s @ RBrace # ks)) (parse_group (parse_script pc i) k) (Group s) (view False t ks)"
proof -
  obtain k1 ks1 where r: "script_toks s @ RBrace # ks = k1 # ks1" "k1 \<noteq> Newline"
    using script_first [OF s, of RBrace ks] by auto
  have "yields (view False t (RBrace # ks)) (andThen p_peek (\<lambda>t.
       if tk_kind t = RBrace then andThen p_next (\<lambda>_. ret (Group s))
       else if tk_kind t = Eof then fail (e1 t) else fail (e2 t))) (Group s) (view False t ks)" for e1 e2
    by (rule yields_peek, rule yields_peeked) (auto intro!: yields_next_plain)
  then have close: "yields (view False t (RBrace # ks)) (andThen skip_list_separator (\<lambda>_. andThen (skip_newlines k False)
      (\<lambda>_. andThen p_peek (\<lambda>t. if tk_kind t = RBrace then andThen p_next (\<lambda>_. ret (Group s))
       else if tk_kind t = Eof then fail (e1 t) else fail (e2 t))))) (Group s) (view False t ks)" for e1 e2
    unfolding skip_list_separator_def andThen_assoc by (intro yields_peek_kind) (auto intro!: skip_then)
  show ?thesis
    unfolding parse_group_def peek_span_then r(1)
    by (rule yields_peek, rule yields_peeked, rule yields_next_plain, rule skip_then [OF r(2)], fold r(1),
        rule script_then [OF pc _ s]) (use close in simp_all)
qed

lemma yields_command: "parses_commands t (parse_command cb k)"
proof (induction k)
  case 0
  show ?case by (simp add: parses_commands_def yields_def)
next
  case (Suc k)
  show ?case
    unfolding parses_commands_def
  proof (intro allI impI)
    fix c k0 ks
    assume c: "ok_cmd c" "is_element c" "\<forall>scs neg. c \<noteq> Pipeline scs neg" and k0: "ends_command k0"
    show "yields (view False t (cmd_toks c @ k0 # ks)) (parse_command cb (Suc k)) c (view False t (k0 # ks))"
    proof (cases c)
      case (Simple sc)
      then have sc: "ok_simple sc" using c(1) by simp
      obtain k1 ts where k1: "simple_toks sc = k1 # ts" "k1 \<notin> {Bang, LParen, LBrace, Newline}" "unsupported k1 = None"
        by (rule simple_start [OF sc])
      have "yields (view False t (k1 # ts @ k0 # ks)) (parse_simple_command cb k) c (view False t (k0 # ks))"
        using yields_simple [OF sc k0, of t ks cb k] k1(1) Simple by simp
      then show ?thesis
        using k1 Simple by (auto intro!: yields_peek yields_peeked)
    next
      case (Subshell s)
      then show ?thesis
        using yields_subshell [OF Suc, of s "k0 # ks"] c(1) by (auto intro!: yields_peek yields_peeked)
    next
      case (Group s)
      then show ?thesis
        using yields_group [OF Suc, of s "k0 # ks"] c(1) by (auto intro!: yields_peek yields_peeked)
    qed (use c in auto)
  qed
qed

section \<open>The text\<close>

lemma lexable_append: "lexable dq xs \<Longrightarrow> lexable False ys \<Longrightarrow> lexable dq (xs @ ys)"
  by (induction dq xs rule: lexable.induct) auto

lemma lexable_concat: "list_all (\<lambda>x. lexable False (f x)) xs \<Longrightarrow> lexable False (concat (map f xs))"
  by (induction xs) (auto intro: lexable_append)

lemma word_text_plain: "wordy u \<Longrightarrow> word_text u"
  unfolding word_text_def by (intro exI [of _ u] exI [of _ "[]"]) simp

lemma word_text_name: "wordy u \<Longrightarrow> dollar_name n \<Longrightarrow> word_text (u @ CHR ''$'' # n)"
  unfolding word_text_def by (intro exI [of _ u] exI [of _ "CHR ''$'' # n"]) simp

lemma word_text_raw: "bare_word w \<Longrightarrow> word_text (word_raw w)"
  using word_text_name [of "[]"] word_text_plain [OF wordy_enc] word_text_name [OF wordy_enc] special_of_text
  by (cases w rule: bare_word.cases) (auto simp: dollar_name_def)

lemma enc_first: "s \<noteq> [] \<Longrightarrow> \<exists>c u. enc s = c # u \<and> c \<noteq> CHR ''#'' \<and> c \<noteq> CHR ''!''"
  using plain_distinct by (cases s) (auto simp: char_consts)

lemma lexable_raw:
  assumes "bare_word w" "w \<noteq> Literal []"
  shows "ok_token (TkWord (word_raw w))"
proof -
  have "\<exists>c u. word_raw w = c # u \<and> c \<noteq> CHR ''#'' \<and> c \<noteq> CHR ''!''"
    using assms enc_first by (cases w rule: bare_word.cases) fastforce+
  then show ?thesis using word_text_raw [OF assms(1)] by auto
qed

lemma lexable_word: "ok_word w \<Longrightarrow> lexable False (word_toks w)"
  using lexable_raw [of w] by (cases w rule: ok_word.cases) auto

lemma lexable_redirect:
  assumes "ok_redir r"
  shows "lexable False (redir_toks r)"
proof -
  have fd: "ok_token (TkRedirect (rd_fd r) op)" for op using assms by (auto simp: ok_redir_def split: option.splits)
  have "ok_token (TkWord (show_nat m))" for m
  proof -
    obtain c s where c: "show_nat m = c # s" using show_nat_nonempty by (metis neq_Nil_conv)
    have d: "\<forall>c \<in> set (show_nat m). is_ident_char c"
      using show_digits [of m] by (auto simp: is_ident_char_def is_ascii_alphanumeric_def)
    have "wordy s'" if "\<forall>c \<in> set s'. is_ident_char c" for s'
      using that by (induction s') (auto simp: wordy_Cons ident_distinct)
    then show ?thesis using c d ident_distinct [of c] by (auto intro: word_text_plain)
  qed
  moreover have "ok_token (TkWord ''-'')"
    by (auto simp: is_word_char_def char_consts intro!: word_text_plain)
  ultimately show ?thesis
    using assms fd lexable_word by (auto simp: ok_redir_def redir_toks_def split: redirect_target.splits)
qed

lemma word_text_prefix: "\<forall>c \<in> set x. is_word_char c \<and> c \<notin> {BSLASH, CHR ''$'', BTICK} \<Longrightarrow> word_text w \<Longrightarrow> word_text (x @ w)"
proof -
  assume x: "\<forall>c \<in> set x. is_word_char c \<and> c \<notin> {BSLASH, CHR ''$'', BTICK}" and "word_text w"
  then obtain u y where u: "w = u @ y" "wordy u" "y = [] \<or> (\<exists>n. y = CHR ''$'' # n \<and> dollar_name n)"
    by (auto simp: word_text_def)
  have "wordy (x @ u)" using x u(2) by (induction x) (auto simp: wordy_Cons)
  then show "word_text (x @ w)" unfolding word_text_def by (metis append.assoc u(1,3))
qed

lemma lexable_assign:
  assumes "is_valid_name x" "bare_word v"
  shows "ok_token (assign_tok (x, v))"
proof -
  obtain c s where c: "x = c # s" "is_ident_char c" "\<forall>d \<in> set s. is_ident_char d" using valid_name_cases [OF assms(1)] by blast
  have "word_text ((x @ ''='') @ word_raw v)"
    by (rule word_text_prefix [OF _ word_text_raw [OF assms(2)]])
       (use c ident_distinct in \<open>auto simp: is_word_char_def char_consts\<close>)
  then show ?thesis using c ident_distinct [of c] by (auto simp: assign_tok_def)
qed

lemma lexable_simple: "ok_simple sc \<Longrightarrow> lexable False (simple_toks sc)"
proof -
  assume sc: "ok_simple sc"
  have "lexable False (map assign_tok as)" if "list_all (\<lambda>(x, w). is_valid_name x \<and> bare_word w) as" for as
    using that by (induction as) (auto simp: lexable_assign assign_tok_def simp del: ok_token.simps intro: lexable_assign [unfolded assign_tok_def, simplified])
  then show ?thesis
    using sc lexable_word unfolding simple_toks_def ok_simple_def
    by (intro lexable_append lexable_concat)
       (auto simp: list_all_iff ok_name_def lexable_redirect split: option.splits)
qed

lemma lexable_pipe: "list_all ok_simple scs \<Longrightarrow> lexable False (pipe_toks scs)"
  by (induction scs rule: pipe_toks.induct) (auto intro!: lexable_append lexable_simple)

lemma lexable_script: "ok_cmd c \<Longrightarrow> lexable False (cmd_toks c)" "ok_script s \<Longrightarrow> lexable False (script_toks s)"
  by (induction c and s rule: ok_cmd_ok_script.induct)
     (auto intro!: lexable_append lexable_simple lexable_pipe)

text \<open>There is no heredoc to fill.\<close>

lemma fill_redirects_same: "list_all ok_redir rs \<Longrightarrow> fill_redirects cb rs x = (Ok rs, x)"
  by (induction rs) (auto simp: fill_redirect_def ok_redir_def andThen_def split: redirect_target.splits)

lemma fill_simple_same: "ok_simple sc \<Longrightarrow> fill_simple cb sc x = (Ok sc, x)"
  by (cases sc) (simp add: fill_simple_def andThen_def ok_simple_def fill_redirects_same)

lemma fill_stages_same: "list_all ok_simple scs \<Longrightarrow> fill_stages cb scs x = (Ok scs, x)"
  by (induction scs) (simp_all add: fill_simple_same andThen_def)

lemma fill_same:
  "ok_cmd c \<Longrightarrow> fill_cmd cb c x = (Ok c, x)" "ok_script s \<Longrightarrow> fill_script cb s x = (Ok s, x)"
  by (induction c and s rule: ok_cmd_ok_script.induct)
     (simp_all add: fill_simple_same fill_stages_same andThen_def)

lemma yields_lexed:
  assumes "ok_script s" "lexes False (lexer_new src) (script_toks s @ [Eof])"
  shows "fst (parse_script (parse_command cb k) k (parser_new src t)) = OutOfFuel
     \<or> (\<exists>p. parse_script (parse_command cb k) k (parser_new src t) = (Ok s, p) \<and> ps_tls p = t)"
proof -
  have "view False t (script_toks s @ [Eof]) (parser_new src t)"
    using assms(2) by (simp add: view_def parser_new_def)
  then show ?thesis
    using yields_script [OF yields_command _ assms(1), of Eof t "[]" cb k k] by (auto simp: yields_def view_def)
qed

lemma parse_lexed:
  assumes "ok_script s" "lexes False (lexer_new src) (script_toks s @ [Eof])" "\<not> hd_borrowed t"
  shows "parse src t = (Ok s, t\<lparr>hd_queue := []\<rparr>)"
proof -
  obtain n where n: "nesting src t = Suc n" by (simp add: nesting_def)
  let ?m = "parse_script (parse_command (parse_n n) (grammar_fuel src)) (grammar_fuel src) (parser_new src t)"
  have "fst (parse src t) \<noteq> OutOfFuel" using parse_settled [OF assms(3), of src] by (auto simp: settled_def)
  then have "fst ?m \<noteq> OutOfFuel"
    by (cases ?m) (auto simp: parse_def n parse_with_def andThen_def)
  then obtain p where "?m = (Ok s, p)" "ps_tls p = t"
    using yields_lexed [OF assms(1,2), of "parse_n n" "grammar_fuel src" t] by blast
  then show ?thesis
    using assms(3) fill_same(2) [OF assms(1), of "parse_n n"]
    by (simp add: parse_def n parse_with_def andThen_def fill_heredoc_bodies_def)
qed

lemma lexes_printed: "ok_script s \<Longrightarrow> lexes False (lexer_new (print_script s)) (script_toks s @ [Eof])"
  by (rule lexes_render) (simp_all add: lexable_script lexer_new_def remaining_def print_script_def)

lemmas parse_printed = parse_lexed [OF _ lexes_printed]



end
