(* ===== verification/QuoteFacts.thy ===== *)
theory QuoteFacts
  imports ScriptRoundtrip ShellFacts
begin

text \<open>
  Quoting from end to end: any name and any arguments, quoted and printed on a line, reach the program
  unchanged when the line is executed.
\<close>

section \<open>Quoting\<close>

text \<open>Single quotes, or double quotes with escapes for a text that has a single quote in it.\<close>

definition quote :: "string \<Rightarrow> word" where
  "quote s = (if SQUOTE \<in> set s then DoubleQuoted [DQLiteral s] else SingleQuoted s)"

text \<open>An argument is a text, or the value of a variable, written \<open>$x\<close> without quotes.\<close>

datatype arg = Text string | Value string

fun arg_word :: "arg \<Rightarrow> word" where
  "arg_word (Text s) = quote s"
| "arg_word (Value x) = Variable (SimpleVar x)"

fun arg_ok :: "arg \<Rightarrow> bool" where
  "arg_ok (Text s) = True"
| "arg_ok (Value x) = is_valid_name x"

fun arg_value :: "EnvMap \<Rightarrow> arg \<Rightarrow> string" where
  "arg_value env (Text s) = s"
| "arg_value env (Value x) = (case env_get x env of Some v \<Rightarrow> v | None \<Rightarrow> [])"

definition quoted_line :: "string \<Rightarrow> arg list \<Rightarrow> string" where
  "quoted_line name args = print_script [Simple (SimpleCommand [] (Some (quote name)) (map arg_word args) [])]"

lemma ok_quote [simp]: "ok_word (quote s)"
  by (auto simp: quote_def)

lemma ok_quoted:
  "list_all arg_ok args \<Longrightarrow> ok_script [Simple (SimpleCommand [] (Some (quote name)) (map arg_word args) [])]"
proof -
  have "arg_ok a \<Longrightarrow> ok_word (arg_word a)" for a by (cases a) simp_all
  then show "list_all arg_ok args \<Longrightarrow> ?thesis"
    by (auto simp: ok_simple_def ok_name_def list_all_iff) (simp add: quote_def split: if_splits)
qed

lemma expand_quote [simp]: "expand_word oc src (quote s) = ret s"
  by (simp add: quote_def fun_eq_iff andThen_def)

lemma expand_arg: "expand_word oc src (arg_word a) sh = (Ok (arg_value (sh_env sh) a), sh)"
  by (cases a) (simp_all add: var_or_empty_def get_env_def gets_def)

lemma expand_args: "expand_words oc src (map arg_word args) sh = (Ok (map (arg_value (sh_env sh)) args), sh)"
  by (induction args) (simp_all add: andThen_def expand_arg)

lemma quoted_simple:
  assumes "sm_get (sh_aliases sh) name = None" "name \<notin> set shell_intrinsics"
    "resolve_program (sh_registry sh) name (path_var sh) = Some cb"
    "run_program cb (name # map (arg_value (sh_env sh)) args) io sh = (Ok code, sh')"
  shows "execute_simple oc src (SimpleCommand [] (Some (quote name)) (map arg_word args) []) io sh = (Ok code, sh')"
  using assms by (simp add: andThen_def attempt_def settle_def alias_parts_def dispatch_program expand_args)

section \<open>The line\<close>

lemma exec_parsed:
  assumes "sh_parse src sh = (Ok script, sh1)"
    and "run_level oc d script
       \<lparr>io_stdin = reader_new input, io_stdout = length (sh_bufs sh1), io_stderr = Suc (length (sh_bufs sh1))\<rparr>
       (sh1\<lparr>sh_bufs := sh_bufs sh1 @ [[], []]\<rparr>) = (r, sh')" "r = Ok code \<or> r = Err (Exit code)"
  shows "exec_with_stdin oc d src input sh
     = (Ok \<lparr>eo_code = code, eo_stdout = vw_bytes (length (sh_bufs sh1)) (sh_bufs sh'),
            eo_stderr = vw_bytes (Suc (length (sh_bufs sh1))) (sh_bufs sh')\<rparr>,
        sh'\<lparr>sh_last_exit := code\<rparr>)"
  using assms
  by (auto simp add: exec_with_stdin_def andThen_def map_err_def sh_new_writer_def vw_new_def attempt_def
      set_last_exit_def sh_bytes_def del: run_level.simps)

text \<open>
  C7: quoting is safe. For every name that resolves to a program and every list of arguments, texts of
  whatever bytes and values of variables, executing the quoted line calls that program once, with
  exactly the name, the texts and the values, each as one argument: nothing in them is split, expanded or
  run. The input of the call is the program's input and its streams are fresh; the result is the code it
  returns and what it has written, and the shell is as it has left it.
\<close>

theorem quoted_command_runs:
  assumes "list_all arg_ok args" "resolve_program (sh_registry sh) name (path_var sh) = Some cb"
    and "sm_get (sh_aliases sh) name = None" "name \<notin> set shell_intrinsics" "\<not> hd_borrowed (sh_tls sh)"
    and run: "run_program cb (name # map (arg_value (sh_env sh)) args)
       \<lparr>io_stdin = reader_new input, io_stdout = length (sh_bufs sh), io_stderr = Suc (length (sh_bufs sh))\<rparr>
       (sh\<lparr>sh_bufs := sh_bufs sh @ [[], []], sh_tls := (sh_tls sh)\<lparr>hd_queue := []\<rparr>\<rparr>) = (Ok code, sh')"
  shows "exec_with_stdin oc (Suc d) (quoted_line name args) input sh
     = (Ok \<lparr>eo_code = code, eo_stdout = vw_bytes (length (sh_bufs sh)) (sh_bufs sh'),
            eo_stderr = vw_bytes (Suc (length (sh_bufs sh))) (sh_bufs sh')\<rparr>,
        sh'\<lparr>sh_last_exit := code\<rparr>)"
proof -
  let ?sc = "SimpleCommand [] (Some (quote name)) (map arg_word args) []"
  let ?sh1 = "sh\<lparr>sh_tls := (sh_tls sh)\<lparr>hd_queue := []\<rparr>\<rparr>"
  let ?sh = "?sh1\<lparr>sh_bufs := sh_bufs ?sh1 @ [[], []]\<rparr>"
  let ?io = "\<lparr>io_stdin = reader_new input, io_stdout = length (sh_bufs ?sh1), io_stderr = Suc (length (sh_bufs ?sh1))\<rparr>"
  have same: "?sh1\<lparr>sh_bufs := sh_bufs sh @ [[], []]\<rparr>
      = sh\<lparr>sh_bufs := sh_bufs sh @ [[], []], sh_tls := (sh_tls sh)\<lparr>hd_queue := []\<rparr>\<rparr>" "sh_bufs ?sh1 = sh_bufs sh"
    by (cases sh, simp)+
  have "sh_parse (quoted_line name args) sh = (Ok [Simple ?sc], ?sh1)"
    using parse_printed [OF ok_quoted ok_quoted assms(5), OF assms(1) assms(1)] by (simp add: sh_parse_def quoted_line_def)
  moreover have "execute_simple oc (run_level oc d) ?sc ?io ?sh = (Ok code, sh')"
    unfolding same using assms(2-4) run by (intro quoted_simple) (simp_all add: path_var_def)
  then have "run_level oc (Suc d) [Simple ?sc] ?io ?sh = (Ok code, sh'\<lparr>sh_last_exit := code\<rparr>)"
    by (simp add: execute_script_def andThen_def set_last_exit_def)
  ultimately show ?thesis
    using exec_parsed [of "quoted_line name args" sh "[Simple ?sc]" ?sh1] unfolding same(2) by simp
qed

text \<open>\<open>echo\<close>, with a quote, a substitution, a variable and an empty text for its arguments.\<close>

theorem quoted_command_runs_witness:
  "exec_with_stdin False 1 (quoted_line ''echo'' [Text (''it'' @ [SQUOTE] @ ''s''), Text ''$(rm *)'', Value ''HOME'', Text []]) [] text_shell
   = (Ok \<lparr>eo_code = 0, eo_stdout = ''it'' @ [SQUOTE] @ ''s $(rm *) /home '' @ [CHR 0x0A], eo_stderr = []\<rparr>,
      text_shell\<lparr>sh_bufs := [[], [], ''it'' @ [SQUOTE] @ ''s $(rm *) /home '' @ [CHR 0x0A], []], sh_last_exit := 0\<rparr>)"
  (is "exec_with_stdin _ _ (quoted_line _ ?args) _ _ = (_, ?end)")
proof -
  let ?sh = "text_shell\<lparr>sh_bufs := sh_bufs text_shell @ [[], []], sh_tls := (sh_tls text_shell)\<lparr>hd_queue := []\<rparr>\<rparr>"
  let ?io = "\<lparr>io_stdin = reader_new [], io_stdout = length (sh_bufs text_shell), io_stderr = Suc (length (sh_bufs text_shell))\<rparr>"
  have tls: "sh_tls text_shell = tls_init" by (simp add: install_def add_program_def bare_shell_def)
  have args: "map (arg_value (sh_env text_shell)) ?args = [''it'' @ [SQUOTE] @ ''s'', ''$(rm *)'', ''/home'', []]" by code_simp
  have "resolve_program (sh_registry text_shell) ''echo'' (path_var text_shell) = Some builtin_echo"
    unfolding resolve_program_def text_shell_paths text_shell_registry option.case ..
  moreover have "run_program builtin_echo (''echo'' # map (arg_value (sh_env text_shell)) ?args) ?io ?sh
      = (Ok 0, ?sh\<lparr>sh_bufs := [[], [], ''it'' @ [SQUOTE] @ ''s $(rm *) /home '' @ [CHR 0x0A], []]\<rparr>)"
    unfolding args by (simp add: run_filter [OF filters_echo] vw_write_def vw_bytes_def echo_text_def char_consts)
  moreover have "list_all arg_ok ?args" by code_simp
  moreover have "sm_get (sh_aliases text_shell) ''echo'' = None" "''echo'' \<notin> set shell_intrinsics"
      "\<not> hd_borrowed (sh_tls text_shell)"
    by (simp_all add: text_shell_registry shell_intrinsics_def tls tls_init_def)
  moreover have same: "?sh\<lparr>sh_bufs := bufs, sh_last_exit := 0\<rparr> = text_shell\<lparr>sh_bufs := bufs, sh_last_exit := 0\<rparr>" for bufs
    unfolding tls by (simp add: install_def add_program_def bare_shell_def tls_init_def)
  ultimately show ?thesis
    using quoted_command_runs [of ?args text_shell "''echo''" builtin_echo "[]"] by (simp add: vw_bytes_def)
qed

end
