(* ===== verification/AdjacentQuotes.thy ===== *)
theory AdjacentQuotes
  imports ScriptRoundtrip
begin

text \<open>
  Quotes that follow a word without a space between them. The lexer gives the word and the quoted text as
  two tokens, as it does when there is a space, and the parser makes two words of them.
\<close>

section \<open>The tokens\<close>

lemma word_loop_quote: "remaining l = DQUOTE # r \<Longrightarrow> word_loop l = (Ok (), l)"
  by (subst word_loop.simps) (simp add: peek_first is_word_char_def char_consts)

lemma wordy_assign: "is_valid_name x \<Longrightarrow> wordy (x @ ''='')"
proof -
  assume x: "is_valid_name x"
  have "wordy (s @ ''='')" if "\<forall>d \<in> set s. is_ident_char d" for s
    using that by (induction s) (simp add: is_word_char_def char_consts, auto simp: wordy_Cons ident_distinct)
  moreover have "\<forall>d \<in> set x. is_ident_char d" using valid_name_cases [OF x] by auto
  ultimately show ?thesis by blast
qed

lemma lex_assign_quote:
  assumes l: "remaining l = (x @ ''='') @ DQUOTE # r" and x: "is_valid_name x"
  shows "\<exists>sp. next_token False l = (Ok (Token (TkWord (x @ ''='')) sp), skip (x @ ''='') l)"
proof -
  obtain c s where c: "x = c # s" "is_name_start c" "is_ident_char c" using valid_name_cases [OF x] by blast
  have "\<not> high DQUOTE" by (simp add: high_def char_consts)
  then have "word_loop l = word_loop (skip (x @ ''='') l)" by (rule word_loop_over [OF l wordy_assign [OF x]])
  also have "\<dots> = (Ok (), skip (x @ ''='') l)" by (rule word_loop_quote) (rule remaining_skip [OF l])
  finally have w: "word_loop l = (Ok (), skip (x @ ''='') l)" .
  have "starts_word c" "c \<noteq> CHR ''#''" "c \<noteq> CHR ''!''"
    using ident_distinct [OF c(3)] by (simp_all add: starts_word_def)
  moreover have "\<not> is_ascii_digit c"
    using c(2) by (auto simp: is_name_start_def is_ascii_alphabetic_def is_ascii_digit_def char_consts)
  ultimately have "next_token False l = lex_word (lx_pos l) l"
    using next_token_word [of l c "s @ ''='' @ DQUOTE # r"] l c(1) by simp
  then show ?thesis using slice_skip [OF l] by (simp add: lex_word_def w andThen_def)
qed

lemma lexes_end: "remaining l = [NL] \<Longrightarrow> lexes False l [Newline, Eof]"
proof -
  assume l: "remaining l = [NL]"
  have n: "next_token False l = (Ok (Token Newline (span_from (lx_pos l) (skip [NL] l))), skip [NL] l)"
    using l by (simp add: token_steps)
  have r: "remaining (skip [NL] l) = []" using l remaining_skip [of l "[NL]" "[]"] by simp
  have "skip_whitespace_inline (skip [NL] l) = skip [NL] l"
    using advance_while_end [OF r] by (simp add: skip_whitespace_inline_def)
  then have "next_token False (skip [NL] l) = (Ok (Token Eof (span_eof (lx_pos (skip [NL] l)))), skip [NL] l)"
    using r by (subst next_token.simps) (simp add: Let_def peek_None [THEN iffD2])
  then show ?thesis using n by (auto intro!: lexes.intros)
qed

section \<open>An assignment of a quoted text\<close>

text \<open>
  C38: an assignment of a quoted text is not one. For every variable and every text that is not empty,
  the line \<open>x="text"\<close>, the text escaped as double quotes need it, is parsed as the command named by the
  text, with the empty value assigned to the variable for it.
\<close>

theorem quoted_assignment_is_command:
  assumes x: "is_valid_name x" and s: "s \<noteq> []" and "\<not> hd_borrowed t"
  shows "parse (x @ ''='' @ DQUOTE # dq_enc s @ [DQUOTE, NL]) t
     = (Ok [Simple (SimpleCommand [(x, Literal [])] (Some (DoubleQuoted [DQLiteral s])) [] [])], t\<lparr>hd_queue := []\<rparr>)"
proof (rule parse_lexed [OF _ _ assms(3)])
  show "ok_script [Simple (SimpleCommand [(x, Literal [])] (Some (DoubleQuoted [DQLiteral s])) [] [])]"
    using x s by (simp add: ok_simple_def ok_name_def)
  let ?l = "lexer_new (x @ ''='' @ DQUOTE # dq_enc s @ [DQUOTE, NL])"
  let ?l1 = "skip (x @ ''='') ?l"
  have l: "remaining ?l = (x @ ''='') @ DQUOTE # dq_enc s @ [DQUOTE, NL]" by (simp add: lexer_new_def remaining_def)
  have r1: "remaining ?l1 = DQUOTE # dq_enc s @ [DQUOTE, NL]" using l by (rule remaining_skip)
  have open_quote: "next_token False ?l1 = (Ok (Token DoubleQuoteOpen (span_from (lx_pos ?l1) (skip [DQUOTE] ?l1))), skip [DQUOTE] ?l1)"
    using r1 by (simp add: token_steps del: skip_skip)
  have "lexes True (skip [DQUOTE] ?l1) [DQText s, DoubleQuoteClose, Newline, Eof]"
    by (rule lexes_text [where d = DQUOTE and r = "[NL]"])
       (use s r1 remaining_skip [of ?l1 "[DQUOTE]"] in \<open>auto intro: lexes_close lexes_end\<close>)
  then have "lexes False ?l1 [DoubleQuoteOpen, DQText s, DoubleQuoteClose, Newline, Eof]"
    using lexes_Cons [OF open_quote] by simp
  then show "lexes False ?l (script_toks [Simple (SimpleCommand [(x, Literal [])] (Some (DoubleQuoted [DQLiteral s])) [] [])] @ [Eof])"
    using lex_assign_quote [OF l x] by (auto simp: simple_toks_def assign_tok_def intro: lexes_Cons)
qed

theorem quoted_assignment_is_command_witness:
  "parse (''X='' @ DQUOTE # dq_enc ''a b'' @ [DQUOTE, NL]) tls_init
   = (Ok [Simple (SimpleCommand [(''X'', Literal [])] (Some (DoubleQuoted [DQLiteral ''a b''])) [] [])], tls_init)"
proof -
  have t: "tls_init\<lparr>hd_queue := []\<rparr> = tls_init" "\<not> hd_borrowed tls_init" by (simp_all add: tls_init_def)
  have "is_valid_name ''X''" by code_simp
  from quoted_assignment_is_command [OF this _ t(2), of "''a b''"] show ?thesis unfolding t(1) by simp
qed

end
