(* ===== verification/ControlFlow.thy ===== *)
theory ControlFlow
  imports QuoteFacts
begin

text \<open>
  The control flow of scripts, from their text to what they print. A reference semantics says for lists,
  and-or lists, negation, groups, subshells, background commands and \<open>exit\<close> which commands run and with
  which code the script ends; executing the printed script agrees with it.
\<close>

section \<open>The reference semantics\<close>

text \<open>
  A program by its name, which writes a text and returns a code; \<open>echo $?\<close>; and \<open>exit n\<close>. A script is a
  list of commands put together from these.
\<close>

datatype atom = Do string | Report | Leave nat

datatype ctl =
    Atom atom
  | Neg atom
  | Both ctl ctl
  | Either ctl ctl
  | Behind ctl
  | Braces "ctl list"
  | Parens "ctl list"

text \<open>A command ends with a code and the script goes on, or it ends the script with one.\<close>

datatype ended = Continues int | Leaves int

fun end_code :: "ended \<Rightarrow> int" where
  "end_code (Continues c) = c"
| "end_code (Leaves c) = c"

type_synonym result = "ended \<times> string"

fun follow :: "result \<Rightarrow> (int \<Rightarrow> result) \<Rightarrow> result" where
  "follow (Continues c, s) f = (fst (f c), s @ snd (f c))"
| "follow (Leaves c, s) f = (Leaves c, s)"

fun atom_sem :: "(string \<Rightarrow> int \<times> string) \<Rightarrow> atom \<Rightarrow> int \<Rightarrow> result" where
  "atom_sem acts (Do name) prev = (Continues (fst (acts name)), snd (acts name))"
| "atom_sem acts Report prev = (Continues 0, show_int prev @ [NL])"
| "atom_sem acts (Leave n) prev = (Leaves (int n), [])"

text \<open>\<open>prev\<close> is the code of the command before; an empty list returns 0.\<close>

fun sem :: "(string \<Rightarrow> int \<times> string) \<Rightarrow> ctl \<Rightarrow> int \<Rightarrow> result"
  and sem_list :: "(string \<Rightarrow> int \<times> string) \<Rightarrow> ctl list \<Rightarrow> int \<Rightarrow> int \<Rightarrow> result" where
  "sem acts (Atom a) prev = atom_sem acts a prev"
| "sem acts (Neg a) prev = follow (atom_sem acts a prev) (\<lambda>c. (Continues (if c = 0 then 1 else 0), []))"
| "sem acts (Both l r) prev = follow (sem acts l prev) (\<lambda>c. if c = 0 then sem acts r c else (Continues c, []))"
| "sem acts (Either l r) prev = follow (sem acts l prev) (\<lambda>c. if c \<noteq> 0 then sem acts r c else (Continues c, []))"
| "sem acts (Behind c) prev = sem acts c prev"
| "sem acts (Braces cs) prev = sem_list acts cs 0 prev"
| "sem acts (Parens cs) prev = sem_list acts cs 0 prev"
| "sem_list acts [] code prev = (Continues code, [])"
| "sem_list acts (c # cs) code prev = follow (sem acts c prev) (\<lambda>x. sem_list acts cs x x)"

section \<open>The text of a script\<close>

fun atom_cmd :: "atom \<Rightarrow> simple_command" where
  "atom_cmd (Do name) = SimpleCommand [] (Some (quote name)) [] []"
| "atom_cmd Report = SimpleCommand [] (Some (Literal ''echo'')) [Variable (Special LastExit)] []"
| "atom_cmd (Leave n) = SimpleCommand [] (Some (Literal ''exit'')) [Literal (show_nat n)] []"

text \<open>Braces where the grammar needs them: an and-or list nests to the left, and its operands are not in the background.\<close>

definition left_operand :: "command \<Rightarrow> command" where
  "left_operand c = (if is_background c then Group [c] else c)"

definition right_operand :: "command \<Rightarrow> command" where
  "right_operand c = (if is_element c then c else Group [c])"

fun cmd_of :: "ctl \<Rightarrow> command"
  and cmds_of :: "ctl list \<Rightarrow> command list" where
  "cmd_of (Atom a) = Simple (atom_cmd a)"
| "cmd_of (Neg a) = Pipeline [atom_cmd a] True"
| "cmd_of (Both l r) = AndCmd (left_operand (cmd_of l)) (right_operand (cmd_of r))"
| "cmd_of (Either l r) = OrCmd (left_operand (cmd_of l)) (right_operand (cmd_of r))"
| "cmd_of (Behind c) = Background (left_operand (cmd_of c))"
| "cmd_of (Braces cs) = Group (cmds_of cs)"
| "cmd_of (Parens cs) = Subshell (cmds_of cs)"
| "cmds_of [] = []"
| "cmds_of (c # cs) = cmd_of c # cmds_of cs"

definition ctl_text :: "ctl list \<Rightarrow> string" where
  "ctl_text cs = print_script (cmds_of cs)"

lemma ok_atom: "ok_simple (atom_cmd a)"
proof (cases a)
  case (Leave n)
  have "NL \<notin> set (show_nat n)" using show_digits [of n] by (auto simp: is_ascii_digit_def char_consts)
  then show ?thesis
    using Leave show_nat_nonempty [of n] by (simp add: ok_simple_def ok_name_def reserved_def char_consts)
qed (auto simp: ok_simple_def ok_name_def reserved_def char_consts quote_def)

lemma ok_operands:
  "ok_cmd c \<Longrightarrow> ok_cmd (left_operand c) \<and> \<not> is_background (left_operand c)"
  "ok_cmd c \<Longrightarrow> ok_cmd (right_operand c) \<and> is_element (right_operand c)"
  by (simp_all add: left_operand_def right_operand_def)

lemma ok_cmd_of: "ok_cmd (cmd_of c)" "ok_script (cmds_of cs)"
  by (induction c and cs rule: cmd_of_cmds_of.induct) (simp_all add: ok_atom ok_operands)

section \<open>Execution\<close>

text \<open>
  What a shell needs for a script: each program writes its text and returns its code whatever its context
  is, no alias is in the way, and \<open>echo\<close> is the built-in one. A code of \<open>exit\<close> has 31 bits.
\<close>

definition always :: "'h program \<Rightarrow> string list \<Rightarrow> int \<times> string \<Rightarrow> bool" where
  "always cb args r \<longleftrightarrow> (\<forall>c. \<exists>io'. cb args c =
     (Ok (fst r), c\<lparr>cx_io := io', cx_bufs := vw_write (io_stdout (cx_io c)) (snd r) (cx_bufs c)\<rparr>))"

definition marks :: "'h Shell \<Rightarrow> string \<Rightarrow> int \<times> string \<Rightarrow> bool" where
  "marks sh name r \<longleftrightarrow> sm_get (sh_aliases sh) name = None \<and> name \<notin> set shell_intrinsics
     \<and> (\<exists>cb. resolve_program (sh_registry sh) name (path_var sh) = Some cb \<and> always cb [name] r)"

fun atom_runs :: "'h Shell \<Rightarrow> (string \<Rightarrow> int \<times> string) \<Rightarrow> atom \<Rightarrow> bool" where
  "atom_runs sh acts (Do name) = marks sh name (acts name)"
| "atom_runs sh acts Report \<longleftrightarrow> sm_get (sh_aliases sh) ''echo'' = None
     \<and> resolve_program (sh_registry sh) ''echo'' (path_var sh) = Some builtin_echo"
| "atom_runs sh acts (Leave n) \<longleftrightarrow> sm_get (sh_aliases sh) ''exit'' = None \<and> n < 2 ^ 31"

fun runs :: "'h Shell \<Rightarrow> (string \<Rightarrow> int \<times> string) \<Rightarrow> ctl \<Rightarrow> bool"
  and runs_list :: "'h Shell \<Rightarrow> (string \<Rightarrow> int \<times> string) \<Rightarrow> ctl list \<Rightarrow> bool" where
  "runs sh acts (Atom a) = atom_runs sh acts a"
| "runs sh acts (Neg a) = atom_runs sh acts a"
| "runs sh acts (Both l r) \<longleftrightarrow> runs sh acts l \<and> runs sh acts r"
| "runs sh acts (Either l r) \<longleftrightarrow> runs sh acts l \<and> runs sh acts r"
| "runs sh acts (Behind c) = runs sh acts c"
| "runs sh acts (Braces cs) = runs_list sh acts cs"
| "runs sh acts (Parens cs) = runs_list sh acts cs"
| "runs_list sh acts [] = True"
| "runs_list sh acts (c # cs) \<longleftrightarrow> runs sh acts c \<and> runs_list sh acts cs"

text \<open>
  From the shell \<open>sh\<close> with any streams and any last code, the computation gives the result, written to
  \<open>w\<close>, and changes nothing else but the last code.
\<close>

fun outcome_of :: "ended \<Rightarrow> (int, ShellError) outcome" where
  "outcome_of (Continues c) = Ok c"
| "outcome_of (Leaves c) = Err (Exit c)"

definition gives :: "'h Shell \<Rightarrow> VecWriter \<Rightarrow> ('h, int) sact \<Rightarrow> (int \<Rightarrow> result) \<Rightarrow> bool" where
  "gives sh w m f \<longleftrightarrow> (\<forall>bufs prev. \<exists>prev'. m (sh\<lparr>sh_bufs := bufs, sh_last_exit := prev\<rparr>)
     = (outcome_of (fst (f prev)), sh\<lparr>sh_bufs := vw_write w (snd (f prev)) bufs, sh_last_exit := prev'\<rparr>))"

lemma gives_ret: "gives sh w (ret c) (\<lambda>prev. (Continues c, []))"
  by (auto simp: gives_def)

lemma gives_then:
  assumes m: "gives sh w m f" and g: "\<And>c. gives sh w (g c) (h c)"
  shows "gives sh w (andThen m (\<lambda>c. andThen (set_last_exit c) (\<lambda>_. g c))) (\<lambda>prev. follow (f prev) (\<lambda>c. h c c))"
  unfolding gives_def
proof (intro allI)
  fix bufs prev
  obtain e s where fs: "f prev = (e, s)" by fastforce
  obtain prev' where r: "m (sh\<lparr>sh_bufs := bufs, sh_last_exit := prev\<rparr>)
      = (outcome_of e, sh\<lparr>sh_bufs := vw_write w s bufs, sh_last_exit := prev'\<rparr>)"
    using m fs unfolding gives_def by (metis fst_conv snd_conv)
  show "\<exists>prev'. andThen m (\<lambda>c. andThen (set_last_exit c) (\<lambda>_. g c)) (sh\<lparr>sh_bufs := bufs, sh_last_exit := prev\<rparr>)
     = (outcome_of (fst (follow (f prev) (\<lambda>c. h c c))),
        sh\<lparr>sh_bufs := vw_write w (snd (follow (f prev) (\<lambda>c. h c c))) bufs, sh_last_exit := prev'\<rparr>)"
  proof (cases e)
    case (Continues c)
    obtain prev2 where "g c (sh\<lparr>sh_bufs := vw_write w s bufs, sh_last_exit := c\<rparr>)
        = (outcome_of (fst (h c c)), sh\<lparr>sh_bufs := vw_write w (snd (h c c)) (vw_write w s bufs), sh_last_exit := prev2\<rparr>)"
      using g [of c] unfolding gives_def by blast
    then show ?thesis using r fs Continues by (auto simp: andThen_def set_last_exit_def vw_write_append)
  next
    case (Leaves c)
    then show ?thesis using r fs by (auto simp: andThen_def)
  qed
qed

lemma gives_map:
  assumes "gives sh w m f"
  shows "gives sh w (andThen m (\<lambda>c. ret (k c))) (\<lambda>prev. follow (f prev) (\<lambda>c. (Continues (k c), [])))"
  unfolding gives_def
proof (intro allI)
  fix bufs prev
  obtain e s where fs: "f prev = (e, s)" by fastforce
  then obtain prev' where "m (sh\<lparr>sh_bufs := bufs, sh_last_exit := prev\<rparr>)
      = (outcome_of e, sh\<lparr>sh_bufs := vw_write w s bufs, sh_last_exit := prev'\<rparr>)"
    using assms unfolding gives_def by (metis fst_conv snd_conv)
  then show "\<exists>prev'. andThen m (\<lambda>c. ret (k c)) (sh\<lparr>sh_bufs := bufs, sh_last_exit := prev\<rparr>)
     = (outcome_of (fst (follow (f prev) (\<lambda>c. (Continues (k c), [])))),
        sh\<lparr>sh_bufs := vw_write w (snd (follow (f prev) (\<lambda>c. (Continues (k c), [])))) bufs, sh_last_exit := prev'\<rparr>)"
    using fs by (cases e) (auto simp: andThen_def)
qed

lemma follow_ret [simp]: "follow r (\<lambda>c. (Continues c, [])) = r"
  by (cases r; cases "fst r") auto

lemma run_mark:
  assumes "always cb args r"
  shows "run_program cb args io sh = (Ok (fst r), sh\<lparr>sh_bufs := vw_write (io_stdout io) (snd r) (sh_bufs sh)\<rparr>)"
proof -
  let ?c = "\<lparr>cx_env = sh_env sh, cx_cwd = sh_cwd sh, cx_aliases = sh_aliases sh, cx_fs = sh_fs sh,
    cx_bufs = sh_bufs sh, cx_io = io\<rparr>"
  obtain io' where "cb args ?c = (Ok (fst r), ?c\<lparr>cx_io := io', cx_bufs := vw_write (io_stdout io) (snd r) (sh_bufs sh)\<rparr>)"
    using spec [OF assms [unfolded always_def], of ?c] by auto
  then show ?thesis by (cases sh) (simp add: run_program_def Let_def)
qed

lemma rewritten: "sh\<lparr>sh_bufs := b, sh_last_exit := n\<rparr>\<lparr>sh_bufs := b'\<rparr> = sh\<lparr>sh_bufs := b', sh_last_exit := n\<rparr>"
  by (cases sh) simp

lemma dispatch_exit: "dispatch src ''exit'' args io = exit_builtin args"
  by (subst dispatch.simps) (simp add: fun_eq_iff)

lemma show_int_no_flag: "show_int i \<notin> {''-n'', ''-e'', ''-E'', ''-ne'', ''-en''}"
  using show_digits [of "nat (- i)"] show_digits [of "nat i"]
  by (auto simp: show_int_def is_ascii_digit_def split: if_splits)

lemma echo_int: "echo_text [show_int i] = show_int i @ [NL]"
  using show_int_no_flag [of i] by (simp add: echo_text_def)

lemma atom_gives:
  assumes "atom_runs sh acts a"
  shows "gives sh (io_stdout io) (execute_simple oc src (atom_cmd a) io) (atom_sem acts a)"
  unfolding gives_def
proof (intro allI)
  fix bufs prev
  let ?sh = "sh\<lparr>sh_bufs := bufs, sh_last_exit := prev\<rparr>"
  have path: "path_var ?sh = path_var sh" by (simp add: path_var_def)
  show "\<exists>prev'. execute_simple oc src (atom_cmd a) io ?sh = (outcome_of (fst (atom_sem acts a prev)),
      sh\<lparr>sh_bufs := vw_write (io_stdout io) (snd (atom_sem acts a prev)) bufs, sh_last_exit := prev'\<rparr>)"
  proof (cases a)
    case (Do name)
    with assms obtain cb where cb: "resolve_program (sh_registry sh) name (path_var sh) = Some cb" "always cb [name] (acts name)"
      and n: "sm_get (sh_aliases sh) name = None" "name \<notin> set shell_intrinsics" by (auto simp: marks_def)
    have "execute_simple oc src (SimpleCommand [] (Some (quote name)) (map arg_word []) []) io ?sh
        = (Ok (fst (acts name)), ?sh\<lparr>sh_bufs := vw_write (io_stdout io) (snd (acts name)) bufs\<rparr>)"
      by (rule quoted_simple) (use cb n path run_mark [OF cb(2), of io ?sh] in simp_all)
    then have "\<exists>prev'. execute_simple oc src (atom_cmd a) io ?sh
        = (Ok (fst (acts name)), sh\<lparr>sh_bufs := vw_write (io_stdout io) (snd (acts name)) bufs, sh_last_exit := prev'\<rparr>)"
      unfolding rewritten using Do by auto
    then show ?thesis using Do by simp
  next
    case Report
    have "execute_simple oc src (atom_cmd a) io ?sh = (Ok 0, ?sh\<lparr>sh_bufs := vw_write (io_stdout io) (show_int prev @ [NL]) bufs\<rparr>)"
      using assms Report path run_filter [OF filters_echo, of "[show_int prev]" io ?sh]
      by (simp add: andThen_def attempt_def settle_def alias_parts_def tilde_def shell_intrinsics_def
          dispatch_program expand_special_def echo_int)
    then show ?thesis unfolding rewritten using Report by auto
  next
    case (Leave n)
    have p: "parse_signed 32 (show_nat n) = Some (int n)"
      using parse_signed_show [of 32 "int n"] assms Leave by (simp add: show_int_def)
    have "tilde (show_nat n) sh = show_nat n" for sh :: "'a Shell"
      using show_digits [of n] show_nat_nonempty [of n]
      by (cases "show_nat n") (auto simp: tilde_def is_ascii_digit_def)
    then have "execute_simple oc src (atom_cmd a) io ?sh = (Err (Exit (int n)), ?sh)"
      using assms Leave p
      by (simp add: andThen_def attempt_def settle_def alias_parts_def tilde_def
          dispatch_exit exit_builtin_def arg_def)
    then show ?thesis using Leave by auto
  qed
qed

lemma gives_last:
  assumes "gives sh w m f"
  shows "gives sh w (andThen m (\<lambda>c. andThen (set_last_exit c) (\<lambda>_. ret c))) f"
  using gives_then [where g = ret and h = "\<lambda>c _. (Continues c, [])", OF assms gives_ret] by simp

text \<open>The braces around an operand change nothing.\<close>

lemma gives_group:
  assumes "gives sh w (execute_command oc src c io) f"
  shows "gives sh w (execute_command oc src (Group [c]) io) f"
  using gives_last [OF assms] by simp

lemma gives_operands:
  assumes "gives sh w (execute_command oc src c io) f"
  shows "gives sh w (execute_command oc src (left_operand c) io) f" "gives sh w (execute_command oc src (right_operand c) io) f"
  using assms gives_group [OF assms] by (simp_all add: left_operand_def right_operand_def del: execute_command.simps)

lemma gives_choice:
  assumes "gives sh w m f" "gives sh w m' f'"
  shows "gives sh w (andThen m (\<lambda>c. andThen (set_last_exit c) (\<lambda>_. if P c then m' else ret c)))
     (\<lambda>prev. follow (f prev) (\<lambda>c. if P c then f' c else (Continues c, [])))"
proof -
  have "gives sh w (if P c then m' else ret c) (\<lambda>prev. if P c then f' prev else (Continues c, []))" for c
    using assms(2) gives_ret by (cases "P c") simp_all
  from gives_then [where h = "\<lambda>c prev. if P c then f' prev else (Continues c, [])", OF assms(1) this]
  show ?thesis .
qed

lemma gives_subshell:
  assumes "gives sh w m f"
  shows "gives sh w (andThen (gets sh_env) (\<lambda>e. andThen (gets sh_cwd) (\<lambda>d. andThen m (\<lambda>c.
     andThen (modify (\<lambda>s. s\<lparr>sh_env := e, sh_cwd := d\<rparr>)) (\<lambda>_. ret c))))) f"
  unfolding gives_def
proof (intro allI)
  fix bufs prev
  obtain e s where fs: "f prev = (e, s)" by fastforce
  then obtain prev' where "m (sh\<lparr>sh_bufs := bufs, sh_last_exit := prev\<rparr>)
      = (outcome_of e, sh\<lparr>sh_bufs := vw_write w s bufs, sh_last_exit := prev'\<rparr>)"
    using assms unfolding gives_def by (metis fst_conv snd_conv)
  moreover have "sh\<lparr>sh_bufs := b, sh_last_exit := n\<rparr>\<lparr>sh_env := sh_env sh, sh_cwd := sh_cwd sh\<rparr>
      = sh\<lparr>sh_bufs := b, sh_last_exit := n\<rparr>" for b n
    by (cases sh) simp
  ultimately show "\<exists>prev'. andThen (gets sh_env) (\<lambda>e. andThen (gets sh_cwd) (\<lambda>d. andThen m (\<lambda>c.
       andThen (modify (\<lambda>s. s\<lparr>sh_env := e, sh_cwd := d\<rparr>)) (\<lambda>_. ret c)))) (sh\<lparr>sh_bufs := bufs, sh_last_exit := prev\<rparr>)
     = (outcome_of (fst (f prev)), sh\<lparr>sh_bufs := vw_write w (snd (f prev)) bufs, sh_last_exit := prev'\<rparr>)"
    using fs by (cases e) (auto simp: andThen_def)
qed

lemma sem_nil: "sem_list acts [] code = (\<lambda>prev. (Continues code, []))"
  by (rule ext) simp

lemma sem_cons: "sem_list acts (c # cs) code = (\<lambda>prev. follow (sem acts c prev) (\<lambda>x. sem_list acts cs x x))"
  by (rule ext) simp

lemma sem_ops:
  "sem acts (Neg a) = (\<lambda>prev. follow (atom_sem acts a prev) (\<lambda>c. (Continues (if c = 0 then 1 else 0), [])))"
  "sem acts (Both l r) = (\<lambda>prev. follow (sem acts l prev) (\<lambda>c. if c = 0 then sem acts r c else (Continues c, [])))"
  "sem acts (Either l r) = (\<lambda>prev. follow (sem acts l prev) (\<lambda>c. if c \<noteq> 0 then sem acts r c else (Continues c, [])))"
  "sem acts (Atom a) = atom_sem acts a" "sem acts (Behind c) = sem acts c"
  "sem acts (Braces cs) = sem_list acts cs 0" "sem acts (Parens cs) = sem_list acts cs 0"
  by (rule ext, simp)+

lemma cmd_gives:
  "runs sh acts c \<Longrightarrow> gives sh (io_stdout io) (execute_command oc src (cmd_of c) io) (sem acts c)"
  "runs_list sh acts cs \<Longrightarrow> gives sh (io_stdout io) (execute_commands oc src (cmds_of cs) io code) (sem_list acts cs code)"
proof (induction c and cs arbitrary: and code rule: cmd_of_cmds_of.induct)
  case (1 a)
  then show ?case by (simp add: atom_gives sem_ops)
next
  case (2 a)
  then have "gives sh (io_stdout io) (execute_simple oc src (atom_cmd a) io) (atom_sem acts a)" by (simp add: atom_gives)
  from gives_map [OF gives_last [OF this], where k = "\<lambda>c. if c = 0 then 1 else 0"]
  show ?case by (simp add: sem_ops)
next
  case (3 l r)
  then show ?case by (simp add: sem_ops gives_choice gives_operands)
next
  case (4 l r)
  then show ?case
    using gives_choice [where P = "\<lambda>c. c \<noteq> 0", OF gives_operands(1) gives_operands(2)]
    by (simp add: sem_ops del: split_paired_All if_not_P cong: if_cong)
next
  case (5 c)
  then show ?case by (simp add: sem_ops gives_operands)
next
  case (6 cs)
  then show ?case by (simp add: sem_ops)
next
  case (7 cs)
  then show ?case by (simp add: sem_ops gives_subshell)
next
  case 8
  show ?case unfolding cmds_of.simps execute_commands.simps sem_nil by (rule gives_ret)
next
  case (9 c cs)
  then have "gives sh (io_stdout io) (execute_command oc src (cmd_of c) io) (sem acts c)"
    "\<And>code. gives sh (io_stdout io) (execute_commands oc src (cmds_of cs) io code) (sem_list acts cs code)" by simp_all
  from gives_then [OF this] show ?case by (simp add: sem_cons)
qed

section \<open>From the text\<close>

lemma runs_tls:
  "runs (sh\<lparr>sh_tls := t\<rparr>) acts c = runs sh acts c" "runs_list (sh\<lparr>sh_tls := t\<rparr>) acts cs = runs_list sh acts cs"
proof -
  have "atom_runs (sh\<lparr>sh_tls := t\<rparr>) acts a = atom_runs sh acts a" for a
    by (cases a) (simp_all add: marks_def path_var_def)
  then show "runs (sh\<lparr>sh_tls := t\<rparr>) acts c = runs sh acts c" "runs_list (sh\<lparr>sh_tls := t\<rparr>) acts cs = runs_list sh acts cs"
    by (induction c and cs rule: cmd_of_cmds_of.induct) simp_all
qed

lemma write_new: "vw_write (length b) s (b @ [[], []]) = b @ [s, []]"
  by (simp add: vw_write_def vw_bytes_def nth_append list_update_append)

text \<open>
  C6: the control flow of scripts, from their text. Take any script put together from programs that write
  a text and return a code, \<open>echo $?\<close> and \<open>exit\<close>, by lists, \<open>&&\<close>, \<open>||\<close>, \<open>!\<close>, \<open>&\<close>, braces and parentheses,
  nested to any depth. Executing its text runs exactly the commands the reference semantics runs, in its
  order: the output is the concatenation of what they write, \<open>$?\<close> is at each place the code of the command
  before, the code is that of the last command or of the \<open>exit\<close> that ended the script (from inside a
  subshell as well), and nothing else of the shell changes.
\<close>

theorem control_flow_correct:
  assumes "runs_list sh acts cs" "\<not> hd_borrowed (sh_tls sh)"
  shows "exec_with_stdin oc (Suc d) (ctl_text cs) input sh =
    (case sem_list acts cs 0 (sh_last_exit sh) of (e, s) \<Rightarrow>
      (Ok \<lparr>eo_code = end_code e, eo_stdout = s, eo_stderr = []\<rparr>,
       sh\<lparr>sh_tls := (sh_tls sh)\<lparr>hd_queue := []\<rparr>, sh_bufs := sh_bufs sh @ [s, []], sh_last_exit := end_code e\<rparr>))"
proof -
  let ?sh1 = "sh\<lparr>sh_tls := (sh_tls sh)\<lparr>hd_queue := []\<rparr>\<rparr>"
  let ?w = "length (sh_bufs sh)"
  let ?io = "\<lparr>io_stdin = reader_new input, io_stdout = ?w, io_stderr = Suc ?w\<rparr>"
  obtain e s where es: "sem_list acts cs 0 (sh_last_exit sh) = (e, s)" by fastforce
  have parse: "sh_parse (ctl_text cs) sh = (Ok (cmds_of cs), ?sh1)"
    using parse_printed [OF ok_cmd_of(2) ok_cmd_of(2) assms(2)] by (simp add: sh_parse_def ctl_text_def)
  have same: "?sh1\<lparr>sh_bufs := b, sh_last_exit := sh_last_exit sh\<rparr> = ?sh1\<lparr>sh_bufs := b\<rparr>" "sh_bufs ?sh1 = sh_bufs sh" for b
    by (cases sh, simp)+
  have "gives ?sh1 ?w (execute_commands oc (run_level oc d) (cmds_of cs) ?io 0) (sem_list acts cs 0)"
    using cmd_gives(2) [of ?sh1 acts cs ?io] assms(1) by (simp add: runs_tls)
  then obtain prev' where "execute_commands oc (run_level oc d) (cmds_of cs) ?io 0 (?sh1\<lparr>sh_bufs := sh_bufs sh @ [[], []]\<rparr>)
      = (outcome_of e, ?sh1\<lparr>sh_bufs := sh_bufs sh @ [s, []], sh_last_exit := prev'\<rparr>)"
    unfolding gives_def using same(1) es write_new by (metis fst_conv snd_conv)
  then have "run_level oc (Suc d) (cmds_of cs) ?io (?sh1\<lparr>sh_bufs := sh_bufs ?sh1 @ [[], []]\<rparr>)
      = (outcome_of e, ?sh1\<lparr>sh_bufs := sh_bufs sh @ [s, []], sh_last_exit := prev'\<rparr>)"
    unfolding same(2) by (simp add: execute_script_def)
  moreover have "outcome_of e = Ok (end_code e) \<or> outcome_of e = Err (Exit (end_code e))" by (cases e) simp_all
  ultimately show ?thesis
    using exec_parsed [OF parse, of oc "Suc d" input] unfolding same(2)
    by (simp add: es vw_bytes_def nth_append del: run_level.simps)
qed

text \<open>A shell with \<open>echo\<close>, \<open>true\<close> and \<open>false\<close>, and a script with every form but plain groups.\<close>

abbreviation flow_shell :: "unit Shell" where
  "flow_shell \<equiv> install [(''echo'', builtin_echo), (''true'', const_program 0), (''false'', const_program 1)] (bare_shell ())"

lemma flow_shell_programs:
  "resolve_program (sh_registry flow_shell) ''echo'' (path_var flow_shell) = Some builtin_echo"
  "resolve_program (sh_registry flow_shell) ''true'' (path_var flow_shell) = Some (const_program 0)"
  "resolve_program (sh_registry flow_shell) ''false'' (path_var flow_shell) = Some (const_program 1)"
  "sh_aliases flow_shell = []" "sh_tls flow_shell = tls_init" "sh_bufs flow_shell = []" "sh_last_exit flow_shell = 0"
proof -
  have "find_path (sh_registry flow_shell) ''echo'' (path_var flow_shell) = Some ''/usr/bin/echo''"
    "find_path (sh_registry flow_shell) ''true'' (path_var flow_shell) = Some ''/usr/bin/true''"
    "find_path (sh_registry flow_shell) ''false'' (path_var flow_shell) = Some ''/usr/bin/false''"
    by code_simp+
  moreover have "sm_get (sh_registry flow_shell) ''/usr/bin/echo'' = Some builtin_echo"
    "sm_get (sh_registry flow_shell) ''/usr/bin/true'' = Some (const_program 0)"
    "sm_get (sh_registry flow_shell) ''/usr/bin/false'' = Some (const_program 1)"
    by (simp_all add: install_def add_program_def registry_add_def canonical_program_path_def
        str_contains_def bare_shell_def)
  ultimately show "resolve_program (sh_registry flow_shell) ''echo'' (path_var flow_shell) = Some builtin_echo"
    "resolve_program (sh_registry flow_shell) ''true'' (path_var flow_shell) = Some (const_program 0)"
    "resolve_program (sh_registry flow_shell) ''false'' (path_var flow_shell) = Some (const_program 1)"
    unfolding resolve_program_def by simp_all
qed (simp_all add: install_def add_program_def bare_shell_def)

lemma const_always: "always (const_program n) args (n, [])"
  by (auto simp: always_def const_program_def) (metis ProgramContext.surjective ProgramContext.update_convs(6))

theorem control_flow_correct_witness:
  "exec_with_stdin False 1
     (ctl_text [Either (Both (Atom (Do ''false'')) (Atom (Do ''true''))) (Atom Report), Behind (Neg (Do ''false'')),
        Atom Report, Parens [Atom (Leave 3)], Atom Report]) [] flow_shell
   = (Ok \<lparr>eo_code = 3, eo_stdout = [CHR ''1'', NL, CHR ''0'', NL], eo_stderr = []\<rparr>,
      flow_shell\<lparr>sh_bufs := [[CHR ''1'', NL, CHR ''0'', NL], []], sh_last_exit := 3\<rparr>)"
  (is "exec_with_stdin _ _ (ctl_text ?cs) _ _ = _")
proof -
  let ?acts = "\<lambda>name. (if name = ''false'' then 1 else 0, [])"
  have "runs_list flow_shell ?acts ?cs"
    using flow_shell_programs const_always by (auto simp: marks_def shell_intrinsics_def)
  moreover have "\<not> hd_borrowed (sh_tls flow_shell)" by (simp add: flow_shell_programs tls_init_def)
  moreover have "sem_list ?acts ?cs 0 0 = (Leaves 3, [CHR ''1'', NL, CHR ''0'', NL])" by code_simp
  moreover have "flow_shell\<lparr>sh_tls := (sh_tls flow_shell)\<lparr>hd_queue := []\<rparr>, sh_bufs := b, sh_last_exit := 3\<rparr>
      = flow_shell\<lparr>sh_bufs := b, sh_last_exit := 3\<rparr>" for b
    by (simp add: install_def add_program_def bare_shell_def tls_init_def)
  ultimately show ?thesis
    using control_flow_correct [of flow_shell ?acts ?cs False 0 "[]"] by (simp add: flow_shell_programs del: sem.simps sem_list.simps)
qed

end
