(* ===== verification/Spec2Isabelle.thy ===== *)
theory Spec2Isabelle
  imports VfsSpec ArithMeaning LexerText ParserTotal ShellSafety SourceDepth ShellFacts FileFacts Divergences ErrorReport
    WasmSession QuoteFacts AdjacentQuotes ControlFlow
begin

text \<open>
  A model of \<open>wasm-shell\<close>, a shell with a virtual filesystem that is embedded in JavaScript, and the
  theorems that make it correct. The code is in two crates: \<open>crates/bash_parser\<close> turns the text of a
  script into a syntax tree, and \<open>crates/wasm_shell\<close> executes the tree on a virtual filesystem with the
  built-in programs and exports the whole as a JavaScript object.

  \<^bold>\<open>How the parts interact.\<close> JavaScript calls the methods of the shell object (\<open>wasm.rs\<close>); its \<open>exec\<close> takes
  the shell out of the object, calls \<open>Shell::exec_with_stdin\<close> (\<open>shell.rs\<close>) and puts it back. That parses
  the text (\<open>lexer.rs\<close>, \<open>parser.rs\<close>), executes the tree (\<open>exec.rs\<close>), which expands words (\<open>expand.rs\<close>), and
  gives each simple command to an intrinsic of the shell or to a program of the registry
  (\<open>registry.rs\<close>), built in (\<open>builtins.rs\<close>) or written in JavaScript. A program works on a context with
  the arguments, the environment (\<open>env.rs\<close>), the streams (\<open>io.rs\<close>) and the filesystem (\<open>vfs.rs\<close>), where a
  path below a mount goes to callbacks of the host.
\<close>

text \<open>
  \<^bold>\<open>Conventions\<close> (\<open>Prelude\<close>). A fallible or stateful function is a computation \<open>('s, 'a, 'e) act\<close>: from a
  state to an \<open>outcome\<close> and a state. The outcomes are \<open>Ok\<close> and \<open>Err\<close> (the code's \<open>Result\<close>), \<open>Panic\<close> (an index
  or a slice out of bounds, an overflow, an \<open>unwrap\<close>), and two of the model: \<open>OutOfFuel\<close> and \<open>SourceLimit\<close>.
  \<open>andThen\<close> is the operator \<open>?\<close>. A \<open>String\<close>, a byte vector and a slice of either are a \<open>string\<close> of bytes; a
  \<open>char\<close> of the code is the list of its UTF-8 bytes. The maps of the standard library are sorted association
  lists. \<open>i64\<close> is \<open>int\<close> with the wrap-around or the panic of the build written out (the flag \<open>oc\<close> says
  whether overflow checks are on); \<open>usize\<close> has the 32 bits of the target where a conversion can fail.

  \<^bold>\<open>The model\<close>, in the order of the code's layers:
  \<^item> \<open>RustStr\<close>, \<open>Utf8\<close>: the standard library's strings, integer parsing and UTF-8 decoding.
  \<^item> \<open>Paths\<close>, \<open>Vfs\<close>: \<open>vfs.rs\<close> with \<open>VfsError\<close> of \<open>error.rs\<close>. The record \<open>Vfs\<close> holds the tree of \<open>Node\<close>s, the
    mount table and the state of the host, of any type; a mount is a record of callbacks.
  \<^item> \<open>Ast\<close>, \<open>Lexer\<close>, \<open>WordParser\<close>, \<open>Parser\<close>, \<open>ErrorReport\<close>: \<open>ast.rs\<close>, \<open>lexer.rs\<close>, \<open>parser.rs\<close> and \<open>error.rs\<close> of
    the parser. The record \<open>parser\<close> is \<open>Parser\<close>; the thread-local queue of heredoc bodies, with the borrow
    flag of its cell, is the record \<open>tls\<close>. A nested parse is an argument of the word level.
  \<^item> \<open>Arith\<close>: \<open>eval_arith\<close> of \<open>expand.rs\<close>, from the text to the number.
  \<^item> \<open>Shell\<close>, \<open>Exec\<close>: \<open>env.rs\<close>, \<open>io.rs\<close>, \<open>registry.rs\<close>, \<open>shell.rs\<close>, \<open>expand.rs\<close>, \<open>exec.rs\<close>. The record \<open>Shell\<close> is
    \<open>Shell\<close>; a stream is an index into its buffers, so handles that are clones share one. Expansion and
    execution are one mutual recursion over the tree.
  \<^item> \<open>BuiltinCore\<close>, \<open>BuiltinsFs\<close>, \<open>BuiltinsText\<close>, \<open>BuiltinsSed\<close>, \<open>BuiltinsEnv\<close>, \<open>BuiltinsLib\<close>, \<open>Builtins\<close>:
    \<open>builtins.rs\<close>, with its \<open>register\<close> and the new shell in the last.
  \<^item> \<open>Wasm\<close>: \<open>wasm.rs\<close>, the mounts and programs made of JavaScript functions and the methods of the shell
    object; \<open>exec\<close> is in two parts, before and after the wait for the script.
\<close>

text \<open>
  \<^bold>\<open>What is shown\<close>, and where:
  \<^item> \<open>VfsTree\<close>, \<open>VfsSpec\<close>: an abstract filesystem is a map from segment lists to entries; every operation of
    \<open>vfs.rs\<close> implements its specification, for every sequence of operations, errors included, and keeps
    the invariant \<open>vfs_ok\<close>. A path is served by the mount with the longest prefix. \<open>Paths\<close> shows
    normalisation canonical and that resolution leads where a walk by the segments does (\<open>walks\<close>, a step
    relation of its own).
  \<^item> \<open>LexerTotal\<close>, \<open>ParserTotal\<close>: lexing and parsing end for every text. The locale \<open>token_source\<close> is what the
    parser asks of the lexer, interpreted on \<open>next_token\<close>.
  \<^item> \<open>LexerText\<close>: a lexical grammar, of words with their expansions (\<open>word_form\<close>), of each token (\<open>written\<close>), of
    what stands between tokens (\<open>gap\<close>) and of what is never completed (\<open>fails\<close>). The lexer cuts every
    source into these pieces (\<open>lexemes\<close>), and moves by whole characters, so that the slices of the code,
    total in the model, are on character boundaries.
  \<^item> \<open>Printer\<close>, \<open>PrintParse\<close>, \<open>ScriptRoundtrip\<close>: a printer of tokens that the lexer undoes, a printer of
    scripts that the parser undoes. \<open>yields\<close> is partial correctness of a parsing step on known tokens;
    totality then gives the result. The scripts are the ones without heredocs, substitutions and
    parameter operators.
  \<^item> \<open>QuoteFacts\<close>: executing a line of quoted texts and variables calls the program with exactly these.
  \<^item> \<open>ControlFlow\<close>: a reference semantics of lists, and-or lists, negation, groups, subshells and \<open>exit\<close> (\<open>sem\<close>);
    executing the text of a script agrees with it in what runs, in \<open>$?\<close>, in the output and in the code.
  \<^item> \<open>AdjacentQuotes\<close>: quotes that follow a word without a space are a word of their own, so that an
    assignment of a quoted text is not one.
  \<^item> \<open>ArithMeaning\<close>, \<open>Arith\<close>: expressions, their text in a grammar of levels (\<open>text_at\<close>) and their value in machine words
    (\<open>meaning\<close>), none of which uses the evaluator's tables: the evaluator gives the value of the text. It
    answers every text with a value, an error or the panic of an overflow.
  \<^item> \<open>ExecContract\<close>, \<open>BuiltinsContract\<close>, \<open>ShellContracts\<close>, \<open>ShellSafety\<close>: a contract is an invariant of the
    state, a relation of the states before and after, and the outcomes allowed. The locales
    \<open>step_contract\<close>, \<open>shell_contract\<close>, \<open>reader_contract\<close>, \<open>program_contract\<close> and \<open>vfs_contract\<close> derive the contract of
    the executor and of the programs from that of their steps; the interpretations give that execution
    ends without \<open>OutOfFuel\<close> and keeps the shell well formed, that a session keeps its invariant, and that
    the reading programs change nothing.
  \<^item> \<open>SourceDepth\<close>: the bound on nested \<open>source\<close> commands does not change a run that stays within it
    (\<open>exec_limit_mono\<close>), so that it is a bound of the model only.
  \<^item> \<open>StreamFacts\<close>, \<open>ShellFacts\<close>: pipelines compose their programs, output redirections put what is written
    into the file, assignments before a command are scoped to it.
  \<^item> \<open>CharFacts\<close>, \<open>TextFacts\<close>, \<open>TreeFacts\<close>, \<open>CopyFacts\<close>, \<open>FileFacts\<close>: \<open>sort\<close>, \<open>uniq\<close>, \<open>cut\<close>, \<open>tr\<close>, \<open>test\<close>, the glob
    matcher and the escapes of \<open>echo -e\<close> against specifications of their own (the number a line denotes,
    the positions a field list selects, the characters a set stands for); \<open>find\<close> prints the tree below its
    root; \<open>cp -r\<close> makes an exact copy, and never ends when the copy is inside its source; \<open>rm\<close> and \<open>mv\<close> change
    the tree exactly as their operands and flags ask, and report what they do not do.
  \<^item> \<open>WasmFacts\<close>: the object's calls as an inductive step relation, in which a script runs between the two
    parts of its \<open>exec\<close>. Its reachable states have at most one script running; a JavaScript program cannot
    panic and changes only streams, environment and its own heap; a panic in a script is final.
  \<^item> \<open>WasmSession\<close>: the same steps with labels, the calls and their answers. Every run of the object is a
    session of an abstract shell with the same calls and answers, in which a script acts as a whole.
  \<^item> \<open>Divergences\<close>: scripts, run from their text, on which the code departs from what a shell does.
\<close>

text \<open>
  \<^bold>\<open>Bounds and fuel.\<close> The grammar has \<open>2 * length src + 4\<close> fuel (\<open>grammar_fuel\<close>) and a nested parse one level
  less than its caller, from \<open>nesting\<close>, which bounds the text and the bodies in the queue; both are shown to
  be enough for every text (\<open>parse_terminates\<close>). The word level and the lexer recurse on positions with
  measures. Execution recurses on the tree; only \<open>source\<close> leaves it, and its nesting is the argument \<open>d\<close> of
  \<open>exec_with_stdin\<close>: the code has no bound there, a script that sources itself does not end, and every
  statement holds for all \<open>d\<close>. The recursive walks (\<open>ls -R\<close>, \<open>find\<close>, \<open>grep -r\<close>, \<open>cp -r\<close>) have \<open>lib_depth\<close> fuel:
  mounts of the host may be of any depth. That enough fuel gives the result is shown for \<open>find\<close> and \<open>cp -r\<close>, and
  that no fuel is enough for \<open>cp -r\<close> into its own source.

  \<^bold>\<open>Parameters.\<close> The \<open>regex\<close>, \<open>brook_math\<close>, \<open>toml\<close> and \<open>resvg\<close> crates and the text of floating point numbers
  in \<open>printf\<close> are fields of the record \<open>Libs\<close>; the JavaScript engine is the record \<open>Js\<close> of functions on a heap,
  where a JavaScript program is a tree of the calls it makes of its context. Nothing is assumed of them,
  except where a statement says so.

  \<^bold>\<open>Not modelled.\<close> The time \<open>sleep\<close> waits; the locks around the filesystem and the streams (the code awaits
  every call in turn, so none is contended within a script) and a file access of JavaScript that waits
  for the lock of a running script; the \<open>Send\<close> and \<open>Sync\<close> wrappers; the borrow check of the generated
  bindings; a context that JavaScript keeps after its program has ended; the depth of the machine's stack;
  the order in which the hash maps of the code iterate where it does not sort (the model's maps are
  sorted). The heredoc queue belongs to the thread: the model has it in the shell and takes it as empty in
  a new one, which is so for the first shell of a thread.
\<close>

end
